(* ===== verification/Thoth_Base.thy ===== *)
theory Thoth_Base
  imports Main "HOL-Library.Word" "HOL-Library.AList" "HOL-Library.Multiset"
begin

text \<open>
  The prelude of the development: the widths of the machine integers the broker uses, the
  outcome type of Go code that may panic or terminate the process, Go maps as association lists
  with distinct keys, and the list, option and association-list lemmas that the component
  theories share.  Nothing here models a particular function of the repository.
\<close>

section \<open>Machine integers, addresses and outcomes\<close>

type_synonym u8 = "8 word"
type_synonym u16 = "16 word"
type_synonym u64 = "64 word"

text \<open>
  Durations are 64-bit counts of nanoseconds, with the wrap-around written out; division by two
  truncates towards zero.
\<close>

definition wrap64 :: "int \<Rightarrow> int" where
  "wrap64 i = (i + 2 ^ 63) mod 2 ^ 64 - 2 ^ 63"

definition half64 :: "int \<Rightarrow> int" where
  "half64 i = (if i < 0 then - ((- i) div 2) else i div 2)"

text \<open>
  Pointers to heap objects (clients, subscriptions, sessions) are addresses; two pointers are
  equal exactly when their addresses are.
\<close>

type_synonym addr = nat

text \<open>
  A Go map is an association list with distinct keys.  The position of an entry is the position
  at which a \<open>range\<close> loop visits it, which the language leaves open: statements about
  loops over maps are therefore statements about every order.
\<close>

type_synonym ('k, 'v) gomap = "('k \<times> 'v) list"

abbreviation gm_get :: "('k, 'v) gomap \<Rightarrow> 'k \<Rightarrow> 'v option" where
  "gm_get \<equiv> map_of"

abbreviation gm_put :: "'k \<Rightarrow> 'v \<Rightarrow> ('k, 'v) gomap \<Rightarrow> ('k, 'v) gomap" where
  "gm_put \<equiv> AList.update"

abbreviation gm_del :: "'k \<Rightarrow> ('k, 'v) gomap \<Rightarrow> ('k, 'v) gomap" where
  "gm_del \<equiv> AList.delete"

abbreviation gm_ok :: "('k, 'v) gomap \<Rightarrow> bool" where
  "gm_ok m \<equiv> distinct (map fst m)"

text \<open>
  Code that may panic or end the process: \<open>Ret\<close> is a normal return, \<open>Panic\<close> a Go
  run-time panic (or \<open>log.Panic\<close>) with its cause, \<open>Exit\<close> a call of
  \<open>log.Fatal\<close>, which logs and ends the whole broker process.
\<close>

datatype 'a outcome = Ret 'a | Panic string | Exit string

primrec and_then :: "'a outcome \<Rightarrow> ('a \<Rightarrow> 'b outcome) \<Rightarrow> 'b outcome" where
  "and_then (Ret a) f = f a"
| "and_then (Panic s) f = Panic s"
| "and_then (Exit s) f = Exit s"

named_theorems topic_simps \<open>equations of the topic-level functions\<close>
named_theorems trie_simps \<open>equations of the subscription and retained-message tries\<close>
named_theorems world_simps \<open>frame and field equations of the broker's state\<close>

lemma and_then_Ret_iff [simp]:
  "and_then r f = Ret b \<longleftrightarrow> (\<exists>a. r = Ret a \<and> f a = Ret b)"
  by (cases r) auto

lemma and_then_cong [fundef_cong]:
  "\<lbrakk> r = r'; \<And>a. r' = Ret a \<Longrightarrow> f a = g a \<rbrakk> \<Longrightarrow> and_then r f = and_then r' g"
  by (cases r') auto

section \<open>Go maps\<close>

lemma gm_get_put: "gm_get (gm_put k v m) k' = (if k' = k then Some v else gm_get m k')"
  by (simp add: update_conv')

lemma gm_get_del: "gm_get (gm_del k m) k' = (if k' = k then None else gm_get m k')"
  by (simp add: AList.delete_conv')

lemmas gm_simps [simp] = gm_get_put gm_get_del

lemma gm_ok_put [simp]: "gm_ok m \<Longrightarrow> gm_ok (gm_put k v m)"
  by (rule distinct_update)

lemma gm_ok_del [simp]: "gm_ok m \<Longrightarrow> gm_ok (gm_del k m)"
  by (rule distinct_delete)

lemma gm_put_not_Nil [simp]: "gm_put k v m \<noteq> []"
  by (cases m) auto

lemma gm_getD: "gm_get m k = Some v \<Longrightarrow> (k, v) \<in> set m"
  by (rule map_of_SomeD)

lemma gm_get_iff: "gm_ok m \<Longrightarrow> gm_get m k = Some v \<longleftrightarrow> (k, v) \<in> set m"
  by (rule map_of_eq_Some_iff)

lemma gm_del_absent: "gm_get m k = None \<Longrightarrow> gm_del k m = m"
  by (simp add: delete_id map_of_eq_None_iff)

lemma gm_put_absent: "gm_get m k = None \<Longrightarrow> gm_put k v m = m @ [(k, v)]"
  by (induction m) (auto split: if_splits)

text \<open>
  A map with an entry for \<open>k\<close> splits around it; storing replaces the entry in place and
  deleting drops it.
\<close>

lemma gm_split:
  assumes "gm_ok m" and "gm_get m k = Some v"
  obtains xs ys where "m = xs @ (k, v) # ys" and "k \<notin> fst ` set xs" and "k \<notin> fst ` set ys"
    and "\<And>w. gm_put k w m = xs @ (k, w) # ys" and "gm_del k m = xs @ ys"
proof -
  from gm_getD [OF assms(2)] obtain xs ys where m: "m = xs @ (k, v) # ys"
    by (meson split_list)
  with assms(1) have xs: "k \<notin> fst ` set xs" and ys: "k \<notin> fst ` set ys"
    by auto
  from xs have "gm_put k w (xs @ (k, v) # ys) = xs @ (k, w) # ys" for w
    by (induction xs) auto
  moreover from xs ys have "gm_del k (xs @ (k, v) # ys) = xs @ ys"
    by (induction xs) auto
  ultimately show ?thesis using that m xs ys by metis
qed

lemma gm_put_snd: "e \<in> set (gm_put k v m) \<Longrightarrow> snd e = v \<or> e \<in> set m"
  by (induction m) (auto split: if_splits)

lemma gm_put_mem: "e \<in> set (gm_put k v m) \<Longrightarrow> e = (k, v) \<or> e \<in> set m"
  by (induction m) (auto split: if_splits)

lemma gm_del_sub: "e \<in> set (gm_del k m) \<Longrightarrow> e \<in> set m"
  by (auto simp: AList.delete_eq)

lemma gm_put_all:
  "\<lbrakk> P v; \<forall>(k, x) \<in> set m. P x \<rbrakk> \<Longrightarrow> \<forall>(k, x) \<in> set (gm_put k v m). P x"
  by (induction m) auto

lemma gm_del_all: "\<forall>(k, x) \<in> set m. P x \<Longrightarrow> \<forall>(k, x) \<in> set (gm_del k m). P x"
  by (auto simp: AList.delete_eq)

text \<open>A sum over the entries of a map in which only one key contributes.\<close>

lemma sum_list_single_key:
  "gm_ok m \<Longrightarrow> (\<Sum>(k, n) \<leftarrow> m. if k = a then f n else {#}) =
     (case gm_get m a of Some n \<Rightarrow> f n | None \<Rightarrow> {#})"
proof (induction m)
  case Nil
  then show ?case by simp
next
  case (Cons e m)
  obtain k n where e: "e = (k, n)" by (cases e)
  show ?case
  proof (cases "k = a")
    case True
    with Cons.prems e have "gm_get m a = None" by (auto simp: map_of_eq_None_iff)
    with True Cons e show ?thesis by simp
  next
    case False
    with Cons e show ?thesis by simp
  qed
qed

section \<open>Lists and options\<close>

lemma take_drop_Suc_conv:
  "i < length xs \<Longrightarrow> mset (take i xs @ drop (Suc i) xs) = mset xs - {# xs ! i #}"
proof -
  assume "i < length xs"
  then have "xs = take i xs @ xs ! i # drop (Suc i) xs" by (rule id_take_nth_drop)
  then have "mset xs = mset (take i xs) + (add_mset (xs ! i) (mset (drop (Suc i) xs)))"
    by (metis mset.simps(2) mset_append)
  then show ?thesis by simp
qed

lemma distinct_take_drop_Suc:
  "distinct xs \<Longrightarrow> distinct (take i xs @ drop (Suc i) xs)"
proof -
  assume d: "distinct xs"
  then have "set (take i xs) \<inter> set (drop (Suc i) xs) = {}"
    using set_take_disj_set_drop_if_distinct [of xs i "Suc i"] by simp
  with d show ?thesis by simp
qed

lemma set_take_drop_Suc:
  assumes "distinct xs" and "i < length xs"
  shows "set (take i xs @ drop (Suc i) xs) = set xs - {xs ! i}"
proof -
  have "xs = take i xs @ xs ! i # drop (Suc i) xs"
    using assms(2) by (rule id_take_nth_drop)
  with assms(1) show ?thesis
    by (metis (no_types, lifting) Diff_insert_absorb Un_insert_right distinct_append
        distinct.simps(2) insert_disjoint(2) list.simps(15) not_distinct_conv_prefix set_append Un_iff)
qed

text \<open>A loop whose body appends to an accumulator appends the concatenation.\<close>

lemma fold_append_concat:
  "(\<And>x acc. x \<in> set xs \<Longrightarrow> f x acc = acc @ g x) \<Longrightarrow> fold f xs acc = acc @ concat (map g xs)"
  by (induction xs arbitrary: acc) auto

text \<open>The first position of an element, as the loops over a node's subscriber slice find it.\<close>

primrec first_index :: "('a \<Rightarrow> bool) \<Rightarrow> 'a list \<Rightarrow> nat option" where
  "first_index P [] = None"
| "first_index P (x # xs) = (if P x then Some 0 else map_option Suc (first_index P xs))"

lemma first_index_None: "first_index P xs = None \<longleftrightarrow> (\<forall>x \<in> set xs. \<not> P x)"
  by (induction xs) auto

lemma first_index_Some:
  "first_index P xs = Some i \<Longrightarrow> i < length xs \<and> P (xs ! i) \<and> (\<forall>j < i. \<not> P (xs ! j))"
proof (induction xs arbitrary: i)
  case Nil
  then show ?case by simp
next
  case (Cons x xs)
  then show ?case by (auto simp: nth_Cons split: if_splits nat.splits)
qed

end
