(* ===== verification/Mqtt_Packets.thy ===== *)
theory Mqtt_Packets
  imports Thoth_Base
begin

text \<open>
  The MQTT control packets as the broker sees them.  The packet types belong to the package
  \<open>paho.mqtt.golang/packets\<close>, which is not part of the repository; the records below have
  the fields that the broker reads or writes and nothing else.  Encoding and decoding stay outside
  the model: a received packet is an input, and a written packet is an entry in the output of a
  connection.  The packets that \<open>NewControlPacket\<close> returns are parameters of the functions that
  call it, wherever fields that the caller does not set survive in the result.
\<close>

record publish_packet =
  p_TopicName :: string
  p_MessageID :: u16
  p_Payload :: string
  p_Qos :: u8
  p_Dup :: bool
  p_Retain :: bool

record connect_packet =
  c_ProtocolName :: string
  c_ProtocolVersion :: u8
  c_CleanSession :: bool
  c_WillFlag :: bool
  c_WillQos :: u8
  c_WillRetain :: bool
  c_WillTopic :: string
  c_WillMessage :: string
  c_ClientIdentifier :: string
  c_Username :: string
  c_Password :: string
  c_Keepalive :: u16
  c_Qos :: u8
  c_Dup :: bool

record connack_packet =
  ca_SessionPresent :: bool
  ca_ReturnCode :: u8

record subscribe_packet =
  s_MessageID :: u16
  s_Topics :: "string list"
  s_Qoss :: "u8 list"

record unsubscribe_packet =
  u_MessageID :: u16
  u_Topics :: "string list"

datatype control_packet =
    ConnectPacket connect_packet
  | ConnackPacket connack_packet
  | PublishPacket publish_packet
  | PubackPacket u16
  | PubrecPacket u16
  | PubrelPacket u16
  | PubcompPacket u16
  | SubscribePacket subscribe_packet
  | SubackPacket u16 "u8 list"
  | UnsubscribePacket unsubscribe_packet
  | UnsubackPacket u16
  | PingreqPacket
  | PingrespPacket
  | DisconnectPacket

text \<open>The QoS constants, declared alike in \<open>broker/constants.go\<close> and \<open>topics/memtopics.go\<close>.\<close>

definition QosAtMostOnce :: u8 where "QosAtMostOnce = 0"
definition QosAtLeastOnce :: u8 where "QosAtLeastOnce = 1"
definition QosExactlyOnce :: u8 where "QosExactlyOnce = 2"
definition QosFailure :: u8 where "QosFailure = 0x80"

lemmas qos_defs [simp] =
  QosAtMostOnce_def QosAtLeastOnce_def QosExactlyOnce_def QosFailure_def

definition ValidQos :: "u8 \<Rightarrow> bool" where
  "ValidQos qos \<longleftrightarrow> qos = QosAtMostOnce \<or> qos = QosAtLeastOnce \<or> qos = QosExactlyOnce"

lemma ValidQos_iff: "ValidQos q \<longleftrightarrow> unat q \<le> 2"
proof -
  have "unat q = 0 \<or> unat q = 1 \<or> unat q = 2 \<longleftrightarrow> unat q \<le> 2" by arith
  moreover have "unat (1 :: u8) = 1" and "unat (2 :: u8) = 2" and "unat (0 :: u8) = 0" by simp_all
  ultimately show ?thesis
    unfolding ValidQos_def qos_defs word_unat_eq_iff by presburger
qed

end
