(* ===== verification/Topic_Levels.thy ===== *)
theory Topic_Levels
  imports Mqtt_Packets
begin

text \<open>
  Topic names and topic filters as lists of levels: the function \<open>nextTopicLevel\<close> of
  \<open>topics/memtopics.go\<close>, which both tries use to walk a topic, an independent description of
  what it returns, the complete decomposition of a topic, and the matching relation of filters
  and topic names that the tries implement.
\<close>

section \<open>nextTopicLevel\<close>

definition MWC :: string where "MWC = ''#''"
definition SWC :: string where "SWC = ''+''"

lemmas wildcard_defs [simp] = MWC_def SWC_def

text \<open>The errors of the topic functions, one constructor per \<open>fmt.Errorf\<close>.\<close>

datatype topic_error =
    MultiLevelNotLast    \<comment> \<open>Multi-level wildcard found in topic and it's not at the last level\<close>
  | HashNotWhole         \<comment> \<open>Wildcard character '#' must occupy entire topic level\<close>
  | PlusNotWhole         \<comment> \<open>Wildcard character '+' must occupy entire topic level\<close>
  | WildcardNotWhole     \<comment> \<open>Wildcard characters '#' and '+' must occupy entire topic level\<close>
  | NoTopicForSubscriber \<comment> \<open>No topic found for subscriber\<close>
  | NoTopicFound         \<comment> \<open>No topic found\<close>
  | InvalidQoS u8        \<comment> \<open>Invalid QoS\<close>
  | NilSubscriber        \<comment> \<open>Subscriber cannot be nil\<close>

datatype level_state = stateCHR | stateMWC | stateSWC | stateSEP | stateSYS

text \<open>
  The loop of \<open>nextTopicLevel\<close>: \<open>i\<close> is the index, \<open>s\<close> the state and the last argument
  the part of the topic not yet read.
\<close>

fun nextTopicLevel_loop ::
  "string \<Rightarrow> nat \<Rightarrow> level_state \<Rightarrow> string \<Rightarrow> topic_error + (string \<times> string)" where
  "nextTopicLevel_loop topic i s [] = Inr (topic, [])"
| "nextTopicLevel_loop topic i s (c # cs) =
     (if c = CHR ''/'' then
        (if s = stateMWC then Inl MultiLevelNotLast
         else if i = 0 then Inr (SWC, drop (i + 1) topic)
         else Inr (take i topic, drop (i + 1) topic))
      else if c = CHR ''#'' then
        (if i \<noteq> 0 then Inl HashNotWhole else nextTopicLevel_loop topic (i + 1) stateMWC cs)
      else if c = CHR ''+'' then
        (if i \<noteq> 0 then Inl PlusNotWhole else nextTopicLevel_loop topic (i + 1) stateSWC cs)
      else if s = stateMWC \<or> s = stateSWC then Inl WildcardNotWhole
      else nextTopicLevel_loop topic (i + 1) stateCHR cs)"

definition nextTopicLevel :: "string \<Rightarrow> topic_error + (string \<times> string)" where
  "nextTopicLevel topic = nextTopicLevel_loop topic 0 stateCHR topic"

section \<open>What nextTopicLevel returns\<close>

text \<open>
  The independent description: the text up to the first separator is a level, which is a
  wildcard on its own or holds no wildcard character.
\<close>

definition plain_char :: "char \<Rightarrow> bool" where
  "plain_char c \<longleftrightarrow> c \<noteq> CHR ''/'' \<and> c \<noteq> CHR ''#'' \<and> c \<noteq> CHR ''+''"

definition level_ok :: "string \<Rightarrow> bool" where
  "level_ok l \<longleftrightarrow> l = MWC \<or> l = SWC \<or> list_all plain_char l"

lemma loop_plain:
  "list_all plain_char l \<Longrightarrow>
   nextTopicLevel_loop (pre @ l @ r) (length pre) stateCHR (l @ r) =
   nextTopicLevel_loop (pre @ l @ r) (length pre + length l) stateCHR r"
proof (induction l arbitrary: pre)
  case Nil
  then show ?case by simp
next
  case (Cons c l)
  from Cons.prems have c: "plain_char c" and l: "list_all plain_char l" by simp_all
  from Cons.IH [OF l, of "pre @ [c]"] c show ?case by (simp add: plain_char_def)
qed

lemma loop_plain0:
  "list_all plain_char l \<Longrightarrow>
   nextTopicLevel_loop (l @ r) 0 stateCHR (l @ r) =
   nextTopicLevel_loop (l @ r) (length l) stateCHR r"
  using loop_plain [of l "[]" r] by simp

text \<open>The three ways to succeed.\<close>

lemma nextTopicLevel_plain [topic_simps]:
  "list_all plain_char l \<Longrightarrow> nextTopicLevel l = Inr (l, [])"
  using loop_plain0 [of l "[]"] by (simp add: nextTopicLevel_def)

lemma nextTopicLevel_plain_sep [topic_simps]:
  "list_all plain_char l \<Longrightarrow>
   nextTopicLevel (l @ CHR ''/'' # r) = Inr (if l = [] then SWC else l, r)"
  using loop_plain0 [of l "CHR ''/'' # r"] by (simp add: nextTopicLevel_def)

lemma nextTopicLevel_wild [topic_simps]:
  "nextTopicLevel ''#'' = Inr (''#'', [])"
  "nextTopicLevel ''+'' = Inr (''+'', [])"
  "nextTopicLevel (CHR ''+'' # CHR ''/'' # r) = Inr (''+'', r)"
  "nextTopicLevel (CHR ''#'' # CHR ''/'' # r) = Inl MultiLevelNotLast"
  by (simp_all add: nextTopicLevel_def)

text \<open>Every topic has one of the shapes above, or a wildcard character inside a level.\<close>

lemma plain_prefix_cases:
  obtains (plain) "list_all plain_char t"
    | (special) l c r where "list_all plain_char l" and "\<not> plain_char c" and "t = l @ c # r"
proof (cases "list_all plain_char t")
  case True
  then show ?thesis by (rule plain)
next
  case False
  then have "\<exists>x \<in> set t. \<not> plain_char x" by (simp add: list_all_iff)
  from split_list_first_prop [OF this] obtain l c r where "t = l @ c # r" and "\<not> plain_char c"
    and "\<forall>x \<in> set l. \<not> \<not> plain_char x" by blast
  then show ?thesis by (intro special) (auto simp: list_all_iff)
qed

lemma nextTopicLevel_hash_rest:
  "nextTopicLevel (CHR ''#'' # c # r) =
     (if c = CHR ''/'' then Inl MultiLevelNotLast else if c = CHR ''#'' then Inl HashNotWhole
      else if c = CHR ''+'' then Inl PlusNotWhole else Inl WildcardNotWhole)"
  by (simp add: nextTopicLevel_def)

lemma nextTopicLevel_plus_rest:
  "nextTopicLevel (CHR ''+'' # c # r) =
     (if c = CHR ''/'' then Inr (''+'', r) else if c = CHR ''#'' then Inl HashNotWhole
      else if c = CHR ''+'' then Inl PlusNotWhole else Inl WildcardNotWhole)"
  by (simp add: nextTopicLevel_def)

lemma nextTopicLevel_inner_wild:
  assumes "list_all plain_char l" and "l \<noteq> []" and "c = CHR ''#'' \<or> c = CHR ''+''"
  shows "nextTopicLevel (l @ c # r) = Inl (if c = CHR ''#'' then HashNotWhole else PlusNotWhole)"
  using assms loop_plain0 [of l "c # r"] by (auto simp: nextTopicLevel_def)

lemma nextTopicLevel_Inr_cases:
  assumes "nextTopicLevel t = Inr (l, r)"
  obtains (last) "t = l" and "r = []" and "level_ok l"
    | (empty) "t = CHR ''/'' # r" and "l = SWC"
    | (sep) "t = l @ CHR ''/'' # r" and "l \<noteq> []" and "level_ok l" and "l \<noteq> MWC"
proof (cases t rule: plain_prefix_cases)
  case plain
  then have "l = t" and "r = []" using assms by (simp_all add: topic_simps)
  with plain show ?thesis by (intro last) (simp_all add: level_ok_def)
next
  case (special l' c r')
  show ?thesis
  proof (cases "c = CHR ''/''")
    case True
    then have "l = (if l' = [] then SWC else l')" and "r = r'"
      using assms special by (simp_all add: nextTopicLevel_plain_sep)
    with True special show ?thesis
      by (cases "l' = []") (auto intro: empty sep simp: level_ok_def plain_char_def)
  next
    case False
    with special(2) have wild: "c = CHR ''#'' \<or> c = CHR ''+''" by (auto simp: plain_char_def)
    with assms special have l': "l' = []" using nextTopicLevel_inner_wild by fastforce
    show ?thesis
    proof (cases r')
      case Nil
      with assms special wild l' have "t = l" "r = []" "level_ok l"
        by (auto simp: topic_simps level_ok_def)
      then show ?thesis by (rule last)
    next
      case (Cons d r'')
      with assms special wild l' have "t = ''+'' @ CHR ''/'' # r" "l = ''+''"
        by (auto simp: nextTopicLevel_hash_rest nextTopicLevel_plus_rest split: if_splits)
      then show ?thesis by (intro sep) (auto simp: level_ok_def)
    qed
  qed
qed

lemma nextTopicLevel_shorter:
  "nextTopicLevel t = Inr (l, r) \<Longrightarrow> t \<noteq> [] \<Longrightarrow> length r < length t"
  by (erule nextTopicLevel_Inr_cases) auto

lemma nextTopicLevel_level_ok: "nextTopicLevel t = Inr (l, r) \<Longrightarrow> level_ok l"
  by (erule nextTopicLevel_Inr_cases) (auto simp: level_ok_def)

lemma nextTopicLevel_MWC: "nextTopicLevel t = Inr (MWC, r) \<Longrightarrow> t = MWC \<and> r = []"
  by (erule nextTopicLevel_Inr_cases) auto

section \<open>The levels of a topic\<close>

text \<open>
  Walking a topic to its end with \<open>nextTopicLevel\<close>, as every operation of the tries does: the
  list of all levels, or the first error.
\<close>

function levels :: "string \<Rightarrow> topic_error + string list" where
  "levels t =
     (if t = [] then Inr []
      else case nextTopicLevel t of
             Inl e \<Rightarrow> Inl e
           | Inr (l, r) \<Rightarrow> (case levels r of Inl e \<Rightarrow> Inl e | Inr ls \<Rightarrow> Inr (l # ls)))"
  by pat_completeness auto
termination
  by (relation "measure length") (auto dest: nextTopicLevel_shorter)

declare levels.simps [simp del]

lemma levels_Nil [simp]: "levels [] = Inr []"
  by (simp add: levels.simps)

lemma levels_step:
  "t \<noteq> [] \<Longrightarrow> nextTopicLevel t = Inr (l, r) \<Longrightarrow>
   levels t = (case levels r of Inl e \<Rightarrow> Inl e | Inr ls \<Rightarrow> Inr (l # ls))"
  by (simp add: levels.simps [of t])

lemma levels_error: "t \<noteq> [] \<Longrightarrow> nextTopicLevel t = Inl e \<Longrightarrow> levels t = Inl e"
  by (simp add: levels.simps [of t])

lemma levels_InrE:
  assumes "levels t = Inr ls"
  obtains (nil) "t = []" and "ls = []"
    | (cons) l r ls' where "t \<noteq> []" and "nextTopicLevel t = Inr (l, r)" and "levels r = Inr ls'"
        and "ls = l # ls'"
  using assms by (subst (asm) levels.simps) (auto split: if_splits sum.splits prod.splits)

text \<open>
  The reference: split the topic at the separators.  Every segment must be a level, \<open>#\<close> may
  only be the last segment, a trailing empty segment disappears and every other empty segment is
  read as the single-level wildcard.
\<close>

fun split_sep :: "string \<Rightarrow> string list" where
  "split_sep [] = [[]]"
| "split_sep (c # cs) =
     (if c = CHR ''/'' then [] # split_sep cs
      else (case split_sep cs of [] \<Rightarrow> [[c]] | h # t \<Rightarrow> (c # h) # t))"

definition filter_syntax :: "string list \<Rightarrow> bool" where
  "filter_syntax segs \<longleftrightarrow> list_all level_ok segs \<and> MWC \<notin> set (butlast segs)"

definition fill_level :: "string \<Rightarrow> string" where
  "fill_level seg = (if seg = [] then SWC else seg)"

definition norm_segs :: "string list \<Rightarrow> string list" where
  "norm_segs segs = map fill_level (if last segs = [] then butlast segs else segs)"

lemma split_sep_nonempty [simp]: "split_sep t \<noteq> []"
  by (induction t) (auto split: list.splits)

lemma split_sep_append:
  "CHR ''/'' \<notin> set l \<Longrightarrow> split_sep (l @ CHR ''/'' # r) = l # split_sep r"
  by (induction l) auto

lemma split_sep_single: "CHR ''/'' \<notin> set l \<Longrightarrow> split_sep l = [l]"
  by (induction l) auto

lemma level_ok_no_sep: "level_ok l \<Longrightarrow> CHR ''/'' \<notin> set l"
  by (auto simp: level_ok_def list_all_iff plain_char_def)

lemma level_ok_Nil [simp]: "level_ok []"
  by (simp add: level_ok_def)

lemma filter_syntax_Cons:
  "segs \<noteq> [] \<Longrightarrow> filter_syntax (l # segs) \<longleftrightarrow> level_ok l \<and> l \<noteq> MWC \<and> filter_syntax segs"
  by (auto simp: filter_syntax_def)

lemma norm_segs_Cons: "segs \<noteq> [] \<Longrightarrow> norm_segs (l # segs) = fill_level l # norm_segs segs"
  by (auto simp: norm_segs_def)

text \<open>An error of \<open>nextTopicLevel\<close> is an error of the first segment.\<close>

lemma filter_syntax_nextTopicLevel:
  assumes "filter_syntax (split_sep t)"
  shows "\<exists>l r. nextTopicLevel t = Inr (l, r)"
proof (cases t rule: plain_prefix_cases)
  case plain
  then show ?thesis by (simp add: topic_simps)
next
  case (special l c r)
  show ?thesis
  proof (cases "c = CHR ''/''")
    case True
    with special show ?thesis by (simp add: nextTopicLevel_plain_sep)
  next
    case False
    obtain seg segs where "split_sep r = seg # segs" by (cases "split_sep r") simp_all
    with False have split: "split_sep (c # r) = (c # seg) # segs" by simp
    have "CHR ''/'' \<notin> set l" using special(1) by (auto simp: list_all_iff plain_char_def)
    then have "split_sep t = (l @ c # seg) # segs"
      using split unfolding special(3) by (induction l) auto
    with assms have ok: "level_ok (l @ c # seg)" and mwc: "segs \<noteq> [] \<longrightarrow> l @ c # seg \<noteq> MWC"
      by (auto simp: filter_syntax_def)
    from ok special(2) have "l = []" and "seg = []" and "c = CHR ''#'' \<or> c = CHR ''+''"
      by (auto simp: level_ok_def append_eq_Cons_conv)
    moreover from split have "r = [] \<or> (\<exists>r'. r = CHR ''/'' # r') \<and> segs \<noteq> []"
      using \<open>seg = []\<close> False by (cases r) (auto split: if_splits list.splits)
    ultimately show ?thesis
      using mwc special(3) by (auto simp: topic_simps nextTopicLevel_plus_rest)
  qed
qed

lemma nextTopicLevel_split:
  assumes "nextTopicLevel t = Inr (l, r)" and "t \<noteq> []"
  obtains (last) "split_sep t = [t]" and "l = t" and "r = []" and "level_ok t"
    | (more) seg where "split_sep t = seg # split_sep r" and "level_ok seg" and "seg \<noteq> MWC"
        and "l = fill_level seg"
  using assms(1)
proof (cases rule: nextTopicLevel_Inr_cases)
  case last
  then show ?thesis by (intro that(1)) (simp_all add: split_sep_single level_ok_no_sep)
next
  case empty
  then show ?thesis by (intro that(2) [of "[]"]) (simp_all add: fill_level_def)
next
  case sep
  then show ?thesis
    by (intro that(2) [of l]) (simp_all add: fill_level_def split_sep_append level_ok_no_sep)
qed

lemma levels_iff_split:
  "levels t = Inr ls \<longleftrightarrow> filter_syntax (split_sep t) \<and> ls = norm_segs (split_sep t)"
proof (induction t arbitrary: ls rule: levels.induct)
  case (1 t)
  show ?case
  proof (cases "t = []")
    case True
    then show ?thesis by (auto simp: filter_syntax_def norm_segs_def)
  next
    case nonempty: False
    show ?thesis
    proof (cases "nextTopicLevel t")
      case (Inl e)
      with nonempty have "levels t = Inl e" by (rule levels_error)
      moreover have "\<not> filter_syntax (split_sep t)"
        using filter_syntax_nextTopicLevel [of t] Inl by auto
      ultimately show ?thesis by simp
    next
      case (Inr p)
      then obtain l r where lr: "nextTopicLevel t = Inr (l, r)" by (cases p) simp
      have IH: "levels r = Inr ls' \<longleftrightarrow> filter_syntax (split_sep r) \<and> ls' = norm_segs (split_sep r)"
        for ls' using "1" [OF nonempty lr] by simp
      from lr nonempty show ?thesis
      proof (cases rule: nextTopicLevel_split)
        case last
        with nonempty lr show ?thesis
          by (auto simp: levels_step filter_syntax_def norm_segs_def fill_level_def)
      next
        case (more seg)
        then show ?thesis
          using IH levels_step [OF nonempty lr]
          by (auto simp: filter_syntax_Cons norm_segs_Cons split: sum.splits)
      qed
    qed
  qed
qed

section \<open>Well-formed filters and their text\<close>

text \<open>The level lists that walking a topic can produce.\<close>

fun wf_filter :: "string list \<Rightarrow> bool" where
  "wf_filter [] = True"
| "wf_filter (l # ls) = (l \<noteq> [] \<and> level_ok l \<and> (l = MWC \<longrightarrow> ls = []) \<and> wf_filter ls)"

fun join_levels :: "string list \<Rightarrow> string" where
  "join_levels [] = []"
| "join_levels [l] = l"
| "join_levels (l # ls) = l @ CHR ''/'' # join_levels ls"

lemma levels_wf: "levels t = Inr ls \<Longrightarrow> wf_filter ls"
proof (induction t arbitrary: ls rule: levels.induct)
  case (1 t)
  from "1.prems" show ?case
  proof (cases rule: levels_InrE)
    case (cons l r ls')
    with "1.IH" have "wf_filter ls'" by simp
    moreover from cons(2) have "l \<noteq> []"
      by (cases rule: nextTopicLevel_Inr_cases) (use cons(1) in simp_all)
    moreover have "ls' = []" if "l = MWC"
      using nextTopicLevel_MWC [of t r] cons that by auto
    ultimately show ?thesis using cons nextTopicLevel_level_ok by auto
  qed simp
qed

lemma nextTopicLevel_join:
  assumes "wf_filter (l # ls)"
  shows "nextTopicLevel (join_levels (l # ls)) = Inr (l, join_levels ls)"
proof (cases ls)
  case Nil
  with assms show ?thesis by (auto simp: level_ok_def topic_simps)
next
  case (Cons l' ls')
  with assms show ?thesis
    by (auto simp: level_ok_def topic_simps nextTopicLevel_plain_sep)
qed

lemma levels_join: "wf_filter ls \<Longrightarrow> levels (join_levels ls) = Inr ls"
proof (induction ls)
  case Nil
  then show ?case by simp
next
  case (Cons l ls)
  have "join_levels (l # ls) \<noteq> []" using Cons.prems by (cases ls) auto
  from levels_step [OF this nextTopicLevel_join [OF Cons.prems]] Cons show ?case by simp
qed

section \<open>Matching\<close>

text \<open>
  The relation between a filter and a topic name, both as lists of levels: \<open>+\<close> stands for one
  level, a final \<open>#\<close> for any number of levels, the parent level included.
\<close>

fun matches :: "string list \<Rightarrow> string list \<Rightarrow> bool" where
  "matches [] ts \<longleftrightarrow> ts = []"
| "matches (f # fs) [] \<longleftrightarrow> f = MWC \<and> fs = []"
| "matches (f # fs) (t # ts) \<longleftrightarrow>
     (if f = MWC then fs = [] else (f = SWC \<or> f = t) \<and> matches fs ts)"

lemma matches_MWC [simp]: "matches [''#''] ts"
  by (cases ts) simp_all

lemma matches_refl: "\<lbrakk> wf_filter ts; MWC \<notin> set ts \<rbrakk> \<Longrightarrow> matches ts ts"
  by (induction ts) auto

section \<open>Properties\<close>

text \<open>
  C25: walking a topic with \<open>nextTopicLevel\<close> succeeds exactly when every segment between
  separators is a wildcard on its own or holds no wildcard character and \<open>#\<close> occurs in the last
  segment only; it then yields the segments, an empty one read as \<open>+\<close> and a trailing one
  dropped.
\<close>

theorem levels_reference:
  "levels t = Inr ls \<longleftrightarrow> filter_syntax (split_sep t) \<and> ls = norm_segs (split_sep t)"
  by (rule levels_iff_split)

text \<open>
  C26: the level lists that \<open>nextTopicLevel\<close> can produce are exactly those that survive
  printing and reading again: the walk is a left inverse of joining with separators on the
  well-formed lists, and on no others.
\<close>

theorem levels_roundtrip: "wf_filter ls \<longleftrightarrow> levels (join_levels ls) = Inr ls"
  using levels_join levels_wf by blast

text \<open>
  C27: the walk of a topic ends: a successful call of \<open>nextTopicLevel\<close> leaves a strictly shorter
  rest, so that the recursions of the tries along a topic end, after at most as many levels as the
  topic has characters.
\<close>

theorem topic_walk_ends:
  assumes "t \<noteq> []"
  shows "(\<forall>l r. nextTopicLevel t = Inr (l, r) \<longrightarrow> length r < length t) \<and>
    (\<forall>ls. levels t = Inr ls \<longrightarrow> length ls \<le> length t)"
proof -
  have "length ls \<le> length t" if "levels t = Inr ls" for ls
    using that
  proof (induction t arbitrary: ls rule: length_induct)
    case (1 t)
    show ?case
    proof (cases "t = []")
      case False
      with "1.prems" obtain l r ls' where n: "nextTopicLevel t = Inr (l, r)" and "levels r = Inr ls'" and "ls = l # ls'"
        by (auto simp: levels_step levels_error split: sum.splits elim: levels_InrE)
      moreover have "length r < length t" using nextTopicLevel_shorter [OF n] False by simp
      ultimately show ?thesis using "1.IH" by fastforce
    qed (use "1.prems" in simp)
  qed
  then show ?thesis using nextTopicLevel_shorter assms by blast
qed

theorem topic_walk_ends_witness:
  "nextTopicLevel ''a/b/c'' = Inr (''a'', ''b/c'') \<and> length ''b/c'' < length ''a/b/c''"
proof -
  have "nextTopicLevel ''a/b/c'' = Inr (''a'', ''b/c'')" by code_simp
  then show ?thesis using topic_walk_ends [of "''a/b/c''"] by blast
qed

end
