(* ===== verification/Sub_Trie.thy ===== *)
theory Sub_Trie
  imports Topic_Levels
begin

text \<open>
  The subscription tree of \<open>topics/memtopics.go\<close>: the nodes \<open>snode\<close> with
  \<open>sinsert\<close>, \<open>sremove\<close>, \<open>smatch\<close> and \<open>matchQos\<close>, and the comparison
  \<open>equal\<close> of subscribers.  The abstract view of a tree is the partial function
  \<open>slookup\<close>, the QoS granted to a subscriber under a filter; the lemmas show what every
  operation does to it, and that matching lists a subscriber once per matching filter.
\<close>

section \<open>Subscribers: values of type interface{}\<close>

text \<open>
  The dynamic values a subscriber may have as far as \<open>equal\<close> tells them apart: nil, a pointer
  to a subscription, a function, a string, the integer types and the two floating-point types,
  whose values are given by their IEEE 754 bit patterns.
\<close>

datatype iface =
    INil | ISub addr | IFunc addr | IString string
  | IInt64 "64 word" | IInt32 "32 word" | IInt16 "16 word" | IInt8 "8 word" | IInt "64 word"
  | IUint "64 word" | IUint8 "8 word" | IUint16 "16 word" | IUint32 "32 word" | IUint64 "64 word"
  | IUintptr "64 word" | IFloat32 "32 word" | IFloat64 "64 word"

datatype dyn_type =
    TNil | TSub | TFunc | TString | TInt64 | TInt32 | TInt16 | TInt8 | TInt
  | TUint | TUint8 | TUint16 | TUint32 | TUint64 | TUintptr | TFloat32 | TFloat64

primrec TypeOf :: "iface \<Rightarrow> dyn_type" where
  "TypeOf INil = TNil"
| "TypeOf (ISub a) = TSub"
| "TypeOf (IFunc a) = TFunc"
| "TypeOf (IString s) = TString"
| "TypeOf (IInt64 w) = TInt64"
| "TypeOf (IInt32 w) = TInt32"
| "TypeOf (IInt16 w) = TInt16"
| "TypeOf (IInt8 w) = TInt8"
| "TypeOf (IInt w) = TInt"
| "TypeOf (IUint w) = TUint"
| "TypeOf (IUint8 w) = TUint8"
| "TypeOf (IUint16 w) = TUint16"
| "TypeOf (IUint32 w) = TUint32"
| "TypeOf (IUint64 w) = TUint64"
| "TypeOf (IUintptr w) = TUintptr"
| "TypeOf (IFloat32 w) = TFloat32"
| "TypeOf (IFloat64 w) = TFloat64"

text \<open>
  Equality of floating-point numbers: a NaN (exponent all ones, fraction not zero) equals nothing,
  the two zeros are equal, and every other number equals itself only.
\<close>

definition float32_eq :: "32 word \<Rightarrow> 32 word \<Rightarrow> bool" where
  "float32_eq a b \<longleftrightarrow>
     (let m = (\<lambda>w. unat w mod 2 ^ 31) in m a \<le> 0x7F800000 \<and> m b \<le> 0x7F800000 \<and> (a = b \<or> m a = 0 \<and> m b = 0))"

definition float64_eq :: "64 word \<Rightarrow> 64 word \<Rightarrow> bool" where
  "float64_eq a b \<longleftrightarrow>
     (let m = (\<lambda>w. unat w mod 2 ^ 63)
      in m a \<le> 0x7FF0000000000000 \<and> m b \<le> 0x7FF0000000000000 \<and> (a = b \<or> m a = 0 \<and> m b = 0))"

text \<open>The comparison \<open>k1 == k2\<close> of two interface values that are not functions.\<close>

definition iface_eq :: "iface \<Rightarrow> iface \<Rightarrow> bool" where
  "iface_eq k1 k2 =
     (case (k1, k2) of
        (IFloat32 a, IFloat32 b) \<Rightarrow> float32_eq a b
      | (IFloat64 a, IFloat64 b) \<Rightarrow> float64_eq a b
      | _ \<Rightarrow> k1 = k2)"

text \<open>
  The type switch at the end of \<open>equal\<close>: the two values have the same type there, so the
  assertion on the second one succeeds.
\<close>

primrec equal_switch :: "iface \<Rightarrow> iface \<Rightarrow> bool" where
  "equal_switch INil k2 = False"
| "equal_switch (ISub a) k2 = False"
| "equal_switch (IFunc a) k2 = False"
| "equal_switch (IString a) k2 = (k2 = IString a)"
| "equal_switch (IInt64 a) k2 = (k2 = IInt64 a)"
| "equal_switch (IInt32 a) k2 = (k2 = IInt32 a)"
| "equal_switch (IInt16 a) k2 = (k2 = IInt16 a)"
| "equal_switch (IInt8 a) k2 = (k2 = IInt8 a)"
| "equal_switch (IInt a) k2 = (k2 = IInt a)"
| "equal_switch (IUint a) k2 = (k2 = IUint a)"
| "equal_switch (IUint8 a) k2 = (k2 = IUint8 a)"
| "equal_switch (IUint16 a) k2 = (k2 = IUint16 a)"
| "equal_switch (IUint32 a) k2 = (k2 = IUint32 a)"
| "equal_switch (IUint64 a) k2 = (k2 = IUint64 a)"
| "equal_switch (IUintptr a) k2 = (k2 = IUintptr a)"
| "equal_switch (IFloat32 a) k2 = (case k2 of IFloat32 b \<Rightarrow> float32_eq a b | _ \<Rightarrow> False)"
| "equal_switch (IFloat64 a) k2 = (case k2 of IFloat64 b \<Rightarrow> float64_eq a b | _ \<Rightarrow> False)"

text \<open>
  For functions the code compares the addresses of its own two parameters, which are never equal.
\<close>

definition equal_any :: "iface \<Rightarrow> iface \<Rightarrow> bool" where
  "equal_any k1 k2 =
     (if TypeOf k1 \<noteq> TypeOf k2 then False
      else if TypeOf k1 = TFunc then False
      else if iface_eq k1 k2 then True
      else equal_switch k1 k2)"

section \<open>Nodes and operations\<close>

datatype snode =
  SNode (subs: "iface list") (qos: "u8 list") (snodes: "(string, snode) gomap")

definition newSNode :: snode where
  "newSNode = SNode [] [] []"

text \<open>The loop over the subscribers of the final node in \<open>sinsert\<close>.\<close>

definition set_subscriber :: "snode \<Rightarrow> u8 \<Rightarrow> iface \<Rightarrow> snode" where
  "set_subscriber this q sub =
     (case first_index (\<lambda>s. equal_any s sub) (subs this) of
        Some i \<Rightarrow> SNode (subs this) ((qos this)[i := q]) (snodes this)
      | None \<Rightarrow> SNode (subs this @ [sub]) (qos this @ [q]) (snodes this))"

text \<open>
  \<open>sinsert\<close> changes the tree even when it fails: the nodes created on the way to the malformed
  level stay.
\<close>

function sinsert :: "snode \<Rightarrow> string \<Rightarrow> u8 \<Rightarrow> iface \<Rightarrow> snode \<times> topic_error option" where
  "sinsert this topic q sub =
     (if topic = [] then (set_subscriber this q sub, None)
      else case nextTopicLevel topic of
             Inl err \<Rightarrow> (this, Some err)
           | Inr (level, rem) \<Rightarrow>
               (let n = (case gm_get (snodes this) level of None \<Rightarrow> newSNode | Some n \<Rightarrow> n);
                    (n', err) = sinsert n rem q sub
                in (SNode (subs this) (qos this) (gm_put level n' (snodes this)), err)))"
  by pat_completeness auto
termination
  by (relation "measure (\<lambda>(_, topic, _, _). length topic)") (auto dest: nextTopicLevel_shorter)

definition remove_subscriber :: "snode \<Rightarrow> iface \<Rightarrow> topic_error + snode" where
  "remove_subscriber this sub =
     (if sub = INil then Inr (SNode [] [] (snodes this))
      else case first_index (\<lambda>s. equal_any s sub) (subs this) of
             Some i \<Rightarrow> Inr (SNode (take i (subs this) @ drop (i + 1) (subs this))
                               (take i (qos this) @ drop (i + 1) (qos this)) (snodes this))
           | None \<Rightarrow> Inl NoTopicForSubscriber)"

function sremove :: "snode \<Rightarrow> string \<Rightarrow> iface \<Rightarrow> topic_error + snode" where
  "sremove this topic sub =
     (if topic = [] then remove_subscriber this sub
      else case nextTopicLevel topic of
             Inl err \<Rightarrow> Inl err
           | Inr (level, rem) \<Rightarrow>
               (case gm_get (snodes this) level of
                  None \<Rightarrow> Inl NoTopicFound
                | Some n \<Rightarrow>
                    (case sremove n rem sub of
                       Inl err \<Rightarrow> Inl err
                     | Inr n' \<Rightarrow>
                         Inr (SNode (subs this) (qos this)
                               (if subs n' = [] \<and> snodes n' = [] then gm_del level (snodes this)
                                else gm_put level n' (snodes this))))))"
  by pat_completeness auto
termination
  by (relation "measure (\<lambda>(_, topic, _). length topic)") (auto dest: nextTopicLevel_shorter)

type_synonym matched = "iface list \<times> u8 list"

definition matchQos :: "snode \<Rightarrow> u8 \<Rightarrow> matched \<Rightarrow> matched" where
  "matchQos this q acc = (fst acc @ subs this, snd acc @ map (\<lambda>_. q) (subs this))"

text \<open>
  \<open>smatch\<close> appends to the caller's slices; \<open>smatch_range\<close> is its loop over the children,
  which stops at the first error.
\<close>

function (sequential) smatch ::
    "snode \<Rightarrow> string \<Rightarrow> u8 \<Rightarrow> matched \<Rightarrow> matched \<times> topic_error option"
  and smatch_range ::
    "(string, snode) gomap \<Rightarrow> string \<Rightarrow> string \<Rightarrow> u8 \<Rightarrow> matched \<Rightarrow> matched \<times> topic_error option"
where
  "smatch this topic q acc =
     (if topic = [] then
        (let acc' = matchQos this q acc
         in (case gm_get (snodes this) MWC of
               Some mwcn \<Rightarrow> (matchQos mwcn q acc', None)
             | None \<Rightarrow> (acc', None)))
      else case nextTopicLevel topic of
             Inl err \<Rightarrow> (acc, Some err)
           | Inr (level, rem) \<Rightarrow> smatch_range (snodes this) level rem q acc)"
| "smatch_range [] level rem q acc = (acc, None)"
| "smatch_range ((k, n) # kns) level rem q acc =
     (if k = MWC then smatch_range kns level rem q (matchQos n q acc)
      else if k = SWC \<or> k = level then
        (case smatch n rem q acc of
           (acc', Some err) \<Rightarrow> (acc', Some err)
         | (acc', None) \<Rightarrow> smatch_range kns level rem q acc')
      else smatch_range kns level rem q acc)"
  by pat_completeness auto
termination
  by (relation "measures
        [\<lambda>x. case x of Inl (_, topic, _, _) \<Rightarrow> length topic | Inr (_, _, rem, _, _) \<Rightarrow> length rem,
         \<lambda>x. case x of Inl _ \<Rightarrow> 0 | Inr (kns, _, _, _, _) \<Rightarrow> Suc (length kns)]")
     (auto dest: nextTopicLevel_shorter)

declare sinsert.simps [simp del] sremove.simps [simp del] smatch.simps [simp del]

section \<open>The comparison of subscribers\<close>

text \<open>
  For everything but functions and floating-point numbers \<open>equal\<close> is equality; a function
  equals nothing.
\<close>

definition comparable :: "iface \<Rightarrow> bool" where
  "comparable s \<longleftrightarrow> TypeOf s \<notin> {TFunc, TFloat32, TFloat64} \<and> s \<noteq> INil"

lemma comparable_simps [simp]: "comparable (ISub a)" "\<not> comparable INil" "\<not> comparable (IFunc a)"
  by (simp_all add: comparable_def)

lemma equal_any_comparable [simp]:
  assumes "comparable s"
  shows "equal_any k s \<longleftrightarrow> k = s"
proof (cases "TypeOf k = TypeOf s")
  case True
  with assms show ?thesis by (cases s; cases k) (auto simp: equal_any_def iface_eq_def comparable_def)
qed (auto simp: equal_any_def)

section \<open>Well-formed trees and the abstract view\<close>

fun swf :: "snode \<Rightarrow> bool" where
  "swf (SNode ss qs kids) \<longleftrightarrow>
     length ss = length qs \<and> distinct ss \<and> list_all comparable ss \<and> gm_ok kids \<and>
     (\<forall>(k, n) \<in> set kids. swf n)"

text \<open>The QoS granted to a subscriber under a filter.\<close>

fun slookup :: "snode \<Rightarrow> string list \<Rightarrow> iface \<Rightarrow> u8 option" where
  "slookup (SNode ss qs kids) [] s = map_of (zip ss qs) s"
| "slookup (SNode ss qs kids) (k # ks) s =
     (case gm_get kids k of None \<Rightarrow> None | Some n \<Rightarrow> slookup n ks s)"

text \<open>All entries of a tree: filter, subscriber and QoS.\<close>

fun entries :: "snode \<Rightarrow> ((string list \<times> iface) \<times> u8) list" where
  "entries (SNode ss qs kids) =
     map (\<lambda>(s, q). (([], s), q)) (zip ss qs) @
     concat (map (\<lambda>(k, n). map (\<lambda>((p, s), q). ((k # p, s), q)) (entries n)) kids)"

lemma snode_induct [case_names SNode]:
  assumes "\<And>ss qs kids. (\<And>k n. (k, n) \<in> set kids \<Longrightarrow> P n) \<Longrightarrow> P (SNode ss qs kids)"
  shows "P t"
proof (induction t)
  case (SNode ss qs kids)
  show ?case by (rule assms) (rule SNode, auto)
qed

lemma swf_new [simp]: "swf newSNode"
  by (simp add: newSNode_def)

lemma slookup_new [simp]: "slookup newSNode p s = None"
  by (cases p) (simp_all add: newSNode_def)

lemma swf_parts:
  assumes "swf t"
  shows "length (subs t) = length (qos t)" and "distinct (subs t)"
    and "list_all comparable (subs t)" and "gm_ok (snodes t)"
    and "(k, n) \<in> set (snodes t) \<Longrightarrow> swf n"
  using assms by (cases t; auto)+

lemma swf_get: "swf t \<Longrightarrow> gm_get (snodes t) k = Some n \<Longrightarrow> swf n"
  using swf_parts(5) gm_getD by metis

lemma slookup_Nil: "slookup t [] s = map_of (zip (subs t) (qos t)) s"
  by (cases t) simp

lemma slookup_Cons:
  "slookup t (k # ks) s = (case gm_get (snodes t) k of None \<Rightarrow> None | Some n \<Rightarrow> slookup n ks s)"
  by (cases t) simp

lemma swf_put:
  assumes "swf t" and "swf n"
  shows "swf (SNode (subs t) (qos t) (gm_put k n (snodes t)))"
proof -
  have "\<forall>(k, n) \<in> set (snodes t). swf n" using swf_parts(5) [OF assms(1)] by auto
  from gm_put_all [of swf, OF assms(2) this] swf_parts(1-4) [OF assms(1)]
  show ?thesis by simp
qed

lemma swf_del:
  assumes "swf t"
  shows "swf (SNode (subs t) (qos t) (gm_del k (snodes t)))"
proof -
  have "\<forall>(k, n) \<in> set (snodes t). swf n" using swf_parts(5) [OF assms] by auto
  from gm_del_all [of _ swf, OF this] swf_parts(1-4) [OF assms]
  show ?thesis by simp
qed

section \<open>The subscriber slices of one node\<close>

lemma map_of_zip_append:
  "length ss = length qs \<Longrightarrow> s \<notin> set ss \<Longrightarrow>
   map_of (zip (ss @ [s]) (qs @ [q])) x = (if x = s then Some q else map_of (zip ss qs) x)"
  by (induction ss qs rule: list_induct2) auto

lemma map_of_zip_update:
  "\<lbrakk> length ss = length qs; distinct ss; i < length ss \<rbrakk> \<Longrightarrow>
   map_of (zip ss (qs[i := q])) x = (if x = ss ! i then Some q else map_of (zip ss qs) x)"
proof (induction ss qs arbitrary: i rule: list_induct2)
  case (Cons s ss q' qs)
  show ?case
  proof (cases i)
    case (Suc j)
    with Cons.prems have j: "j < length ss" "ss ! j \<noteq> s" by auto
    with Cons.IH [of j] Cons.prems Suc show ?thesis by (cases "x = ss ! j") simp_all
  qed simp
qed simp

lemma map_of_zip_remove:
  "\<lbrakk> length ss = length qs; distinct ss; i < length ss \<rbrakk> \<Longrightarrow>
   map_of (zip (take i ss @ drop (Suc i) ss) (take i qs @ drop (Suc i) qs)) x =
   (if x = ss ! i then None else map_of (zip ss qs) x)"
proof (induction ss qs arbitrary: i rule: list_induct2)
  case (Cons s ss q' qs)
  show ?case
  proof (cases i)
    case 0
    with Cons.prems Cons.hyps show ?thesis by auto
  next
    case (Suc j)
    with Cons.prems have j: "j < length ss" "ss ! j \<noteq> s" by auto
    with Cons.IH [of j] Cons.prems Suc show ?thesis
      by (cases "x = ss ! j") (simp_all del: zip_append map_of_append)
  qed
qed simp

lemma swf_set_subscriber:
  assumes "swf t" and "comparable s"
  shows "swf (set_subscriber t q s)"
proof (cases "first_index (\<lambda>x. equal_any x s) (subs t)")
  case None
  then have "s \<notin> set (subs t)" using assms(2) by (auto simp: first_index_None)
  with None assms swf_parts [OF assms(1)] show ?thesis by (auto simp: set_subscriber_def)
next
  case (Some i)
  with assms(1) show ?thesis by (cases t) (simp add: set_subscriber_def)
qed

lemma slookup_set_subscriber:
  assumes "swf t" and "comparable s"
  shows "slookup (set_subscriber t q s) p x =
    (if p = [] \<and> x = s then Some q else slookup t p x)"
proof (cases "first_index (\<lambda>x. equal_any x s) (subs t)")
  case None
  then have "s \<notin> set (subs t)" using assms(2) by (auto simp: first_index_None)
  with None swf_parts(1) [OF assms(1)] show ?thesis
    by (cases p) (simp_all add: set_subscriber_def slookup_Nil slookup_Cons map_of_zip_append
        del: zip_append)
next
  case (Some i)
  with assms(2) have "i < length (subs t)" and "subs t ! i = s"
    using first_index_Some by fastforce+
  with Some swf_parts(1,2) [OF assms(1)] show ?thesis
    by (cases p) (auto simp: set_subscriber_def slookup_Nil slookup_Cons map_of_zip_update)
qed

lemma snodes_set_subscriber [simp]: "snodes (set_subscriber t q s) = snodes t"
  by (simp add: set_subscriber_def split: option.splits)

text \<open>Removal of one subscriber, and of all of them when the subscriber is nil.\<close>

lemma remove_subscriber_nil: "remove_subscriber t INil = Inr (SNode [] [] (snodes t))"
  by (simp add: remove_subscriber_def)

lemma remove_subscriber_absent:
  "comparable s \<Longrightarrow> s \<notin> set (subs t) \<Longrightarrow> remove_subscriber t s = Inl NoTopicForSubscriber"
  by (auto simp: remove_subscriber_def first_index_None
      split: option.splits dest!: first_index_Some)

lemma remove_subscriber_present:
  assumes "swf t" and "comparable s" and "s \<in> set (subs t)"
  obtains t' where "remove_subscriber t s = Inr t'" and "swf t'" and "snodes t' = snodes t"
    and "\<And>p x. slookup t' p x = (if p = [] \<and> x = s then None else slookup t p x)"
proof -
  from assms(2,3) have "first_index (\<lambda>x. equal_any x s) (subs t) \<noteq> None"
    by (auto simp: first_index_None)
  then obtain i where i: "first_index (\<lambda>x. equal_any x s) (subs t) = Some i" by auto
  with assms(2) have lt: "i < length (subs t)" and nth: "subs t ! i = s"
    using first_index_Some by fastforce+
  let ?t = "SNode (take i (subs t) @ drop (Suc i) (subs t))
                  (take i (qos t) @ drop (Suc i) (qos t)) (snodes t)"
  note wf = swf_parts [OF assms(1)]
  show ?thesis
  proof
    show "remove_subscriber t s = Inr ?t" using i assms(2)
      by (auto simp: remove_subscriber_def)
    show "swf ?t"
      using wf(1,3,4,5) distinct_take_drop_Suc [OF wf(2)]
      by (auto simp: list_all_iff dest: in_set_takeD in_set_dropD)
    show "snodes ?t = snodes t" by simp
    show "slookup ?t p x = (if p = [] \<and> x = s then None else slookup t p x)" for p x
      using map_of_zip_remove [OF wf(1,2) lt] nth
      by (cases p) (auto simp: slookup_Nil slookup_Cons)
  qed
qed

section \<open>sinsert\<close>

text \<open>
  An insertion walks the whole topic: it fails exactly when the topic is malformed.  In either
  case the tree stays well formed; a failure leaves every granted QoS as it was.
\<close>

lemma sinsert_Nil [trie_simps]: "sinsert t [] q s = (set_subscriber t q s, None)"
  by (simp add: sinsert.simps)

lemma sinsert_error [trie_simps]:
  "topic \<noteq> [] \<Longrightarrow> nextTopicLevel topic = Inl e \<Longrightarrow> sinsert t topic q s = (t, Some e)"
  by (simp add: sinsert.simps)

lemma sinsert_step [trie_simps]:
  "topic \<noteq> [] \<Longrightarrow> nextTopicLevel topic = Inr (l, r) \<Longrightarrow>
   sinsert t topic q s =
     (let ne = sinsert (case gm_get (snodes t) l of None \<Rightarrow> newSNode | Some n \<Rightarrow> n) r q s
      in (SNode (subs t) (qos t) (gm_put l (fst ne) (snodes t)), snd ne))"
  by (simp add: sinsert.simps [of t topic] Let_def split_beta)

lemma snd_sinsert:
  "snd (sinsert t topic q s) = (case levels topic of Inl e \<Rightarrow> Some e | Inr _ \<Rightarrow> None)"
proof (induction t topic q s rule: sinsert.induct)
  case (1 t topic q s)
  show ?case
  proof (cases "topic = []")
    case False
    then show ?thesis
    proof (cases "nextTopicLevel topic")
      case (Inr p)
      with "1" [OF False] False show ?thesis
        by (cases p) (simp add: sinsert_step levels_step Let_def split: sum.splits)
    qed (simp add: sinsert_error levels_error)
  qed (simp add: sinsert_Nil)
qed

lemma swf_sinsert:
  "swf t \<Longrightarrow> comparable s \<Longrightarrow> swf (fst (sinsert t topic q s))"
proof (induction t topic q s rule: sinsert.induct)
  case (1 t topic q s)
  show ?case
  proof (cases "topic = []")
    case True
    with "1.prems" show ?thesis by (simp add: sinsert_Nil swf_set_subscriber)
  next
    case False
    show ?thesis
    proof (cases "nextTopicLevel topic")
      case (Inl e)
      with False "1.prems" show ?thesis by (simp add: sinsert_error)
    next
      case (Inr p)
      then obtain l r where lr: "nextTopicLevel topic = Inr (l, r)" by (cases p) simp
      let ?n = "case gm_get (snodes t) l of None \<Rightarrow> newSNode | Some n \<Rightarrow> n"
      have "swf ?n" using "1.prems"(1) swf_get by (auto split: option.splits)
      with "1.IH" [OF False lr] "1.prems" have "swf (fst (sinsert ?n r q s))" by simp
      with swf_put [OF "1.prems"(1)] show ?thesis
        by (simp add: sinsert_step [OF False lr] Let_def)
    qed
  qed
qed

lemma slookup_sinsert:
  "swf t \<Longrightarrow> comparable s \<Longrightarrow>
   slookup (fst (sinsert t topic q s)) p x =
     (if levels topic = Inr p \<and> x = s then Some q else slookup t p x)"
proof (induction t topic q s arbitrary: p rule: sinsert.induct)
  case (1 t topic q s)
  show ?case
  proof (cases "topic = []")
    case True
    with "1.prems" show ?thesis by (auto simp: sinsert_Nil slookup_set_subscriber)
  next
    case False
    show ?thesis
    proof (cases "nextTopicLevel topic")
      case (Inl e)
      with False show ?thesis by (simp add: sinsert_error levels_error)
    next
      case (Inr lr)
      then obtain l r where lr: "nextTopicLevel topic = Inr (l, r)" by (cases lr) simp
      let ?n = "case gm_get (snodes t) l of None \<Rightarrow> newSNode | Some n \<Rightarrow> n"
      have "swf ?n" using "1.prems"(1) swf_get by (auto split: option.splits)
      with "1.IH" [OF False lr] "1.prems" have
        IH: "slookup (fst (sinsert ?n r q s)) p x =
          (if levels r = Inr p \<and> x = s then Some q else slookup ?n p x)" for p by simp
      show ?thesis
      proof (cases p)
        case Nil
        then show ?thesis
          by (auto simp: sinsert_step [OF False lr] levels_step [OF False lr] Let_def slookup_Nil
              split: sum.splits)
      next
        case (Cons k ks)
        then show ?thesis
          using IH [of ks] slookup_new [of ks x]
          by (auto simp: sinsert_step [OF False lr] levels_step [OF False lr] Let_def slookup_Cons
              split: sum.splits option.splits)
      qed
    qed
  qed
qed

section \<open>sremove\<close>

lemma sremove_Nil [trie_simps]: "sremove t [] s = remove_subscriber t s"
  by (simp add: sremove.simps)

lemma sremove_error [trie_simps]:
  "topic \<noteq> [] \<Longrightarrow> nextTopicLevel topic = Inl e \<Longrightarrow> sremove t topic s = Inl e"
  by (simp add: sremove.simps)

lemma sremove_step [trie_simps]:
  "topic \<noteq> [] \<Longrightarrow> nextTopicLevel topic = Inr (l, r) \<Longrightarrow>
   sremove t topic s =
     (case gm_get (snodes t) l of
        None \<Rightarrow> Inl NoTopicFound
      | Some n \<Rightarrow>
          (case sremove n r s of
             Inl e \<Rightarrow> Inl e
           | Inr n' \<Rightarrow> Inr (SNode (subs t) (qos t)
               (if subs n' = [] \<and> snodes n' = [] then gm_del l (snodes t)
                else gm_put l n' (snodes t)))))"
  by (simp add: sremove.simps [of t topic])

lemma slookup_empty: "subs n = [] \<Longrightarrow> snodes n = [] \<Longrightarrow> slookup n p x = None"
  by (cases p) (simp_all add: slookup_Nil slookup_Cons)

text \<open>Replacing a child, with the pruning of a child that became empty.\<close>

lemma swf_replace:
  assumes "swf t" and "swf n'"
  shows "swf (SNode (subs t) (qos t)
    (if subs n' = [] \<and> snodes n' = [] then gm_del l (snodes t) else gm_put l n' (snodes t)))"
  using swf_put [OF assms] swf_del [OF assms(1)] by simp

lemma slookup_replace:
  "slookup (SNode (subs t) (qos t)
      (if subs n' = [] \<and> snodes n' = [] then gm_del l (snodes t) else gm_put l n' (snodes t))) p x =
   (case p of [] \<Rightarrow> slookup t [] x
    | k # ks \<Rightarrow> if k = l then slookup n' ks x else slookup t p x)"
  by (cases p) (auto simp: slookup_Nil slookup_Cons slookup_empty split: option.splits)

lemma slookup_Nil_present: "swf t \<Longrightarrow> slookup t [] s \<noteq> None \<longleftrightarrow> s \<in> set (subs t)"
  by (simp add: slookup_Nil swf_parts(1))

lemma sremove_present:
  "\<lbrakk> swf t; comparable s; levels topic = Inr ls; slookup t ls s \<noteq> None \<rbrakk> \<Longrightarrow>
   \<exists>t'. sremove t topic s = Inr t' \<and> swf t' \<and>
     (\<forall>p x. slookup t' p x = (if p = ls \<and> x = s then None else slookup t p x))"
proof (induction t topic s arbitrary: ls rule: sremove.induct)
  case (1 t topic s)
  from "1.prems"(3) show ?case
  proof (cases rule: levels_InrE)
    case nil
    with "1.prems" have "s \<in> set (subs t)" using slookup_Nil_present [of t s] by simp
    from remove_subscriber_present [OF "1.prems"(1,2) this] nil show ?thesis
      by (metis sremove_Nil)
  next
    case (cons l r ls')
    from "1.prems"(4) obtain n where n: "gm_get (snodes t) l = Some n" and "slookup n ls' s \<noteq> None"
      by (auto simp: cons slookup_Cons split: option.splits)
    with "1.IH" [OF cons(1,2) refl n] "1.prems" cons swf_get obtain n' where
      n': "sremove n r s = Inr n'" "swf n'"
        "\<And>p x. slookup n' p x = (if p = ls' \<and> x = s then None else slookup n p x)"
      by blast
    show ?thesis
      unfolding sremove_step [OF cons(1,2)]
      using n n'(1,3) swf_replace [OF "1.prems"(1) n'(2)] cons
      by (auto simp: slookup_replace slookup_Cons split: list.splits)
  qed
qed

lemma sremove_Inr_iff:
  assumes "swf t" and "comparable s"
  shows "(\<exists>t'. sremove t topic s = Inr t') \<longleftrightarrow>
    (\<exists>ls. levels topic = Inr ls \<and> slookup t ls s \<noteq> None)"
proof
  assume "\<exists>t'. sremove t topic s = Inr t'"
  then obtain t' where "sremove t topic s = Inr t'" by blast
  with assms show "\<exists>ls. levels topic = Inr ls \<and> slookup t ls s \<noteq> None"
  proof (induction t topic s arbitrary: t' rule: sremove.induct)
    case (1 t topic s)
    show ?case
    proof (cases "topic = []")
      case True
      with "1.prems" have "s \<in> set (subs t)"
        using remove_subscriber_absent [of s t] by (auto simp: sremove_Nil)
      with True "1.prems" show ?thesis using slookup_Nil_present [of t s] by simp
    next
      case False
      with "1.prems" obtain l r where lr: "nextTopicLevel topic = Inr (l, r)"
        by (cases "nextTopicLevel topic") (auto simp: sremove_error)
      with False "1.prems" obtain n n' where n: "gm_get (snodes t) l = Some n"
        and n': "sremove n r s = Inr n'"
        by (auto simp: sremove_step split: option.splits sum.splits)
      with "1.IH" [OF False lr refl n] "1.prems" swf_get obtain ls
        where "levels r = Inr ls" and "slookup n ls s \<noteq> None" by blast
      with n lr False show ?thesis by (simp add: levels_step slookup_Cons)
    qed
  qed
next
  assume "\<exists>ls. levels topic = Inr ls \<and> slookup t ls s \<noteq> None"
  then show "\<exists>t'. sremove t topic s = Inr t'"
    using sremove_present [OF assms] by blast
qed

text \<open>A nil subscriber removes every subscriber of the filter and no other entry.\<close>

lemma sremove_nil:
  "\<lbrakk> swf t; levels topic = Inr ls; sremove t topic INil = Inr t' \<rbrakk> \<Longrightarrow>
   swf t' \<and> (\<forall>p x. slookup t' p x = (if p = ls then None else slookup t p x))"
proof (induction t topic "INil" arbitrary: ls t' rule: sremove.induct)
  case (1 t topic)
  from "1.prems"(2) show ?case
  proof (cases rule: levels_InrE)
    case nil
    with "1.prems" have "t' = SNode [] [] (snodes t)"
      by (simp add: sremove_Nil remove_subscriber_nil)
    with nil swf_parts [OF "1.prems"(1)] show ?thesis
      by (auto simp: slookup_Nil slookup_Cons neq_Nil_conv split: list.splits)
  next
    case (cons l r ls')
    with "1.prems" obtain n n' where n: "gm_get (snodes t) l = Some n"
      and n': "sremove n r INil = Inr n'"
      and t': "t' = SNode (subs t) (qos t)
        (if subs n' = [] \<and> snodes n' = [] then gm_del l (snodes t) else gm_put l n' (snodes t))"
      by (auto simp: sremove_step split: option.splits sum.splits)
    with "1.hyps" [OF cons(1,2) refl n] "1.prems" cons swf_get have
      IH: "swf n'" "\<And>p x. slookup n' p x = (if p = ls' then None else slookup n p x)" by blast+
    show ?thesis
      using swf_replace [OF "1.prems"(1) IH(1)] IH(2) n cons
      unfolding t' by (auto simp: slookup_replace slookup_Cons split: list.splits)
  qed
qed

section \<open>smatch\<close>

text \<open>
  The subscribers of the entries whose filter matches a topic name, as a multiset: a subscriber
  counts once per matching filter it is subscribed under.
\<close>

definition matched_subs :: "snode \<Rightarrow> string list \<Rightarrow> iface multiset" where
  "matched_subs t ls = mset (map (snd \<circ> fst) (filter (\<lambda>e. matches (fst (fst e)) ls) (entries t)))"

definition kid_matched :: "string list \<Rightarrow> string \<Rightarrow> snode \<Rightarrow> iface multiset" where
  "kid_matched ls k n =
     mset (map (snd \<circ> fst) (filter (\<lambda>e. matches (k # fst (fst e)) ls) (entries n)))"

lemma entries_conv:
  "entries t = map (\<lambda>(s, q). (([], s), q)) (zip (subs t) (qos t)) @
     concat (map (\<lambda>(k, n). map (\<lambda>((p, s), q). ((k # p, s), q)) (entries n)) (snodes t))"
  by (cases t) simp

lemma own_entries:
  "length ss = length qs \<Longrightarrow>
   mset (map (snd \<circ> fst) (filter (\<lambda>e. P (fst (fst e))) (map (\<lambda>(s, q). (([], s), q)) (zip ss qs)))) =
   (if P [] then mset ss else {#})"
  by (induction ss qs rule: list_induct2) auto

lemma kid_entries:
  "map (snd \<circ> fst) (filter (\<lambda>e. P (fst (fst e)))
      (concat (map (\<lambda>(k, n). map (\<lambda>((p, s), q). ((k # p, s), q)) (entries n)) kids))) =
   concat (map (\<lambda>(k, n). map (snd \<circ> fst) (filter (\<lambda>e. P (k # fst (fst e))) (entries n))) kids)"
  by (induction kids) (auto simp: filter_map comp_def split_beta)

lemma matched_subs_conv:
  assumes "swf t"
  shows "matched_subs t ls =
    (if ls = [] then mset (subs t) else {#}) + (\<Sum>(k, n) \<leftarrow> snodes t. kid_matched ls k n)"
proof -
  have "mset (concat (map (\<lambda>(k, n). map (snd \<circ> fst) (filter (\<lambda>e. matches (k # fst (fst e)) ls)
      (entries n))) kids)) = (\<Sum>(k, n) \<leftarrow> kids. kid_matched ls k n)" for kids
    by (induction kids) (auto simp: kid_matched_def comp_def)
  then show ?thesis
    unfolding matched_subs_def entries_conv [of t] filter_append map_append mset_append
      own_entries [OF swf_parts(1) [OF assms], of "\<lambda>p. matches p ls"]
      kid_entries [of "\<lambda>p. matches p ls"]
    by simp
qed

lemma root_entries: "swf n \<Longrightarrow>
  mset (map (snd \<circ> fst) (filter (\<lambda>e. fst (fst e) = []) (entries n))) = mset (subs n)"
  unfolding entries_conv [of n] filter_append map_append mset_append
    own_entries [OF swf_parts(1), of n "\<lambda>p. p = []"] kid_entries [of "\<lambda>p. p = []"]
  by (simp add: split_beta)

lemma kid_matched_simps:
  assumes "swf n"
  shows "kid_matched [] k n = (if k = MWC then mset (subs n) else {#})"
    and "kid_matched (l # rs) k n =
      (if k = MWC then mset (subs n) else if k = SWC \<or> k = l then matched_subs n rs else {#})"
  using root_entries [OF assms] by (auto simp: kid_matched_def matched_subs_def)

lemma matched_subs_Nil:
  assumes "swf t"
  shows "matched_subs t [] =
    mset (subs t) + (case gm_get (snodes t) MWC of Some n \<Rightarrow> mset (subs n) | None \<Rightarrow> {#})"
proof -
  have eq: "map (\<lambda>(k, n). kid_matched [] k n) (snodes t) =
      map (\<lambda>(k, n). if k = MWC then mset (subs n) else {#}) (snodes t)"
    using swf_parts(5) [OF assms] by (auto simp: kid_matched_simps)
  show ?thesis
    unfolding matched_subs_conv [OF assms] eq
      sum_list_single_key [OF swf_parts(4) [OF assms], where f = "\<lambda>n. mset (subs n)"]
    by simp
qed

text \<open>The result of a match appended to the caller's slices.\<close>

definition appended :: "u8 \<Rightarrow> matched \<Rightarrow> iface multiset \<Rightarrow> matched \<Rightarrow> bool" where
  "appended q acc M acc' \<longleftrightarrow>
     (\<exists>fs. acc' = (fst acc @ fs, snd acc @ replicate (length fs) q) \<and> mset fs = M)"

lemma appended_matchQos: "appended q acc (mset (subs n)) (matchQos n q acc)"
  by (auto simp: appended_def matchQos_def map_replicate_const)

lemma appended_refl: "appended q acc {#} acc"
  by (auto simp: appended_def)

lemma appended_trans:
  assumes "appended q acc M acc'" and "appended q acc' N acc''"
  shows "appended q acc (M + N) acc''"
proof -
  from assms obtain fs gs where
    "acc' = (fst acc @ fs, snd acc @ replicate (length fs) q)" "mset fs = M"
    "acc'' = (fst acc' @ gs, snd acc' @ replicate (length gs) q)" "mset gs = N"
    unfolding appended_def by blast
  then show ?thesis unfolding appended_def by (intro exI [of _ "fs @ gs"]) (simp add: replicate_add)
qed

lemma smatch_Nil [trie_simps]:
  "smatch t [] q acc =
     ((case gm_get (snodes t) MWC of Some n \<Rightarrow> matchQos n q (matchQos t q acc)
       | None \<Rightarrow> matchQos t q acc), None)"
  by (simp add: smatch.simps Let_def split: option.splits)

lemma smatch_error [trie_simps]:
  "topic \<noteq> [] \<Longrightarrow> nextTopicLevel topic = Inl e \<Longrightarrow> smatch t topic q acc = (acc, Some e)"
  by (simp add: smatch.simps)

lemma smatch_step [trie_simps]:
  "topic \<noteq> [] \<Longrightarrow> nextTopicLevel topic = Inr (l, r) \<Longrightarrow>
   smatch t topic q acc = smatch_range (snodes t) l r q acc"
  by (simp add: smatch.simps)

lemma smatch_appended:
  "\<lbrakk> swf t; levels topic = Inr ls \<rbrakk> \<Longrightarrow>
     \<exists>acc'. smatch t topic q acc = (acc', None) \<and> appended q acc (matched_subs t ls) acc'"
  "\<lbrakk> \<forall>(k, n) \<in> set kns. swf n; levels r = Inr rs \<rbrakk> \<Longrightarrow>
     \<exists>acc'. smatch_range kns l r q acc = (acc', None) \<and>
       appended q acc (\<Sum>(k, n) \<leftarrow> kns. kid_matched (l # rs) k n) acc'"
proof (induction t topic q acc and kns l r q acc arbitrary: ls and rs rule: smatch_smatch_range.induct)
  case (1 t topic q acc)
  from "1.prems"(2) show ?case
  proof (cases rule: levels_InrE)
    case nil
    then show ?thesis
      using appended_trans [OF appended_matchQos appended_matchQos]
      by (auto simp: smatch_Nil matched_subs_Nil [OF "1.prems"(1)] appended_matchQos
          split: option.splits)
  next
    case (cons l r ls')
    with "1.IH" [OF cons(1,2) refl, of ls'] swf_parts(5) [OF "1.prems"(1)] show ?thesis
      by (auto simp: smatch_step matched_subs_conv [OF "1.prems"(1)])
  qed
next
  case (2 l r q acc)
  then show ?case by (simp add: appended_refl)
next
  case (3 k n kns l r q acc)
  have n: "swf n" and kns: "\<forall>(k, n) \<in> set kns. swf n" using "3.prems"(1) by auto
  show ?case
  proof (cases "k = MWC")
    case True
    from "3.IH"(1) [OF True kns "3.prems"(2)] True show ?thesis
      using appended_trans [OF appended_matchQos [of q acc n]]
      by (auto simp: kid_matched_simps [OF n])
  next
    case mwc: False
    show ?thesis
    proof (cases "k = SWC \<or> k = l")
      case True
      from "3.IH"(2) [OF mwc True n "3.prems"(2)] obtain acc1 where
        m: "smatch n r q acc = (acc1, None)" and a: "appended q acc (matched_subs n rs) acc1"
        by blast
      from "3.IH"(3) [OF mwc True m [symmetric] refl kns "3.prems"(2)] obtain acc2 where
        "smatch_range kns l r q acc1 = (acc2, None)"
        "appended q acc1 (\<Sum>(k, n) \<leftarrow> kns. kid_matched (l # rs) k n) acc2" by blast
      with m mwc True appended_trans [OF a] show ?thesis
        by (auto simp: kid_matched_simps [OF n])
    next
      case False
      from "3.IH"(4) [OF mwc False kns "3.prems"(2)] mwc False show ?thesis
        by (auto simp: kid_matched_simps [OF n])
    qed
  qed
qed

text \<open>A match fails only on a malformed topic, with the error of that topic.\<close>

lemma smatch_fails:
  "snd (smatch t topic q acc) = Some e \<Longrightarrow> levels topic = Inl e"
  "snd (smatch_range kns l r q acc) = Some e \<Longrightarrow> levels r = Inl e"
proof (induction t topic q acc and kns l r q acc rule: smatch_smatch_range.induct)
  case (1 t topic q acc)
  show ?case
  proof (cases "topic = []")
    case True
    with "1.prems" show ?thesis by (simp add: smatch_Nil)
  next
    case False
    show ?thesis
    proof (cases "nextTopicLevel topic")
      case (Inl e')
      with False "1.prems" show ?thesis by (simp add: smatch_error levels_error)
    next
      case (Inr p)
      then obtain l r where lr: "nextTopicLevel topic = Inr (l, r)" by (cases p) simp
      with "1.IH" [OF False lr refl] "1.prems" False show ?thesis
        by (simp add: smatch_step levels_step)
    qed
  qed
next
  case (2 l r q acc)
  then show ?case by simp
next
  case (3 k n kns l r q acc)
  then show ?case by (auto split: if_splits prod.splits option.splits)
qed

text \<open>Whatever the topic, a match adds only subscribers of the tree.\<close>

lemma smatch_sound:
  "\<lbrakk> swf t; x \<in> set (fst (fst (smatch t topic q acc))) \<rbrakk> \<Longrightarrow>
   x \<in> set (fst acc) \<or> (\<exists>p. slookup t p x \<noteq> None)"
  "\<lbrakk> \<forall>e \<in> set kns. swf (snd e); x \<in> set (fst (fst (smatch_range kns l r q acc))) \<rbrakk> \<Longrightarrow>
   x \<in> set (fst acc) \<or> (\<exists>e \<in> set kns. \<exists>p. slookup (snd e) p x \<noteq> None)"
proof (induction t topic q acc and kns l r q acc rule: smatch_smatch_range.induct)
  case (1 t topic q acc)
  have own: "slookup n [] x \<noteq> None" if "x \<in> set (subs n)" "swf n" for n
    using that slookup_Nil_present by blast
  have kid: "slookup t (k # p) x \<noteq> None" if "(k, n) \<in> set (snodes t)" "slookup n p x \<noteq> None" for k n p
    using that gm_get_iff [OF swf_parts(4) [OF "1.prems"(1)], of k n] by (simp add: slookup_Cons)
  show ?case
  proof (cases "topic = []")
    case True
    with "1.prems" own own [OF _ swf_get [OF "1.prems"(1)]] kid [OF gm_getD] show ?thesis
      by (fastforce simp: smatch_Nil matchQos_def split: option.splits)
  next
    case False
    show ?thesis
    proof (cases "nextTopicLevel topic")
      case (Inl e')
      with False "1.prems" show ?thesis by (simp add: smatch_error)
    next
      case (Inr p)
      then obtain l r where lr: "nextTopicLevel topic = Inr (l, r)" by (cases p) simp
      have "\<forall>e \<in> set (snodes t). swf (snd e)" using swf_parts(5) [OF "1.prems"(1)] by auto
      with "1.IH" [OF False lr refl] "1.prems" False lr kid show ?thesis
        by (fastforce simp: smatch_step)
    qed
  qed
next
  case (2 l r q acc)
  then show ?case by simp
next
  case (3 k n kns l r q acc)
  have own: "slookup n [] x \<noteq> None" if "x \<in> set (subs n)"
    using that "3.prems"(1) slookup_Nil_present by fastforce
  consider "k = MWC" | "k \<noteq> MWC" "k = SWC \<or> k = l" | "k \<noteq> MWC" "k \<noteq> SWC" "k \<noteq> l" by blast
  then show ?case
  proof cases
    case 1
    with "3.IH"(1) "3.prems" own show ?thesis by (fastforce simp: matchQos_def)
  next
    case 2
    then show ?thesis
    proof (cases "snd (smatch n r q acc)")
      case None
      with 2 "3.IH"(2,3) "3.prems" show ?thesis
        by (cases "smatch n r q acc") fastforce
    next
      case (Some e)
      with 2 "3.IH"(2) "3.prems" show ?thesis
        by (cases "smatch n r q acc") fastforce
    qed
  next
    case 3
    with "3.IH"(4) "3.prems" show ?thesis by auto
  qed
qed

text \<open>The entries and the abstract view agree, so that matching can be stated on the view.\<close>

lemma entries_slookup:
  "swf t \<Longrightarrow> ((p, s), q) \<in> set (entries t) \<longleftrightarrow> slookup t p s = Some q"
proof (induction p arbitrary: t)
  case Nil
  have "distinct (map fst (zip (subs t) (qos t)))" using swf_parts(1,2) [OF Nil] by simp
  then have "(s, q) \<in> set (zip (subs t) (qos t)) \<longleftrightarrow> slookup t [] s = Some q"
    by (simp add: slookup_Nil)
  then show ?case by (force simp: entries_conv [of t])
next
  case (Cons k ks)
  have "((k # ks, s), q) \<in> set (entries t) \<longleftrightarrow>
      (\<exists>n. (k, n) \<in> set (snodes t) \<and> ((ks, s), q) \<in> set (entries n))"
    by (force simp: entries_conv [of t])
  also have "\<dots> \<longleftrightarrow> (\<exists>n. gm_get (snodes t) k = Some n \<and> slookup n ks s = Some q)"
    using Cons.IH swf_parts(5) [OF Cons.prems] swf_parts(4) [OF Cons.prems]
    by (metis gm_get_iff)
  also have "\<dots> \<longleftrightarrow> slookup t (k # ks) s = Some q"
    by (auto simp: slookup_Cons split: option.splits)
  finally show ?case .
qed

lemma distinct_kid_keys:
  "\<lbrakk> gm_ok kids; \<forall>(k, n) \<in> set kids. distinct (map fst (entries n)) \<rbrakk> \<Longrightarrow>
   distinct (map fst (concat (map (\<lambda>(k, n). map (\<lambda>((p, s), q). ((k # p, s), q)) (entries n)) kids)))"
proof (induction kids)
  case Nil
  then show ?case by simp
next
  case (Cons e kids)
  obtain k n where e: "e = (k, n)" by (cases e)
  have "map fst (map (\<lambda>((p, s), q). ((k # p, s), q)) (entries n)) =
      map (\<lambda>(p, s). (k # p, s)) (map fst (entries n))" by (simp add: split_beta)
  moreover have "inj (\<lambda>(p, s). (k # p, s))" by (auto simp: inj_on_def)
  moreover have "distinct (map fst (entries n))" using Cons.prems(2) e by simp
  ultimately have "distinct (map fst (map (\<lambda>((p, s), q). ((k # p, s), q)) (entries n)))"
    by (metis distinct_map inj_on_subset subset_UNIV)
  moreover have "k \<notin> fst ` set kids" using Cons.prems(1) e by simp
  ultimately show ?case using Cons e by force
qed

lemma distinct_entries: "swf t \<Longrightarrow> distinct (map fst (entries t))"
proof (induction t rule: snode_induct)
  case (SNode ss qs kids)
  let ?own = "map (\<lambda>(s, q). (([] :: string list, s), q)) (zip ss qs)"
  have "length ss = length qs" using SNode.prems by simp
  then have "map fst ?own = map (Pair []) ss" by (induction ss qs rule: list_induct2) auto
  then have "distinct (map fst ?own)" using SNode.prems by (simp add: distinct_map inj_on_def)
  moreover have "\<forall>(k, n) \<in> set kids. distinct (map fst (entries n))" using SNode by auto
  then have "distinct (map fst (concat
      (map (\<lambda>(k, n). map (\<lambda>((p, s), q). ((k # p, s), q)) (entries n)) kids)))"
    using SNode.prems by (intro distinct_kid_keys) auto
  ultimately show ?case by force
qed

lemma count_matched_subs:
  assumes "swf t"
  shows "count (matched_subs t ls) s = card {p. matches p ls \<and> slookup t p s \<noteq> None}"
proof -
  let ?es = "filter (\<lambda>e. snd (fst e) = s) (filter (\<lambda>e. matches (fst (fst e)) ls) (entries t))"
  have "count (mset (map (snd \<circ> fst) xs)) s = length (filter (\<lambda>e. snd (fst e) = s) xs)"
    for xs :: "((string list \<times> iface) \<times> u8) list" by (induction xs) auto
  then have "count (matched_subs t ls) s = length ?es" unfolding matched_subs_def .
  also have "\<dots> = card (set (map (fst \<circ> fst) ?es))"
  proof -
    have "distinct (map fst ?es)"
      using distinct_entries [OF assms] by (simp add: distinct_map_filter)
    then have "distinct (map fst (map fst ?es))"
      by (subst distinct_map) (auto simp: inj_on_def)
    then have "distinct (map (fst \<circ> fst) ?es)" by (simp add: comp_def)
    from distinct_card [OF this] show ?thesis by simp
  qed
  also have "set (map (fst \<circ> fst) ?es) = {p. matches p ls \<and> slookup t p s \<noteq> None}"
    using entries_slookup [OF assms] by (force simp: image_iff)
  finally show ?thesis .
qed

lemma finite_matching: "swf t \<Longrightarrow> finite {p. matches p ls \<and> slookup t p s \<noteq> None}"
proof (rule finite_subset)
  assume "swf t"
  then show "{p. matches p ls \<and> slookup t p s \<noteq> None} \<subseteq> (fst \<circ> fst) ` set (entries t)"
    using entries_slookup by (force simp: image_iff)
qed simp

lemma in_matched_subs:
  assumes "swf t"
  shows "s \<in># matched_subs t ls \<longleftrightarrow> (\<exists>p. matches p ls \<and> slookup t p s \<noteq> None)"
proof -
  have "s \<in># matched_subs t ls \<longleftrightarrow> 0 < card {p. matches p ls \<and> slookup t p s \<noteq> None}"
    unfolding count_matched_subs [OF assms, symmetric] by simp
  also have "\<dots> \<longleftrightarrow> (\<exists>p. matches p ls \<and> slookup t p s \<noteq> None)"
    using finite_matching [OF assms, of ls s] by (auto simp: card_gt_0_iff)
  finally show ?thesis .
qed

end
