(* ===== verification/Retain_Trie.thy ===== *)
theory Retain_Trie
  imports Topic_Levels
begin

text \<open>
  The tree of retained messages of \<open>topics/memtopics.go\<close>: the nodes \<open>rnode\<close> with
  \<open>rinsertOrUpdate\<close>, \<open>rremove\<close>, \<open>rmatch\<close> and \<open>allRetained\<close>.  The
  abstract view is the partial function \<open>rlookup\<close> from topic levels to the retained packet.
\<close>

section \<open>Nodes and operations\<close>

datatype rnode = RNode (rmsg: "publish_packet option") (rnodes: "(string, rnode) gomap")

definition newRNode :: rnode where
  "newRNode = RNode None []"

function rinsertOrUpdate :: "rnode \<Rightarrow> string \<Rightarrow> publish_packet \<Rightarrow> rnode \<times> topic_error option" where
  "rinsertOrUpdate this topic msg =
     (if topic = [] then (RNode (Some msg) (rnodes this), None)
      else case nextTopicLevel topic of
             Inl err \<Rightarrow> (this, Some err)
           | Inr (level, rem) \<Rightarrow>
               (let n = (case gm_get (rnodes this) level of None \<Rightarrow> newRNode | Some n \<Rightarrow> n);
                    (n', err) = rinsertOrUpdate n rem msg
                in (RNode (rmsg this) (gm_put level n' (rnodes this)), err)))"
  by pat_completeness auto
termination
  by (relation "measure (\<lambda>(_, topic, _). length topic)") (auto dest: nextTopicLevel_shorter)

text \<open>A child is dropped when it has no children left, whether or not it holds a message.\<close>

function rremove :: "rnode \<Rightarrow> string \<Rightarrow> topic_error + rnode" where
  "rremove this topic =
     (if topic = [] then Inr (RNode None (rnodes this))
      else case nextTopicLevel topic of
             Inl err \<Rightarrow> Inl err
           | Inr (level, rem) \<Rightarrow>
               (case gm_get (rnodes this) level of
                  None \<Rightarrow> Inl NoTopicFound
                | Some n \<Rightarrow>
                    (case rremove n rem of
                       Inl err \<Rightarrow> Inl err
                     | Inr n' \<Rightarrow>
                         Inr (RNode (rmsg this)
                               (if rnodes n' = [] then gm_del level (rnodes this)
                                else gm_put level n' (rnodes this))))))"
  by pat_completeness auto
termination
  by (relation "measure (\<lambda>(_, topic). length topic)") (auto dest: nextTopicLevel_shorter)

definition own_msg :: "rnode \<Rightarrow> publish_packet list" where
  "own_msg this = (case rmsg this of None \<Rightarrow> [] | Some m \<Rightarrow> [m])"

fun allRetained :: "rnode \<Rightarrow> publish_packet list \<Rightarrow> publish_packet list" where
  "allRetained (RNode m kids) msgs =
     fold (\<lambda>(k, n) acc. allRetained n acc) kids (msgs @ (case m of None \<Rightarrow> [] | Some m \<Rightarrow> [m]))"

text \<open>
  \<open>rmatch_range\<close> is the loop over all children that the single-level wildcard starts.
\<close>

function (sequential) rmatch ::
    "rnode \<Rightarrow> string \<Rightarrow> publish_packet list \<Rightarrow> publish_packet list \<times> topic_error option"
  and rmatch_range ::
    "(string, rnode) gomap \<Rightarrow> string \<Rightarrow> publish_packet list \<Rightarrow>
       publish_packet list \<times> topic_error option"
where
  "rmatch this topic msgs =
     (if topic = [] then (msgs @ own_msg this, None)
      else case nextTopicLevel topic of
             Inl err \<Rightarrow> (msgs, Some err)
           | Inr (level, rem) \<Rightarrow>
               (if level = MWC then (allRetained this msgs, None)
                else if level = SWC then rmatch_range (rnodes this) rem msgs
                else case gm_get (rnodes this) level of
                       Some n \<Rightarrow> rmatch n rem msgs
                     | None \<Rightarrow> (msgs, None)))"
| "rmatch_range [] rem msgs = (msgs, None)"
| "rmatch_range ((k, n) # kns) rem msgs =
     (case rmatch n rem msgs of
        (msgs', Some err) \<Rightarrow> (msgs', Some err)
      | (msgs', None) \<Rightarrow> rmatch_range kns rem msgs')"
  by pat_completeness auto
termination
  by (relation "measures
        [\<lambda>x. case x of Inl (_, topic, _) \<Rightarrow> length topic | Inr (_, rem, _) \<Rightarrow> length rem,
         \<lambda>x. case x of Inl _ \<Rightarrow> 0 | Inr (kns, _, _) \<Rightarrow> Suc (length kns)]")
     (auto dest: nextTopicLevel_shorter)

declare rinsertOrUpdate.simps [simp del] rremove.simps [simp del] rmatch.simps [simp del]

section \<open>Well-formed trees and the abstract view\<close>

fun rwf :: "rnode \<Rightarrow> bool" where
  "rwf (RNode m kids) \<longleftrightarrow> gm_ok kids \<and> (\<forall>(k, n) \<in> set kids. rwf n)"

fun rnode_at :: "rnode \<Rightarrow> string list \<Rightarrow> rnode option" where
  "rnode_at t [] = Some t"
| "rnode_at t (k # ks) = (case gm_get (rnodes t) k of None \<Rightarrow> None | Some n \<Rightarrow> rnode_at n ks)"

definition rlookup :: "rnode \<Rightarrow> string list \<Rightarrow> publish_packet option" where
  "rlookup t p = (case rnode_at t p of None \<Rightarrow> None | Some n \<Rightarrow> rmsg n)"

fun rentries :: "rnode \<Rightarrow> (string list \<times> publish_packet) list" where
  "rentries (RNode m kids) =
     (case m of None \<Rightarrow> [] | Some m \<Rightarrow> [([], m)]) @
     concat (map (\<lambda>(k, n). map (\<lambda>(p, m). (k # p, m)) (rentries n)) kids)"

lemma rnode_induct [case_names RNode]:
  assumes "\<And>m kids. (\<And>k n. (k, n) \<in> set kids \<Longrightarrow> P n) \<Longrightarrow> P (RNode m kids)"
  shows "P t"
proof (induction t)
  case (RNode m kids)
  show ?case by (rule assms) (rule RNode, auto)
qed

lemma rwf_new [simp]: "rwf newRNode"
  by (simp add: newRNode_def)

lemma rwf_parts: "rwf t \<Longrightarrow> gm_ok (rnodes t)" "rwf t \<Longrightarrow> (k, n) \<in> set (rnodes t) \<Longrightarrow> rwf n"
  by (cases t; auto)+

lemma rwf_get: "rwf t \<Longrightarrow> gm_get (rnodes t) k = Some n \<Longrightarrow> rwf n"
  using rwf_parts(2) gm_getD by metis

lemma rlookup_Nil [simp]: "rlookup t [] = rmsg t"
  by (simp add: rlookup_def)

lemma rlookup_Cons:
  "rlookup t (k # ks) = (case gm_get (rnodes t) k of None \<Rightarrow> None | Some n \<Rightarrow> rlookup n ks)"
  by (simp add: rlookup_def split: option.splits)

lemma rlookup_new [simp]: "rlookup newRNode p = None"
  by (cases p) (simp_all add: newRNode_def rlookup_Cons)

lemma rwf_put: "rwf t \<Longrightarrow> rwf n \<Longrightarrow> rwf (RNode m (gm_put k n (rnodes t)))"
  using gm_put_all [of rwf n "rnodes t" k] rwf_parts by auto

lemma rwf_del: "rwf t \<Longrightarrow> rwf (RNode m (gm_del k (rnodes t)))"
  using gm_del_all [of "rnodes t" rwf k] rwf_parts by auto

section \<open>rinsertOrUpdate\<close>

lemma rinsert_Nil [trie_simps]:
  "rinsertOrUpdate t [] m = (RNode (Some m) (rnodes t), None)"
  by (simp add: rinsertOrUpdate.simps)

lemma rinsert_error [trie_simps]:
  "topic \<noteq> [] \<Longrightarrow> nextTopicLevel topic = Inl e \<Longrightarrow> rinsertOrUpdate t topic m = (t, Some e)"
  by (simp add: rinsertOrUpdate.simps)

lemma rinsert_step [trie_simps]:
  "topic \<noteq> [] \<Longrightarrow> nextTopicLevel topic = Inr (l, r) \<Longrightarrow>
   rinsertOrUpdate t topic m =
     (let ne = rinsertOrUpdate (case gm_get (rnodes t) l of None \<Rightarrow> newRNode | Some n \<Rightarrow> n) r m
      in (RNode (rmsg t) (gm_put l (fst ne) (rnodes t)), snd ne))"
  by (simp add: rinsertOrUpdate.simps [of t topic] Let_def split_beta)

lemma snd_rinsert:
  "snd (rinsertOrUpdate t topic m) = (case levels topic of Inl e \<Rightarrow> Some e | Inr _ \<Rightarrow> None)"
proof (induction t topic m rule: rinsertOrUpdate.induct)
  case (1 t topic m)
  show ?case
  proof (cases "topic = []")
    case False
    then show ?thesis
    proof (cases "nextTopicLevel topic")
      case (Inr p)
      with "1" [OF False] False show ?thesis
        by (cases p) (simp add: rinsert_step levels_step Let_def split: sum.splits)
    qed (simp add: rinsert_error levels_error)
  qed (simp add: rinsert_Nil)
qed

lemma rinsert_view:
  "rwf t \<Longrightarrow> rwf (fst (rinsertOrUpdate t topic m)) \<and>
     rlookup (fst (rinsertOrUpdate t topic m)) p =
       (if levels topic = Inr p then Some m else rlookup t p)"
proof (induction t topic m arbitrary: p rule: rinsertOrUpdate.induct)
  case (1 t topic m)
  show ?case
  proof (cases "topic = []")
    case True
    with "1.prems" rwf_parts show ?thesis
      by (cases p) (auto simp: rinsert_Nil rlookup_Cons)
  next
    case False
    show ?thesis
    proof (cases "nextTopicLevel topic")
      case (Inl e)
      with False "1.prems" show ?thesis by (simp add: rinsert_error levels_error)
    next
      case (Inr lr)
      then obtain l r where lr: "nextTopicLevel topic = Inr (l, r)" by (cases lr) simp
      let ?n = "case gm_get (rnodes t) l of None \<Rightarrow> newRNode | Some n \<Rightarrow> n"
      have "rwf ?n" using "1.prems" rwf_get by (auto split: option.splits)
      with "1.IH" [OF False lr] have IH: "rwf (fst (rinsertOrUpdate ?n r m))"
        "rlookup (fst (rinsertOrUpdate ?n r m)) p = (if levels r = Inr p then Some m else rlookup ?n p)"
        for p by simp_all
      show ?thesis
        using IH(2) [of "tl p"] rwf_put [OF "1.prems" IH(1)]
        by (cases p) (auto simp: rinsert_step [OF False lr] levels_step [OF False lr] Let_def
            rlookup_Cons split: sum.splits option.splits)
    qed
  qed
qed

section \<open>rremove\<close>

lemma rremove_Nil [trie_simps]: "rremove t [] = Inr (RNode None (rnodes t))"
  by (simp add: rremove.simps)

lemma rremove_error [trie_simps]:
  "topic \<noteq> [] \<Longrightarrow> nextTopicLevel topic = Inl e \<Longrightarrow> rremove t topic = Inl e"
  by (simp add: rremove.simps)

lemma rremove_step [trie_simps]:
  "topic \<noteq> [] \<Longrightarrow> nextTopicLevel topic = Inr (l, r) \<Longrightarrow>
   rremove t topic =
     (case gm_get (rnodes t) l of
        None \<Rightarrow> Inl NoTopicFound
      | Some n \<Rightarrow>
          (case rremove n r of
             Inl e \<Rightarrow> Inl e
           | Inr n' \<Rightarrow> Inr (RNode (rmsg t)
               (if rnodes n' = [] then gm_del l (rnodes t) else gm_put l n' (rnodes t)))))"
  by (simp add: rremove.simps [of t topic])

text \<open>
  \<open>cleared t ls\<close>: removing the topic with levels \<open>ls\<close> below the node \<open>t\<close> leaves
  \<open>t\<close> without children, so that the code drops \<open>t\<close> from its parent together with the
  message that \<open>t\<close> itself may hold.
\<close>

fun cleared :: "rnode \<Rightarrow> string list \<Rightarrow> bool" where
  "cleared t [] \<longleftrightarrow> rnodes t = []"
| "cleared t (l # ls) \<longleftrightarrow>
     (case gm_get (rnodes t) l of None \<Rightarrow> False | Some n \<Rightarrow> cleared n ls \<and> gm_del l (rnodes t) = [])"

text \<open>
  The levels at which a removal clears the message: the topic itself, and every proper ancestor
  whose node the removal leaves without children.
\<close>

definition swept :: "rnode \<Rightarrow> string list \<Rightarrow> string list \<Rightarrow> bool" where
  "swept t ls p \<longleftrightarrow>
     p = ls \<or> p \<noteq> [] \<and> (\<exists>n q. ls = p @ q \<and> rnode_at t p = Some n \<and> cleared n q)"

lemma cleared_swept:
  "cleared n ls \<Longrightarrow> p \<noteq> [] \<Longrightarrow> rlookup n p \<noteq> None \<Longrightarrow>
   \<exists>q k. ls = p @ q \<and> rnode_at n p = Some k \<and> cleared k q"
proof (induction ls arbitrary: n p)
  case Nil
  then show ?case by (cases p) (simp_all add: rlookup_Cons)
next
  case (Cons l ls)
  obtain n' where n': "gm_get (rnodes n) l = Some n'" "cleared n' ls" "gm_del l (rnodes n) = []"
    using Cons.prems(1) by (auto split: option.splits)
  obtain k ks where p: "p = k # ks" using Cons.prems(2) by (cases p) auto
  have "k = l"
  proof (rule ccontr)
    assume "k \<noteq> l"
    then have "gm_get (rnodes n) k = gm_get (gm_del l (rnodes n)) k" by simp
    also have "\<dots> = None" using n'(3) by simp
    finally show False using Cons.prems(3) p by (simp add: rlookup_Cons)
  qed
  show ?case
  proof (cases "ks = []")
    case True
    with n' p \<open>k = l\<close> show ?thesis by simp
  next
    case False
    have "rlookup n' ks \<noteq> None" using Cons.prems(3) p \<open>k = l\<close> n'(1) by (simp add: rlookup_Cons)
    then show ?thesis using Cons.IH [of n' ks] n' False p \<open>k = l\<close> by auto
  qed
qed

lemma swept_Cons:
  assumes "gm_get (rnodes t) l = Some n"
  shows "swept t (l # ls) (k # ks) \<longleftrightarrow> k = l \<and> (swept n ls ks \<or> ks = [] \<and> cleared n ls)"
  using assms by (auto simp: swept_def)

lemma rlookup_sweep:
  assumes "gm_get (rnodes t) l = Some n"
    and "\<And>p. rlookup n' p = (if swept n ls p then None else rlookup n p)"
    and "rnodes n' = [] \<longleftrightarrow> cleared n ls"
  shows "rlookup (RNode (rmsg t)
      (if rnodes n' = [] then gm_del l (rnodes t) else gm_put l n' (rnodes t))) p =
    (if swept t (l # ls) p then None else rlookup t p)"
proof (cases p)
  case Nil
  then show ?thesis by (simp add: swept_def)
next
  case (Cons k ks)
  have "rlookup n ks = None \<or> swept n ls ks \<or> ks = []" if "cleared n ls"
    using cleared_swept [OF that, of ks] by (auto simp: swept_def)
  then show ?thesis
    using Cons assms by (auto simp: swept_Cons [OF assms(1)] rlookup_Cons split: option.splits)
qed

lemma rremove_view:
  "\<lbrakk> rwf t; levels topic = Inr ls; rnode_at t ls \<noteq> None \<rbrakk> \<Longrightarrow>
   \<exists>t'. rremove t topic = Inr t' \<and> rwf t' \<and> (rnodes t' = [] \<longleftrightarrow> cleared t ls) \<and>
     (\<forall>p. rlookup t' p = (if swept t ls p then None else rlookup t p))"
proof (induction t topic arbitrary: ls rule: rremove.induct)
  case (1 t topic)
  from "1.prems"(2) show ?case
  proof (cases rule: levels_InrE)
    case nil
    have "rlookup (RNode None (rnodes t)) p = (if swept t [] p then None else rlookup t p)" for p
      by (cases p) (simp_all add: swept_def rlookup_Cons)
    with nil rwf_parts [OF "1.prems"(1)] show ?thesis by (auto simp: rremove_Nil)
  next
    case (cons l r ls')
    from "1.prems"(3) obtain n where n: "gm_get (rnodes t) l = Some n" and "rnode_at n ls' \<noteq> None"
      by (auto simp: cons split: option.splits)
    with "1.IH" [OF cons(1,2) refl n _ cons(3)] rwf_get [OF "1.prems"(1)] obtain n' where
      n': "rremove n r = Inr n'" "rwf n'" "rnodes n' = [] \<longleftrightarrow> cleared n ls'"
        "\<And>p. rlookup n' p = (if swept n ls' p then None else rlookup n p)"
      by blast
    let ?t = "RNode (rmsg t) (if rnodes n' = [] then gm_del l (rnodes t) else gm_put l n' (rnodes t))"
    have "rremove t topic = Inr ?t" using n n'(1) by (simp add: rremove_step [OF cons(1,2)])
    moreover have "rwf ?t" using rwf_put [OF "1.prems"(1) n'(2)] rwf_del [OF "1.prems"(1)] by simp
    moreover have "rnodes ?t = [] \<longleftrightarrow> cleared t ls" using n n'(3) cons by simp
    moreover have "rlookup ?t p = (if swept t ls p then None else rlookup t p)" for p
      using rlookup_sweep [OF n n'(4) n'(3)] cons by simp
    ultimately show ?thesis by blast
  qed
qed

lemma rremove_absent:
  "\<lbrakk> levels topic = Inr ls; rnode_at t ls = None \<rbrakk> \<Longrightarrow> rremove t topic = Inl NoTopicFound"
proof (induction t topic arbitrary: ls rule: rremove.induct)
  case (1 t topic)
  from "1.prems"(1) show ?case
  proof (cases rule: levels_InrE)
    case nil
    with "1.prems" show ?thesis by simp
  next
    case (cons l r ls')
    with "1.prems" "1.IH" [OF cons(1,2) refl] show ?thesis
      by (auto simp: rremove_step split: option.splits)
  qed
qed

lemma rremove_Inr_levels: "rremove t topic = Inr t' \<Longrightarrow> \<exists>ls. levels topic = Inr ls"
proof (induction t topic arbitrary: t' rule: rremove.induct)
  case (1 t topic)
  show ?case
  proof (cases "topic = []")
    case False
    with "1.prems" obtain l r where lr: "nextTopicLevel topic = Inr (l, r)"
      by (cases "nextTopicLevel topic") (auto simp: rremove_error)
    with False "1.IH" [OF False lr refl] "1.prems" show ?thesis
      by (fastforce simp: rremove_step levels_step split: option.splits sum.splits)
  qed simp
qed

section \<open>rmatch\<close>

text \<open>All packets whose topic the filter \<open>ls\<close> matches.\<close>

definition matched_msgs :: "rnode \<Rightarrow> string list \<Rightarrow> publish_packet multiset" where
  "matched_msgs t ls = mset (map snd (filter (\<lambda>e. matches ls (fst e)) (rentries t)))"

lemma rentries_conv:
  "rentries t = (case rmsg t of None \<Rightarrow> [] | Some m \<Rightarrow> [([], m)]) @
     concat (map (\<lambda>(k, n). map (\<lambda>(p, m). (k # p, m)) (rentries n)) (rnodes t))"
  by (cases t) simp

lemma allRetained_rentries: "allRetained t msgs = msgs @ map snd (rentries t)"
proof (induction t arbitrary: msgs rule: rnode_induct)
  case (RNode m kids)
  have "fold (\<lambda>(k, n) acc. allRetained n acc) kids acc =
      acc @ concat (map (\<lambda>(k, n). map snd (rentries n)) kids)" for acc
    by (rule fold_append_concat) (auto simp: RNode)
  moreover have "concat (map (\<lambda>(k, n). map snd (rentries n)) kids) =
      map snd (concat (map (\<lambda>(k, n). map (\<lambda>(p, m). (k # p, m)) (rentries n)) kids))"
    by (induction kids) (auto simp: split_beta comp_def)
  ultimately show ?case by (auto split: option.splits)
qed

lemma matched_msgs_conv:
  "matched_msgs t ls =
     (if matches ls [] then mset (own_msg t) else {#}) +
     (\<Sum>(k, n) \<leftarrow> rnodes t. mset (map snd (filter (\<lambda>e. matches ls (k # fst e)) (rentries n))))"
proof -
  have "mset (map snd (filter (\<lambda>e. matches ls (fst e))
      (concat (map (\<lambda>(k, n). map (\<lambda>(p, m). (k # p, m)) (rentries n)) kids)))) =
    (\<Sum>(k, n) \<leftarrow> kids. mset (map snd (filter (\<lambda>e. matches ls (k # fst e)) (rentries n))))"
    for kids
    by (induction kids) (auto simp: filter_map comp_def split_beta)
  then show ?thesis
    unfolding matched_msgs_def rentries_conv [of t] filter_append map_append mset_append
    by (simp add: own_msg_def split: option.splits)
qed

lemma matched_msgs_simps:
  "matched_msgs t [] = mset (own_msg t)"
  "matched_msgs t [''#''] = mset (map snd (rentries t))"
  "l \<noteq> MWC \<Longrightarrow> matched_msgs t (l # ls) =
     (\<Sum>(k, n) \<leftarrow> rnodes t. if l = SWC \<or> l = k then matched_msgs n ls else {#})"
proof -
  have "(\<Sum>(k, n) \<leftarrow> kids. mset (map snd (filter (\<lambda>e. False) (rentries n)))) = {#}" for kids
    by (induction kids) auto
  then show "matched_msgs t [] = mset (own_msg t)" by (simp add: matched_msgs_conv)
  show "matched_msgs t [''#''] = mset (map snd (rentries t))" by (simp add: matched_msgs_def)
  assume l: "l \<noteq> MWC"
  then have "mset (map snd (filter (\<lambda>e. matches (l # ls) (k # fst e)) (rentries n))) =
      (if l = SWC \<or> l = k then matched_msgs n ls else {#})" for k n
    by (auto simp: matched_msgs_def)
  with l show "matched_msgs t (l # ls) =
     (\<Sum>(k, n) \<leftarrow> rnodes t. if l = SWC \<or> l = k then matched_msgs n ls else {#})"
    by (simp add: matched_msgs_conv [of t])
qed

lemma rmatch_Nil [trie_simps]: "rmatch t [] msgs = (msgs @ own_msg t, None)"
  by (simp add: rmatch.simps)

lemma rmatch_error [trie_simps]:
  "topic \<noteq> [] \<Longrightarrow> nextTopicLevel topic = Inl e \<Longrightarrow> rmatch t topic msgs = (msgs, Some e)"
  by (simp add: rmatch.simps)

lemma rmatch_step [trie_simps]:
  "topic \<noteq> [] \<Longrightarrow> nextTopicLevel topic = Inr (l, r) \<Longrightarrow>
   rmatch t topic msgs =
     (if l = MWC then (allRetained t msgs, None)
      else if l = SWC then rmatch_range (rnodes t) r msgs
      else case gm_get (rnodes t) l of Some n \<Rightarrow> rmatch n r msgs | None \<Rightarrow> (msgs, None))"
  by (simp add: rmatch.simps [of t topic])

lemma rmatch_matched:
  "\<lbrakk> rwf t; levels topic = Inr ls \<rbrakk> \<Longrightarrow>
     \<exists>ms. rmatch t topic msgs = (msgs @ ms, None) \<and> mset ms = matched_msgs t ls"
  "\<lbrakk> \<forall>(k, n) \<in> set kns. rwf n; levels r = Inr rs \<rbrakk> \<Longrightarrow>
     \<exists>ms. rmatch_range kns r msgs = (msgs @ ms, None) \<and>
       mset ms = (\<Sum>(k, n) \<leftarrow> kns. matched_msgs n rs)"
proof (induction t topic msgs and kns r msgs arbitrary: ls and rs rule: rmatch_rmatch_range.induct)
  case (1 t topic msgs)
  from "1.prems"(2) show ?case
  proof (cases rule: levels_InrE)
    case nil
    then show ?thesis by (simp add: rmatch_Nil matched_msgs_simps)
  next
    case (cons l r ls')
    note step = rmatch_step [OF cons(1,2)]
    consider (mwc) "l = MWC" | (swc) "l = SWC" | (level) "l \<noteq> MWC" "l \<noteq> SWC" by blast
    then show ?thesis
    proof cases
      case mwc
      then have "ls' = []" using levels_wf [OF "1.prems"(2)] cons by simp
      with mwc cons step show ?thesis by (simp add: allRetained_rentries matched_msgs_simps)
    next
      case swc
      then have "l \<noteq> MWC" by simp
      from "1.IH"(1) [OF cons(1,2) refl this swc, of ls'] rwf_parts(2) [OF "1.prems"(1)] cons
      show ?thesis unfolding step cons(4) matched_msgs_simps(3) [OF \<open>l \<noteq> MWC\<close>] using swc by auto
    next
      case level
      have eq: "matched_msgs t ls =
          (case gm_get (rnodes t) l of Some n \<Rightarrow> matched_msgs n ls' | None \<Rightarrow> {#})"
        using sum_list_single_key [OF rwf_parts(1) [OF "1.prems"(1)],
            where a = l and f = "\<lambda>n. matched_msgs n ls'"] level
        unfolding cons(4) matched_msgs_simps(3) [OF level(1)] by (simp add: eq_commute)
      show ?thesis
      proof (cases "gm_get (rnodes t) l")
        case None
        with eq step level show ?thesis by simp
      next
        case (Some n)
        from "1.IH"(2) [OF cons(1,2) refl level Some, of ls'] rwf_get [OF "1.prems"(1) Some] cons
        show ?thesis using eq step level Some by auto
      qed
    qed
  qed
next
  case (2 r msgs)
  then show ?case by simp
next
  case (3 k n kns r msgs)
  from "3.IH"(1) [OF _ "3.prems"(2)] "3.prems"(1) obtain ms where
    ms: "rmatch n r msgs = (msgs @ ms, None)" "mset ms = matched_msgs n rs" by auto
  from "3.IH"(2) [OF ms(1) [symmetric] refl _ "3.prems"(2)] "3.prems"(1) obtain ms' where
    "rmatch_range kns r (msgs @ ms) = ((msgs @ ms) @ ms', None)"
    "mset ms' = (\<Sum>(k, n) \<leftarrow> kns. matched_msgs n rs)" by auto
  with ms show ?case by simp
qed

lemma rmatch_fails:
  "snd (rmatch t topic msgs) = Some e \<Longrightarrow> levels topic = Inl e"
  "snd (rmatch_range kns r msgs) = Some e \<Longrightarrow> levels r = Inl e"
proof (induction t topic msgs and kns r msgs rule: rmatch_rmatch_range.induct)
  case (1 t topic msgs)
  show ?case
  proof (cases "topic = []")
    case True
    with "1.prems" show ?thesis by (simp add: rmatch_Nil)
  next
    case False
    show ?thesis
    proof (cases "nextTopicLevel topic")
      case (Inl e')
      with False "1.prems" show ?thesis by (simp add: rmatch_error levels_error)
    next
      case (Inr p)
      then obtain l r where lr: "nextTopicLevel topic = Inr (l, r)" by (cases p) simp
      have "levels r = Inl e"
        using "1.IH" [OF False lr refl] "1.prems" False lr
        by (auto simp: rmatch_step split: if_splits option.splits)
      with lr False show ?thesis by (simp add: levels_step)
    qed
  qed
next
  case (2 r msgs)
  then show ?case by simp
next
  case (3 k n kns r msgs)
  then show ?case by (auto split: prod.splits option.splits)
qed

lemma rentries_rlookup:
  "rwf t \<Longrightarrow> (p, m) \<in> set (rentries t) \<longleftrightarrow> rlookup t p = Some m"
proof (induction p arbitrary: t)
  case Nil
  show ?case by (auto simp: rentries_conv [of t] split: option.splits)
next
  case (Cons k ks)
  have "(k # ks, m) \<in> set (rentries t) \<longleftrightarrow>
      (\<exists>n. (k, n) \<in> set (rnodes t) \<and> (ks, m) \<in> set (rentries n))"
    by (force simp: rentries_conv [of t] split: option.splits)
  also have "\<dots> \<longleftrightarrow> (\<exists>n. gm_get (rnodes t) k = Some n \<and> rlookup n ks = Some m)"
    using Cons.IH rwf_parts [OF Cons.prems] by (metis gm_get_iff)
  also have "\<dots> \<longleftrightarrow> rlookup t (k # ks) = Some m"
    by (auto simp: rlookup_Cons split: option.splits)
  finally show ?case .
qed

lemma distinct_rkid_keys:
  "\<lbrakk> gm_ok kids; \<forall>(k, n) \<in> set kids. distinct (map fst (rentries n)) \<rbrakk> \<Longrightarrow>
   distinct (map fst (concat (map (\<lambda>(k, n). map (\<lambda>(p, m). (k # p, m)) (rentries n)) kids)))"
proof (induction kids)
  case Nil
  then show ?case by simp
next
  case (Cons e kids)
  obtain k n where e: "e = (k, n)" by (cases e)
  have "map fst (map (\<lambda>(p, m). (k # p, m)) (rentries n)) = map ((#) k) (map fst (rentries n))"
    by (simp add: split_beta)
  then have "distinct (map fst (map (\<lambda>(p, m). (k # p, m)) (rentries n)))"
    using Cons.prems(2) e by (simp add: distinct_map inj_on_def split_beta comp_def)
  moreover have "k \<notin> fst ` set kids" using Cons.prems(1) e by simp
  ultimately show ?case using Cons e by force
qed

lemma distinct_rentries: "rwf t \<Longrightarrow> distinct (map fst (rentries t))"
proof (induction t rule: rnode_induct)
  case (RNode m kids)
  have "\<forall>(k, n) \<in> set kids. distinct (map fst (rentries n))" using RNode by auto
  then have "distinct (map fst (concat
      (map (\<lambda>(k, n). map (\<lambda>(p, m). (k # p, m)) (rentries n)) kids)))"
    using RNode.prems by (intro distinct_rkid_keys) auto
  then show ?case by (auto split: option.splits)
qed

text \<open>Every retained packet is delivered once per topic that the filter matches.\<close>

lemma count_matched_msgs:
  assumes "rwf t"
  shows "count (matched_msgs t ls) m = card {p. matches ls p \<and> rlookup t p = Some m}"
proof -
  let ?es = "filter (\<lambda>e. snd e = m) (filter (\<lambda>e. matches ls (fst e)) (rentries t))"
  have "count (mset (map snd xs)) m = length (filter (\<lambda>e. snd e = m) xs)"
    for xs :: "(string list \<times> publish_packet) list" by (induction xs) auto
  then have "count (matched_msgs t ls) m = length ?es" unfolding matched_msgs_def .
  also have "\<dots> = card (set (map fst ?es))"
  proof -
    have "distinct (map fst ?es)"
      using distinct_rentries [OF assms] by (simp add: distinct_map_filter)
    from distinct_card [OF this] show ?thesis by simp
  qed
  also have "set (map fst ?es) = {p. matches ls p \<and> rlookup t p = Some m}"
    using rentries_rlookup [OF assms] by (force simp: image_iff)
  finally show ?thesis .
qed

lemma in_matched_msgs:
  assumes "rwf t"
  shows "m \<in># matched_msgs t ls \<longleftrightarrow> (\<exists>p. matches ls p \<and> rlookup t p = Some m)"
  using rentries_rlookup [OF assms] by (force simp: matched_msgs_def image_iff)

end
