(* ===== verification/Provider_Registry.thy ===== *)
theory Provider_Registry
  imports Thoth_Base
begin

text \<open>
  The contract of a table of named providers, which the packages \<open>topics\<close> and
  \<open>sessions\<close> both keep: \<open>Register\<close> panics on a nil provider and on a name already
  taken, \<open>Unregister\<close> forgets a name, and \<open>NewManager\<close> finds the provider of a name
  or reports an error.  The two packages interpret the locale on their own functions.
\<close>

locale provider_registry =
  fixes register :: "string \<Rightarrow> 'p option \<Rightarrow> (string, 'p) gomap \<Rightarrow> (string, 'p) gomap outcome"
    and unregister :: "string \<Rightarrow> (string, 'p) gomap \<Rightarrow> (string, 'p) gomap"
    and new_manager :: "string \<Rightarrow> (string, 'p) gomap \<Rightarrow> string + 'p"
  assumes register_nil: "\<exists>msg. register name None ps = Panic msg"
    and register_dup: "gm_get ps name \<noteq> None \<Longrightarrow> \<exists>msg. register name (Some p) ps = Panic msg"
    and register_new: "gm_get ps name = None \<Longrightarrow>
      \<exists>ps'. register name (Some p) ps = Ret ps' \<and> gm_get ps' = (gm_get ps)(name \<mapsto> p)"
    and unregister_get: "gm_get (unregister name ps) = (gm_get ps)(name := None)"
    and new_manager_get: "new_manager name ps = Inr p \<longleftrightarrow> gm_get ps name = Some p"
begin

lemma registered_found:
  "register name (Some p) ps = Ret ps' \<Longrightarrow> new_manager name ps' = Inr p"
  using register_new [of ps name p] register_dup [of ps name p]
  by (cases "gm_get ps name = None") (auto simp: new_manager_get)

lemma register_twice: "register name (Some p) ps = Ret ps' \<Longrightarrow> \<exists>msg. register name (Some p') ps' = Panic msg"
  using registered_found register_dup new_manager_get by (metis option.distinct(1))

lemma register_again:
  "register name (Some p) ps = Ret ps' \<Longrightarrow>
   \<exists>ps''. register name (Some p') (unregister name ps') = Ret ps'' \<and> new_manager name ps'' = Inr p'"
proof -
  have "gm_get (unregister name ps') name = None" by (simp add: unregister_get)
  from register_new [OF this, of p'] show ?thesis by (auto simp: new_manager_get)
qed

lemma register_other:
  "\<lbrakk> register name (Some p) ps = Ret ps'; name' \<noteq> name \<rbrakk> \<Longrightarrow>
   new_manager name' ps' = Inr p' \<longleftrightarrow> new_manager name' ps = Inr p'"
  using register_new [of ps name p] register_dup [of ps name p]
  by (cases "gm_get ps name = None") (auto simp: new_manager_get)

end

end
