(* ===== verification/Mem_Topics.thy ===== *)
theory Mem_Topics
  imports Sub_Trie Retain_Trie Provider_Registry
begin

text \<open>
  The in-memory topics provider (\<open>memTopics\<close> of \<open>topics/memtopics.go\<close>) and the package's
  \<open>Manager\<close> and provider table (\<open>topics/topics.go\<close>).  The interface
  \<open>TopicsProvider\<close> is stated as locales: what the broker may rely on about subscriptions and
  about retained messages, and what follows from it for a publisher and a subscriber.  The
  in-memory provider is shown to meet both.
\<close>

section \<open>The provider\<close>

record memTopics =
  sroot :: snode
  rroot :: rnode

definition NewMemProvider :: memTopics where
  "NewMemProvider = \<lparr> sroot = newSNode, rroot = newRNode \<rparr>"

definition mem_Subscribe ::
  "memTopics \<Rightarrow> string \<Rightarrow> u8 \<Rightarrow> iface \<Rightarrow> memTopics \<times> u8 \<times> topic_error option" where
  "mem_Subscribe this topic q sub =
     (if \<not> ValidQos q then (this, QosFailure, Some (InvalidQoS q))
      else if sub = INil then (this, QosFailure, Some NilSubscriber)
      else let q' = (if q > QosExactlyOnce then QosExactlyOnce else q);
               (root', err) = sinsert (sroot this) topic q' sub
           in (case err of
                 Some e \<Rightarrow> (this\<lparr>sroot := root'\<rparr>, QosFailure, Some e)
               | None \<Rightarrow> (this\<lparr>sroot := root'\<rparr>, q', None)))"

definition mem_Unsubscribe ::
  "memTopics \<Rightarrow> string \<Rightarrow> iface \<Rightarrow> memTopics \<times> topic_error option" where
  "mem_Unsubscribe this topic sub =
     (case sremove (sroot this) topic sub of
        Inl err \<Rightarrow> (this, Some err)
      | Inr root' \<Rightarrow> (this\<lparr>sroot := root'\<rparr>, None))"

text \<open>The caller's slices are emptied, except when the QoS is refused.\<close>

definition mem_Subscribers ::
  "memTopics \<Rightarrow> string \<Rightarrow> u8 \<Rightarrow> matched \<Rightarrow> matched \<times> topic_error option" where
  "mem_Subscribers this topic q acc =
     (if \<not> ValidQos q then (acc, Some (InvalidQoS q))
      else smatch (sroot this) topic q ([], []))"

definition mem_Retain :: "memTopics \<Rightarrow> publish_packet \<Rightarrow> memTopics \<times> topic_error option" where
  "mem_Retain this msg =
     (if length (p_Payload msg) = 0 then
        (case rremove (rroot this) (p_TopicName msg) of
           Inl err \<Rightarrow> (this, Some err)
         | Inr root' \<Rightarrow> (this\<lparr>rroot := root'\<rparr>, None))
      else let (root', err) = rinsertOrUpdate (rroot this) (p_TopicName msg) msg
           in (this\<lparr>rroot := root'\<rparr>, err))"

definition mem_Retained ::
  "memTopics \<Rightarrow> string \<Rightarrow> publish_packet list \<Rightarrow> publish_packet list \<times> topic_error option" where
  "mem_Retained this topic msgs = rmatch (rroot this) topic msgs"

text \<open>
  \<open>Close\<close> sets both roots to nil; \<open>None\<close> stands for the closed provider, which no code
  of the broker ever uses again.
\<close>

definition mem_Close :: "memTopics \<Rightarrow> memTopics option \<times> topic_error option" where
  "mem_Close this = (None, None)"

section \<open>The table of providers\<close>

definition topics_Register ::
  "string \<Rightarrow> 'p option \<Rightarrow> (string, 'p) gomap \<Rightarrow> (string, 'p) gomap outcome" where
  "topics_Register name provider providers =
     (case provider of
        None \<Rightarrow> Panic ''topics: Register provide is nil''
      | Some p \<Rightarrow>
          (case gm_get providers name of
             Some _ \<Rightarrow> Panic ''topics: Register called twice for provider''
           | None \<Rightarrow> Ret (gm_put name p providers)))"

definition topics_Unregister :: "string \<Rightarrow> (string, 'p) gomap \<Rightarrow> (string, 'p) gomap" where
  "topics_Unregister name providers = gm_del name providers"

definition topics_NewManager :: "string \<Rightarrow> (string, 'p) gomap \<Rightarrow> string + 'p" where
  "topics_NewManager providerName providers =
     (case gm_get providers providerName of
        None \<Rightarrow> Inl (''session: unknown provider '' @ providerName)
      | Some p \<Rightarrow> Inr p)"

interpretation tr: provider_registry topics_Register topics_Unregister topics_NewManager
  by unfold_locales
    (auto simp: topics_Register_def topics_Unregister_def topics_NewManager_def fun_eq_iff
      split: option.splits)

text \<open>The package initialiser registers the in-memory provider under \<open>mem\<close>.\<close>

definition topics_init :: "(string, memTopics) gomap outcome" where
  "topics_init = topics_Register ''mem'' (Some NewMemProvider) []"

text \<open>The methods of the manager forward to its provider.\<close>

definition Manager_Subscribe ::
  "memTopics \<Rightarrow> string \<Rightarrow> u8 \<Rightarrow> iface \<Rightarrow> memTopics \<times> u8 \<times> topic_error option" where
  "Manager_Subscribe p = mem_Subscribe p"

definition Manager_Unsubscribe ::
  "memTopics \<Rightarrow> string \<Rightarrow> iface \<Rightarrow> memTopics \<times> topic_error option" where
  "Manager_Unsubscribe p = mem_Unsubscribe p"

definition Manager_Subscribers ::
  "memTopics \<Rightarrow> string \<Rightarrow> u8 \<Rightarrow> matched \<Rightarrow> matched \<times> topic_error option" where
  "Manager_Subscribers p = mem_Subscribers p"

definition Manager_Retain :: "memTopics \<Rightarrow> publish_packet \<Rightarrow> memTopics \<times> topic_error option" where
  "Manager_Retain p = mem_Retain p"

definition Manager_Retained ::
  "memTopics \<Rightarrow> string \<Rightarrow> publish_packet list \<Rightarrow> publish_packet list \<times> topic_error option" where
  "Manager_Retained p = mem_Retained p"

definition Manager_Close :: "memTopics \<Rightarrow> memTopics option \<times> topic_error option" where
  "Manager_Close p = mem_Close p"

lemmas topics_manager_defs =
  Manager_Subscribe_def Manager_Unsubscribe_def Manager_Subscribers_def
  Manager_Retain_def Manager_Retained_def Manager_Close_def

section \<open>The contract for subscriptions\<close>

locale subscription_store =
  fixes subscribe :: "'m \<Rightarrow> string \<Rightarrow> u8 \<Rightarrow> iface \<Rightarrow> 'm \<times> u8 \<times> topic_error option"
    and unsubscribe :: "'m \<Rightarrow> string \<Rightarrow> iface \<Rightarrow> 'm \<times> topic_error option"
    and subscribers :: "'m \<Rightarrow> string \<Rightarrow> u8 \<Rightarrow> matched \<Rightarrow> matched \<times> topic_error option"
    and granted :: "'m \<Rightarrow> string list \<Rightarrow> iface \<Rightarrow> u8 option"
    and inv :: "'m \<Rightarrow> bool"
  assumes inv_subscribe: "\<lbrakk> inv m; comparable s \<rbrakk> \<Longrightarrow> inv (fst (subscribe m t q s))"
    and inv_unsubscribe: "\<lbrakk> inv m; comparable s \<rbrakk> \<Longrightarrow> inv (fst (unsubscribe m t s))"
    and subscribe_result: "\<lbrakk> inv m; comparable s \<rbrakk> \<Longrightarrow>
      snd (subscribe m t q s) =
        (if \<not> ValidQos q then (QosFailure, Some (InvalidQoS q))
         else case levels t of Inl e \<Rightarrow> (QosFailure, Some e) | Inr _ \<Rightarrow> (q, None))"
    and granted_subscribe: "\<lbrakk> inv m; comparable s \<rbrakk> \<Longrightarrow>
      granted (fst (subscribe m t q s)) p x =
        (if ValidQos q \<and> levels t = Inr p \<and> x = s then Some q else granted m p x)"
    and granted_unsubscribe: "\<lbrakk> inv m; comparable s \<rbrakk> \<Longrightarrow>
      granted (fst (unsubscribe m t s)) p x =
        (if levels t = Inr p \<and> x = s then None else granted m p x)"
    and unsubscribe_result: "\<lbrakk> inv m; comparable s \<rbrakk> \<Longrightarrow>
      snd (unsubscribe m t s) = None \<longleftrightarrow> (\<exists>p. levels t = Inr p \<and> granted m p s \<noteq> None)"
    and subscribers_refused: "\<not> ValidQos q \<Longrightarrow> subscribers m t q acc = (acc, Some (InvalidQoS q))"
    and subscribers_result: "\<lbrakk> inv m; ValidQos q; levels t = Inr ls \<rbrakk> \<Longrightarrow>
      \<exists>fs. subscribers m t q acc = ((fs, replicate (length fs) q), None) \<and>
        (\<forall>x. count (mset fs) x = card {p. matches p ls \<and> granted m p x \<noteq> None}) \<and>
        (\<forall>x. x \<in> set fs \<longleftrightarrow> (\<exists>p. matches p ls \<and> granted m p x \<noteq> None))"
    and subscribers_error: "snd (subscribers m t q acc) = Some e \<Longrightarrow>
      e = InvalidQoS q \<or> levels t = Inl e"
    and subscribers_sound: "\<lbrakk> inv m; subscribers m t q acc = ((fs, qs), None); x \<in> set fs \<rbrakk> \<Longrightarrow>
      \<exists>p. granted m p x \<noteq> None"
begin

text \<open>A subscriber with a matching filter is found by the next lookup.\<close>

lemma subscribe_finds:
  assumes "inv m" and "comparable s" and "ValidQos q" and "levels f = Inr fl"
    and "levels t = Inr ts" and "matches fl ts" and "ValidQos pq"
  shows "s \<in> set (fst (fst (subscribers (fst (subscribe m f q s)) t pq acc)))"
proof -
  have "granted (fst (subscribe m f q s)) fl s \<noteq> None"
    using assms by (simp add: granted_subscribe)
  with subscribers_result [OF inv_subscribe [OF assms(1,2)] assms(7,5), of f q acc] assms(6)
  show ?thesis by (metis fst_conv)
qed

text \<open>Subscribing and unsubscribing again restores every granted QoS.\<close>

lemma unsubscribe_undoes:
  assumes "inv m" and "comparable s" and "\<And>p. levels f = Inr p \<Longrightarrow> granted m p s = None"
  shows "granted (fst (unsubscribe (fst (subscribe m f q s)) f s)) = granted m"
  using assms inv_subscribe [OF assms(1,2)]
  by (auto simp: fun_eq_iff granted_unsubscribe granted_subscribe)

text \<open>After its last matching filter is gone, a subscriber is not found any more.\<close>

lemma unsubscribe_hides:
  assumes "inv m" and "comparable s" and "levels t = Inr ts" and "ValidQos pq"
    and "\<And>p. \<lbrakk> matches p ts; granted m p s \<noteq> None \<rbrakk> \<Longrightarrow> levels f = Inr p"
  shows "s \<notin> set (fst (fst (subscribers (fst (unsubscribe m f s)) t pq acc)))"
proof -
  have "granted (fst (unsubscribe m f s)) p s = None" if "matches p ts" for p
    using that assms(5) [of p]
    by (cases "granted m p s") (auto simp: granted_unsubscribe [OF assms(1,2)])
  with subscribers_result [OF inv_unsubscribe [OF assms(1,2)] assms(4,3), of f acc]
  show ?thesis by (metis fst_conv)
qed

text \<open>Two stores that grant the same list the same subscribers, in some order.\<close>

lemma subscribers_extensional:
  assumes "inv m" and "inv m'" and "granted m = granted m'" and "ValidQos q" and "levels t = Inr ls"
  shows "mset (fst (fst (subscribers m t q acc))) = mset (fst (fst (subscribers m' t q acc')))"
  using subscribers_result [OF assms(1,4,5), of acc] subscribers_result [OF assms(2,4,5), of acc']
    assms(3) by (auto intro!: multiset_eqI)

end

section \<open>The contract for retained messages\<close>

locale retained_store =
  fixes retain :: "'m \<Rightarrow> publish_packet \<Rightarrow> 'm \<times> topic_error option"
    and retained :: "'m \<Rightarrow> string \<Rightarrow> publish_packet list \<Rightarrow> publish_packet list \<times> topic_error option"
    and stored :: "'m \<Rightarrow> string list \<Rightarrow> publish_packet option"
    and rinv :: "'m \<Rightarrow> bool"
  assumes rinv_retain: "rinv m \<Longrightarrow> rinv (fst (retain m msg))"
    and stored_retain: "\<lbrakk> rinv m; p_Payload msg \<noteq> [] \<rbrakk> \<Longrightarrow>
      stored (fst (retain m msg)) p =
        (if levels (p_TopicName msg) = Inr p then Some msg else stored m p)"
    and retain_result: "p_Payload msg \<noteq> [] \<Longrightarrow>
      snd (retain m msg) = (case levels (p_TopicName msg) of Inl e \<Rightarrow> Some e | Inr _ \<Rightarrow> None)"
    and stored_clear: "\<lbrakk> rinv m; p_Payload msg = []; levels (p_TopicName msg) = Inr ls \<rbrakk> \<Longrightarrow>
      stored (fst (retain m msg)) ls = None"
    and clear_other: "\<lbrakk> rinv m; p_Payload msg = []; levels (p_TopicName msg) = Inr ls;
        \<nexists>q. ls = p @ q \<rbrakk> \<Longrightarrow> stored (fst (retain m msg)) p = stored m p"
    and clear_no_new: "\<lbrakk> rinv m; p_Payload msg = []; stored (fst (retain m msg)) p = Some x \<rbrakk> \<Longrightarrow>
      stored m p = Some x"
    and retained_result: "\<lbrakk> rinv m; levels t = Inr ls \<rbrakk> \<Longrightarrow>
      \<exists>ms. retained m t msgs = (msgs @ ms, None) \<and>
        (\<forall>x. count (mset ms) x = card {p. matches ls p \<and> stored m p = Some x}) \<and>
        (\<forall>x. x \<in> set ms \<longleftrightarrow> (\<exists>p. matches ls p \<and> stored m p = Some x))"
begin

text \<open>A retained message reaches a later subscriber whose filter matches its topic.\<close>

lemma retain_reaches:
  assumes "rinv m" and "p_Payload msg \<noteq> []" and "levels (p_TopicName msg) = Inr ts"
    and "levels f = Inr fl" and "matches fl ts"
  shows "msg \<in> set (fst (retained (fst (retain m msg)) f msgs))"
  using retained_result [OF rinv_retain [OF assms(1)] assms(4), of msg msgs] assms
  by (force simp: stored_retain)

text \<open>After the topic is cleared, what a subscriber gets was stored under another topic.\<close>

lemma clear_gone:
  assumes "rinv m" and "p_Payload msg = []" and "levels (p_TopicName msg) = Inr ts"
    and "levels f = Inr fl" and "x \<in> set (fst (retained (fst (retain m msg)) f []))"
  shows "\<exists>p. p \<noteq> ts \<and> matches fl p \<and> stored m p = Some x"
proof -
  from retained_result [OF rinv_retain [OF assms(1)] assms(4), of msg "[]"] assms(5)
  obtain p where p: "matches fl p" "stored (fst (retain m msg)) p = Some x" by auto
  with stored_clear [OF assms(1-3)] have "p \<noteq> ts" by auto
  with p clear_no_new [OF assms(1,2)] show ?thesis by blast
qed

end

text \<open>Both contracts together, with the two halves independent of each other.\<close>

locale topics_provider =
  subscription_store subscribe unsubscribe subscribers granted inv +
  retained_store retain retained stored inv
  for subscribe :: "'m \<Rightarrow> string \<Rightarrow> u8 \<Rightarrow> iface \<Rightarrow> 'm \<times> u8 \<times> topic_error option"
    and unsubscribe :: "'m \<Rightarrow> string \<Rightarrow> iface \<Rightarrow> 'm \<times> topic_error option"
    and subscribers :: "'m \<Rightarrow> string \<Rightarrow> u8 \<Rightarrow> matched \<Rightarrow> matched \<times> topic_error option"
    and granted :: "'m \<Rightarrow> string list \<Rightarrow> iface \<Rightarrow> u8 option"
    and inv :: "'m \<Rightarrow> bool"
    and retain :: "'m \<Rightarrow> publish_packet \<Rightarrow> 'm \<times> topic_error option"
    and retained :: "'m \<Rightarrow> string \<Rightarrow> publish_packet list \<Rightarrow> publish_packet list \<times> topic_error option"
    and stored :: "'m \<Rightarrow> string list \<Rightarrow> publish_packet option" +
  assumes granted_retain: "granted (fst (retain m msg)) = granted m"
    and stored_subscribe: "stored (fst (subscribe m t q s)) = stored m"
    and stored_unsubscribe: "stored (fst (unsubscribe m t s)) = stored m"
begin

text \<open>Retaining a message does not change who is subscribed to its topic.\<close>

lemma retain_keeps_subscribers:
  assumes "inv m" and "ValidQos q" and "levels t = Inr ls"
  shows "mset (fst (fst (subscribers (fst (retain m msg)) t q acc))) =
    mset (fst (fst (subscribers m t q acc')))"
  by (rule subscribers_extensional [OF rinv_retain [OF assms(1)] assms(1) granted_retain assms(2,3)])

end

section \<open>The in-memory provider meets the contract\<close>

definition mem_granted :: "memTopics \<Rightarrow> string list \<Rightarrow> iface \<Rightarrow> u8 option" where
  "mem_granted m = slookup (sroot m)"

definition mem_stored :: "memTopics \<Rightarrow> string list \<Rightarrow> publish_packet option" where
  "mem_stored m = rlookup (rroot m)"

definition mem_inv :: "memTopics \<Rightarrow> bool" where
  "mem_inv m \<longleftrightarrow> swf (sroot m) \<and> rwf (rroot m)"

lemma mem_inv_new: "mem_inv NewMemProvider"
  by (simp add: mem_inv_def NewMemProvider_def)

text \<open>The clamp of the QoS is never needed: a valid QoS is at most 2.\<close>

lemma qos_not_above: "ValidQos q \<Longrightarrow> \<not> QosExactlyOnce < q"
  by (auto simp: ValidQos_def)

lemma mem_Subscribe_valid:
  "ValidQos q \<Longrightarrow> s \<noteq> INil \<Longrightarrow>
   mem_Subscribe m t q s =
     (m\<lparr>sroot := fst (sinsert (sroot m) t q s)\<rparr>,
      (case levels t of Inl e \<Rightarrow> (QosFailure, Some e) | Inr _ \<Rightarrow> (q, None)))"
  using snd_sinsert [of "sroot m" t q s] qos_not_above [of q]
  by (auto simp: mem_Subscribe_def Let_def split_beta split: option.splits sum.splits)

lemma mem_Subscribe_invalid:
  "\<not> ValidQos q \<Longrightarrow> mem_Subscribe m t q s = (m, QosFailure, Some (InvalidQoS q))"
  by (simp add: mem_Subscribe_def)

lemma mem_Subscribers_result:
  assumes "mem_inv m" and "ValidQos q" and "levels t = Inr ls"
  shows "\<exists>fs. mem_Subscribers m t q acc = ((fs, replicate (length fs) q), None) \<and>
    mset fs = matched_subs (sroot m) ls"
proof -
  have "swf (sroot m)" using assms(1) by (simp add: mem_inv_def)
  from smatch_appended(1) [OF this assms(3), of q "([], [])"] assms(2) show ?thesis
    by (auto simp: mem_Subscribers_def appended_def)
qed

lemma mem_inv_Unsubscribe:
  assumes "mem_inv m" and "comparable s"
  shows "mem_inv (fst (mem_Unsubscribe m t s)) \<and>
    mem_granted (fst (mem_Unsubscribe m t s)) p x =
      (if levels t = Inr p \<and> x = s then None else mem_granted m p x)"
proof -
  have wf: "swf (sroot m)" "rwf (rroot m)" using assms(1) by (simp_all add: mem_inv_def)
  show ?thesis
  proof (cases "sremove (sroot m) t s")
    case (Inl e)
    then have "\<not> (\<exists>ls. levels t = Inr ls \<and> slookup (sroot m) ls s \<noteq> None)"
      using sremove_Inr_iff [OF wf(1) assms(2), of t] by simp
    with Inl wf show ?thesis by (auto simp: mem_Unsubscribe_def mem_inv_def mem_granted_def)
  next
    case (Inr t')
    then obtain ls where ls: "levels t = Inr ls" "slookup (sroot m) ls s \<noteq> None"
      using sremove_Inr_iff [OF wf(1) assms(2), of t] by blast
    with sremove_present [OF wf(1) assms(2) ls] Inr wf(2) show ?thesis
      by (auto simp: mem_Unsubscribe_def mem_inv_def mem_granted_def)
  qed
qed

lemma mem_Retain_clear:
  assumes "mem_inv m" and "p_Payload msg = []" and "levels (p_TopicName msg) = Inr ls"
  shows "mem_inv (fst (mem_Retain m msg)) \<and>
    mem_stored (fst (mem_Retain m msg)) p =
      (if swept (rroot m) ls p then None else mem_stored m p)"
proof (cases "rnode_at (rroot m) ls = None")
  case True
  have "mem_stored m p = None" if "swept (rroot m) ls p"
    using that True
  proof (cases "p = ls")
    case False
    with that obtain n q where "ls = p @ q" "rnode_at (rroot m) p = Some n" "cleared n q" "q \<noteq> []"
      by (auto simp: swept_def)
    moreover have "cleared n q \<Longrightarrow> rnode_at n q \<noteq> None" for n q
      by (induction q arbitrary: n) (auto split: option.splits)
    moreover have "rnode_at t p = Some n \<Longrightarrow> rnode_at t (p @ q) = rnode_at n q" for t n
      by (induction p arbitrary: t) (auto split: option.splits)
    ultimately show ?thesis using True by metis
  qed (simp add: mem_stored_def rlookup_def)
  with True assms rremove_absent [OF assms(3) True] show ?thesis
    by (auto simp: mem_Retain_def)
next
  case False
  have "rwf (rroot m)" using assms(1) by (simp add: mem_inv_def)
  from rremove_view [OF this assms(3) False] assms(1,2) show ?thesis
    by (auto simp: mem_Retain_def mem_inv_def mem_stored_def)
qed

lemma mem_Retain_store:
  assumes "mem_inv m" and "p_Payload msg \<noteq> []"
  shows "mem_inv (fst (mem_Retain m msg)) \<and>
    mem_stored (fst (mem_Retain m msg)) p =
      (if levels (p_TopicName msg) = Inr p then Some msg else mem_stored m p)"
  using assms rinsert_view [of "rroot m" "p_TopicName msg" msg p]
  by (simp add: mem_Retain_def mem_inv_def mem_stored_def split_beta Let_def)

lemma mem_Retain_malformed:
  assumes "p_Payload msg = []" and "levels (p_TopicName msg) = Inl e"
  shows "fst (mem_Retain m msg) = m"
  using assms rremove_Inr_levels [of "rroot m" "p_TopicName msg"]
  by (auto simp: mem_Retain_def split: sum.splits)

lemma mem_inv_Retain: "mem_inv m \<Longrightarrow> mem_inv (fst (mem_Retain m msg))"
  using mem_Retain_clear [of m msg] mem_Retain_store [of m msg] mem_Retain_malformed [of msg _ m]
  by (cases "p_Payload msg = []"; cases "levels (p_TopicName msg)") auto

interpretation mem: topics_provider mem_Subscribe mem_Unsubscribe mem_Subscribers mem_granted
  mem_inv mem_Retain mem_Retained mem_stored
proof unfold_locales
  fix m t q s p x assume inv: "mem_inv m" "comparable s"
  then have nn: "s \<noteq> INil" by auto
  show "mem_inv (fst (mem_Subscribe m t q s))"
    using inv nn swf_sinsert [of "sroot m" s t q]
    by (cases "ValidQos q") (simp_all add: mem_Subscribe_valid mem_inv_def mem_Subscribe_invalid)
  show "mem_inv (fst (mem_Unsubscribe m t s))" using mem_inv_Unsubscribe [OF inv] by blast
  show "snd (mem_Subscribe m t q s) =
      (if \<not> ValidQos q then (QosFailure, Some (InvalidQoS q))
       else case levels t of Inl e \<Rightarrow> (QosFailure, Some e) | Inr _ \<Rightarrow> (q, None))"
    using nn by (simp add: mem_Subscribe_valid mem_Subscribe_invalid split: sum.splits)
  show "mem_granted (fst (mem_Subscribe m t q s)) p x =
      (if ValidQos q \<and> levels t = Inr p \<and> x = s then Some q else mem_granted m p x)"
    using inv nn slookup_sinsert [of "sroot m" s t q p x]
    by (cases "ValidQos q")
      (simp_all add: mem_Subscribe_valid mem_granted_def mem_inv_def mem_Subscribe_invalid)
  show "mem_granted (fst (mem_Unsubscribe m t s)) p x =
      (if levels t = Inr p \<and> x = s then None else mem_granted m p x)"
    using mem_inv_Unsubscribe [OF inv] by blast
  show "snd (mem_Unsubscribe m t s) = None \<longleftrightarrow> (\<exists>p. levels t = Inr p \<and> mem_granted m p s \<noteq> None)"
    using sremove_Inr_iff [of "sroot m" s t] inv
    by (auto simp: mem_Unsubscribe_def mem_inv_def mem_granted_def split: sum.splits)
next
  fix q m t acc assume "\<not> ValidQos q"
  then show "mem_Subscribers m t q acc = (acc, Some (InvalidQoS q))"
    by (simp add: mem_Subscribers_def)
next
  fix m q t ls acc assume m: "mem_inv m" "ValidQos q" "levels t = Inr ls"
  then have "swf (sroot m)" by (simp add: mem_inv_def)
  note found = count_matched_subs [OF this] in_matched_subs [OF this]
  from mem_Subscribers_result [OF m, of acc] obtain fs where
    fs: "mem_Subscribers m t q acc = ((fs, replicate (length fs) q), None)"
      "mset fs = matched_subs (sroot m) ls" by blast
  moreover from fs(2) have "set fs = set_mset (matched_subs (sroot m) ls)"
    by (metis set_mset_mset)
  ultimately show "\<exists>fs. mem_Subscribers m t q acc = ((fs, replicate (length fs) q), None) \<and>
      (\<forall>x. count (mset fs) x = card {p. matches p ls \<and> mem_granted m p x \<noteq> None}) \<and>
      (\<forall>x. x \<in> set fs \<longleftrightarrow> (\<exists>p. matches p ls \<and> mem_granted m p x \<noteq> None))"
    using found unfolding mem_granted_def by metis
next
  fix m t q acc e assume "snd (mem_Subscribers m t q acc) = Some e"
  then show "e = InvalidQoS q \<or> levels t = Inl e"
    using smatch_fails(1) by (auto simp: mem_Subscribers_def split: if_splits)
next
  fix m t q acc fs qs x
  assume "mem_inv m" "mem_Subscribers m t q acc = ((fs, qs), None)" "x \<in> set fs"
  then show "\<exists>p. mem_granted m p x \<noteq> None"
    using smatch_sound(1) [of "sroot m" x t q "([], [])"]
    by (auto simp: mem_Subscribers_def mem_inv_def mem_granted_def split: if_splits)
next
  fix m and msg :: publish_packet assume "mem_inv m"
  then show "mem_inv (fst (mem_Retain m msg))" by (rule mem_inv_Retain)
next
  fix m p and msg :: publish_packet assume "mem_inv m" "p_Payload msg \<noteq> []"
  then show "mem_stored (fst (mem_Retain m msg)) p =
      (if levels (p_TopicName msg) = Inr p then Some msg else mem_stored m p)"
    using mem_Retain_store by blast
next
  fix m and msg :: publish_packet assume "p_Payload msg \<noteq> []"
  then show "snd (mem_Retain m msg) = (case levels (p_TopicName msg) of Inl e \<Rightarrow> Some e | Inr _ \<Rightarrow> None)"
    using snd_rinsert [of "rroot m" "p_TopicName msg" msg]
    by (simp add: mem_Retain_def split_beta Let_def)
next
  fix m ls p and msg :: publish_packet assume m: "mem_inv m" "p_Payload msg = []" "levels (p_TopicName msg) = Inr ls"
  show "mem_stored (fst (mem_Retain m msg)) ls = None"
    using mem_Retain_clear [OF m, of ls] by (simp add: swept_def)
  show "mem_stored (fst (mem_Retain m msg)) p = mem_stored m p" if "\<nexists>q. ls = p @ q"
    using mem_Retain_clear [OF m, of p] that by (auto simp: swept_def)
next
  fix m p x and msg :: publish_packet
  assume m: "mem_inv m" "p_Payload msg = []" and "mem_stored (fst (mem_Retain m msg)) p = Some x"
  then show "mem_stored m p = Some x"
    using mem_Retain_clear [OF m] mem_Retain_malformed [OF m(2)]
    by (cases "levels (p_TopicName msg)") (auto split: if_splits)
next
  fix m t ls msgs assume m: "mem_inv m" "levels t = Inr ls"
  then have "rwf (rroot m)" by (simp add: mem_inv_def)
  note found = count_matched_msgs [OF this] in_matched_msgs [OF this]
  from rmatch_matched(1) [OF \<open>rwf (rroot m)\<close> m(2), of msgs] obtain ms where
    ms: "rmatch (rroot m) t msgs = (msgs @ ms, None)" "mset ms = matched_msgs (rroot m) ls"
    by blast
  moreover from ms(2) have "set ms = set_mset (matched_msgs (rroot m) ls)"
    by (metis set_mset_mset)
  ultimately show "\<exists>ms. mem_Retained m t msgs = (msgs @ ms, None) \<and>
      (\<forall>x. count (mset ms) x = card {p. matches ls p \<and> mem_stored m p = Some x}) \<and>
      (\<forall>x. x \<in> set ms \<longleftrightarrow> (\<exists>p. matches ls p \<and> mem_stored m p = Some x))"
    using found unfolding mem_stored_def mem_Retained_def by metis
next
  fix m msg t q s
  show "mem_granted (fst (mem_Retain m msg)) = mem_granted m"
    by (auto simp: mem_granted_def mem_Retain_def Let_def split_beta split: sum.splits)
  show "mem_stored (fst (mem_Subscribe m t q s)) = mem_stored m"
    by (auto simp: mem_stored_def mem_Subscribe_def Let_def split_beta split: option.splits)
  show "mem_stored (fst (mem_Unsubscribe m t s)) = mem_stored m"
    by (auto simp: mem_stored_def mem_Unsubscribe_def split: sum.splits)
qed

section \<open>Sequences of operations\<close>

text \<open>
  The calls that change a provider, and what a sequence of them should mean for the
  subscriptions: a finite map from filters and subscribers to the granted QoS.
\<close>

datatype topics_call =
    CallSubscribe string u8 iface
  | CallUnsubscribe string iface
  | CallRetain publish_packet

primrec mem_call :: "topics_call \<Rightarrow> memTopics \<Rightarrow> memTopics" where
  "mem_call (CallSubscribe t q s) m = fst (mem_Subscribe m t q s)"
| "mem_call (CallUnsubscribe t s) m = fst (mem_Unsubscribe m t s)"
| "mem_call (CallRetain msg) m = fst (mem_Retain m msg)"

primrec spec_call ::
  "topics_call \<Rightarrow> (string list \<times> iface \<rightharpoonup> u8) \<Rightarrow> (string list \<times> iface \<rightharpoonup> u8)" where
  "spec_call (CallSubscribe t q s) g =
     (case levels t of Inr p \<Rightarrow> if ValidQos q then g((p, s) \<mapsto> q) else g | Inl _ \<Rightarrow> g)"
| "spec_call (CallUnsubscribe t s) g = (case levels t of Inr p \<Rightarrow> g((p, s) := None) | Inl _ \<Rightarrow> g)"
| "spec_call (CallRetain msg) g = g"

primrec call_ok :: "topics_call \<Rightarrow> bool" where
  "call_ok (CallSubscribe t q s) = comparable s"
| "call_ok (CallUnsubscribe t s) = comparable s"
| "call_ok (CallRetain msg) = True"

definition granted_map :: "memTopics \<Rightarrow> (string list \<times> iface \<rightharpoonup> u8)" where
  "granted_map m = (\<lambda>(p, s). mem_granted m p s)"

lemma call_step:
  assumes "mem_inv m" and "call_ok c"
  shows "mem_inv (mem_call c m)" and "granted_map (mem_call c m) = spec_call c (granted_map m)"
proof -
  show "mem_inv (mem_call c m)"
    using assms by (cases c) (auto intro: mem.inv_subscribe mem.inv_unsubscribe mem.rinv_retain)
  show "granted_map (mem_call c m) = spec_call c (granted_map m)"
    using assms
    by (cases c)
      (auto simp: granted_map_def fun_eq_iff mem.granted_subscribe mem.granted_unsubscribe
        mem.granted_retain split: sum.splits)
qed

lemma calls_run:
  "list_all call_ok cs \<Longrightarrow> mem_inv m \<Longrightarrow>
   mem_inv (fold mem_call cs m) \<and> granted_map (fold mem_call cs m) = fold spec_call cs (granted_map m)"
  by (induction cs arbitrary: m) (auto simp: call_step)

lemma granted_map_new: "granted_map NewMemProvider = Map.empty"
  by (simp add: granted_map_def mem_granted_def NewMemProvider_def fun_eq_iff)

section \<open>Properties\<close>

text \<open>
  C3: whatever sequence of calls a provider has served since it was created, the lookup for a
  topic returns each subscriber once for every filter that it holds according to the abstract
  map and that matches the topic, and nobody else, with one QoS entry each.
\<close>

theorem subscribers_refine_map:
  assumes "list_all call_ok cs" and "ValidQos q" and "levels t = Inr ls"
  shows "\<exists>fs. mem_Subscribers (fold mem_call cs NewMemProvider) t q acc =
      ((fs, replicate (length fs) q), None) \<and>
    (\<forall>x. count (mset fs) x = card {p. matches p ls \<and> fold spec_call cs Map.empty (p, x) \<noteq> None})"
proof -
  let ?m = "fold mem_call cs NewMemProvider"
  from calls_run [OF assms(1) mem_inv_new] have inv: "mem_inv ?m"
    and g: "granted_map ?m = fold spec_call cs Map.empty"
    by (simp_all add: granted_map_new)
  have "mem_granted ?m p x = fold spec_call cs Map.empty (p, x)" for p x
    using fun_cong [OF g, of "(p, x)"] by (simp add: granted_map_def)
  then show ?thesis using mem.subscribers_result [OF inv assms(2,3), of acc] by auto
qed

theorem subscribers_refine_map_witness:
  "\<exists>fs. mem_Subscribers (fold mem_call [CallSubscribe ''a/+'' 1 (ISub 3)] NewMemProvider) ''a/b'' 0
      ([], []) = ((fs, replicate (length fs) 0), None) \<and>
    (\<forall>x. count (mset fs) x = card {p. matches p [''a'', ''b''] \<and>
       fold spec_call [CallSubscribe ''a/+'' 1 (ISub 3)] Map.empty (p, x) \<noteq> None})"
proof (rule subscribers_refine_map)
  show "list_all call_ok [CallSubscribe ''a/+'' 1 (ISub 3)]" by simp
  show "ValidQos 0" by (simp add: ValidQos_def)
  show "levels ''a/b'' = Inr [''a'', ''b'']" by code_simp
qed

text \<open>
  C24: subscribing and unsubscribing again, with the same filter text, restores every granted QoS
  if the subscriber did not hold that filter before.
\<close>

theorem subscribe_unsubscribe_roundtrip:
  assumes "mem_inv m" and "comparable s" and "levels f = Inr p" and "mem_granted m p s = None"
    and "ValidQos q"
  shows "mem_granted (fst (mem_Subscribe m f q s)) p s = Some q \<and>
    mem_granted (fst (mem_Unsubscribe (fst (mem_Subscribe m f q s)) f s)) = mem_granted m"
  using assms mem.granted_subscribe [OF assms(1,2)] mem.unsubscribe_undoes [OF assms(1,2), of f q]
  by simp

theorem subscribe_unsubscribe_roundtrip_witness:
  "mem_granted (fst (mem_Subscribe NewMemProvider ''a/#'' 2 (ISub 5))) [''a'', ''#''] (ISub 5) = Some 2 \<and>
   mem_granted (fst (mem_Unsubscribe (fst (mem_Subscribe NewMemProvider ''a/#'' 2 (ISub 5))) ''a/#''
     (ISub 5))) = mem_granted NewMemProvider"
proof (rule subscribe_unsubscribe_roundtrip)
  show "mem_inv NewMemProvider" by (rule mem_inv_new)
  show "comparable (ISub 5)" by simp
  show "levels ''a/#'' = Inr [''a'', ''#'']" by code_simp
  show "mem_granted NewMemProvider [''a'', ''#''] (ISub 5) = None"
    by (simp add: mem_granted_def NewMemProvider_def)
  show "ValidQos 2" by (simp add: ValidQos_def)
qed

text \<open>
  C22: after a message with a payload is retained, a request for the retained messages under a
  filter returns it exactly if the filter matches its topic, and beside it exactly the messages
  that were stored under the other matching topics; what the caller's slice held comes first.
\<close>

theorem retained_exact:
  assumes "mem_inv m" and "p_Payload msg \<noteq> []" and "levels (p_TopicName msg) = Inr ts"
    and "levels f = Inr fl"
  shows "\<exists>ms. mem_Retained (fst (mem_Retain m msg)) f acc = (acc @ ms, None) \<and>
    (\<forall>x. x \<in> set ms \<longleftrightarrow> (x = msg \<and> matches fl ts) \<or>
      (\<exists>p. p \<noteq> ts \<and> matches fl p \<and> mem_stored m p = Some x))"
proof -
  have st: "mem_stored (fst (mem_Retain m msg)) p = (if p = ts then Some msg else mem_stored m p)" for p
    using mem.stored_retain [OF assms(1,2), of p] assms(3) by auto
  show ?thesis
    using mem.retained_result [OF mem.rinv_retain [OF assms(1)] assms(4), of msg acc]
    unfolding st by (elim exE conjE, intro exI conjI) (assumption, metis option.inject)
qed

definition retain_msg :: "string \<Rightarrow> string \<Rightarrow> publish_packet" where
  "retain_msg t p = \<lparr> p_TopicName = t, p_MessageID = 0, p_Payload = p, p_Qos = 0, p_Dup = False,
     p_Retain = True \<rparr>"

lemma retain_msg_simps [simp]:
  "p_TopicName (retain_msg t p) = t" "p_Payload (retain_msg t p) = p" "p_Qos (retain_msg t p) = 0"
  by (simp_all add: retain_msg_def)

theorem retained_exact_witness:
  "\<exists>ms. mem_Retained (fst (mem_Retain NewMemProvider (retain_msg ''a/b'' ''on''))) ''+/b'' [] =
     ([] @ ms, None) \<and>
    (\<forall>x. x \<in> set ms \<longleftrightarrow> (x = retain_msg ''a/b'' ''on'' \<and> matches [''+'', ''b''] [''a'', ''b'']) \<or>
      (\<exists>p. p \<noteq> [''a'', ''b''] \<and> matches [''+'', ''b''] p \<and> mem_stored NewMemProvider p = Some x))"
proof (rule retained_exact)
  show "mem_inv NewMemProvider" by (rule mem_inv_new)
  show "p_Payload (retain_msg ''a/b'' ''on'') \<noteq> []" by simp
  show "levels (p_TopicName (retain_msg ''a/b'' ''on'')) = Inr [''a'', ''b'']" unfolding retain_msg_simps by code_simp
  show "levels ''+/b'' = Inr [''+'', ''b'']" by code_simp
qed

text \<open>
  C23: retaining an empty payload removes the topic's message, and with it the message of each
  ancestor topic whose node is left with no child on the way back up; no other stored message
  changes.
\<close>

theorem retain_clear_exact:
  assumes "mem_inv m" and "p_Payload msg = []" and "levels (p_TopicName msg) = Inr ls"
  shows "mem_inv (fst (mem_Retain m msg)) \<and> mem_stored (fst (mem_Retain m msg)) ls = None \<and>
    mem_stored (fst (mem_Retain m msg)) p = (if swept (rroot m) ls p then None else mem_stored m p)"
  using mem_Retain_clear [OF assms] mem.stored_clear [OF assms] by blast

theorem retain_clear_exact_witness:
  "mem_inv (fst (mem_Retain NewMemProvider (retain_msg ''a/b'' []))) \<and>
   mem_stored (fst (mem_Retain NewMemProvider (retain_msg ''a/b'' []))) [''a'', ''b''] = None \<and>
   mem_stored (fst (mem_Retain NewMemProvider (retain_msg ''a/b'' []))) [''c''] =
     (if swept (rroot NewMemProvider) [''a'', ''b''] [''c''] then None
      else mem_stored NewMemProvider [''c''])"
proof (rule retain_clear_exact)
  show "mem_inv NewMemProvider" by (rule mem_inv_new)
  show "p_Payload (retain_msg ''a/b'' []) = []" by simp
  show "levels (p_TopicName (retain_msg ''a/b'' [])) = Inr [''a'', ''b'']"
    unfolding retain_msg_simps by code_simp
qed

text \<open>
  Clearing the message of \<open>a/b\<close> also loses the message that was retained for \<open>a\<close>:
  a subscriber to \<open>a\<close> that got it before gets nothing afterwards.
\<close>

lemma clear_child_loses_parent:
  "let m = fold mem_call [CallRetain (retain_msg ''a'' ''x''), CallRetain (retain_msg ''a/b'' ''y'')]
         NewMemProvider;
       m' = mem_call (CallRetain (retain_msg ''a/b'' [])) m
   in mem_Retained m ''a'' [] = ([retain_msg ''a'' ''x''], None) \<and> mem_Retained m' ''a'' [] = ([], None)"
  by code_simp

text \<open>
  C39: an empty level of a filter is a single-level wildcard: a subscriber to \<open>/f\<close> is found
  for every topic \<open>l/t\<close> whose rest \<open>t\<close> is matched by \<open>f\<close>, whatever its first level
  \<open>l\<close> is.
\<close>

theorem empty_level_matches_any:
  assumes "mem_inv m" and "comparable s" and "ValidQos q" and "ValidQos pq"
    and "l \<noteq> []" and "list_all plain_char l"
    and "levels f = Inr fl" and "levels t = Inr ts" and "matches fl ts"
  shows "s \<in> set (fst (fst (mem_Subscribers (fst (mem_Subscribe m (CHR ''/'' # f) q s))
    (l @ CHR ''/'' # t) pq acc)))"
proof (rule mem.subscribe_finds [OF assms(1-3)])
  have "nextTopicLevel ([] @ CHR ''/'' # f) = Inr (SWC, f)" by (subst nextTopicLevel_plain_sep) simp_all
  then show "levels (CHR ''/'' # f) = Inr (SWC # fl)" using assms(7) by (simp add: levels_step)
  have "nextTopicLevel (l @ CHR ''/'' # t) = Inr (l, t)" using assms(5,6) by (simp add: nextTopicLevel_plain_sep)
  then show "levels (l @ CHR ''/'' # t) = Inr (l # ts)" using assms(8) by (simp add: levels_step)
  show "matches (SWC # fl) (l # ts)" using assms(9) by simp
qed (fact assms(4))

theorem empty_level_matches_any_witness:
  "ISub 1 \<in> set (fst (fst (mem_Subscribers (fst (mem_Subscribe NewMemProvider (CHR ''/'' # ''a'') 0 (ISub 1)))
    (''x'' @ CHR ''/'' # ''a'') 0 ([], []))))"
proof (rule empty_level_matches_any)
  show "mem_inv NewMemProvider" by (rule mem_inv_new)
  show "comparable (ISub 1)" by simp
  show "ValidQos 0" and "ValidQos 0" by (simp_all add: ValidQos_def)
  show "''x'' \<noteq> []" and "list_all plain_char ''x''" by (simp_all add: plain_char_def)
  show "levels ''a'' = Inr [''a'']" and "levels ''a'' = Inr [''a'']" by code_simp+
  show "matches [''a''] [''a'']" by simp
qed

end
