(* ===== verification/Session_Store.thy ===== *)
theory Session_Store
  imports Mqtt_Packets Provider_Registry
begin

text \<open>
  Client sessions: the methods of \<open>Session\<close> (\<open>sessions/session.go\<close>), the in-memory
  provider (\<open>sessions/memsessions.go\<close>) and the package's manager and provider table
  (\<open>sessions/sessions.go\<close>).  Clients and the provider share sessions through pointers, so
  the session objects live in a heap; the provider's map holds addresses.
\<close>

section \<open>One session\<close>

text \<open>A nil map is \<open>None\<close>: reading it finds nothing, writing to it panics.\<close>

record Session =
  cmsg :: "connect_packet option"
  Will :: "publish_packet option"
  RetainedMsg :: "publish_packet option"
  sess_topics :: "(string, u8) gomap option"
  initted :: bool
  sess_id :: string

datatype session_error =
    SessionAlreadyInitialized
  | SessionNotYetInitialized
  | NoSessionFound string

definition newSession :: "string \<Rightarrow> Session" where
  "newSession i = \<lparr> cmsg = None, Will = None, RetainedMsg = None, sess_topics = None,
     initted = False, sess_id = i \<rparr>"

text \<open>
  The parameter \<open>np\<close> is the packet that \<open>NewControlPacket(Publish)\<close> returns.  The QoS of
  the will is the QoS of the CONNECT packet's own header.
\<close>

definition Session_Init ::
  "publish_packet \<Rightarrow> Session \<Rightarrow> connect_packet \<Rightarrow> Session \<times> session_error option" where
  "Session_Init np this msg =
     (if initted this then (this, Some SessionAlreadyInitialized)
      else let this1 = this\<lparr>cmsg := Some msg\<rparr>;
               this2 = (if c_WillFlag msg
                        then this1\<lparr>Will := Some (np\<lparr>p_Qos := c_Qos msg, p_TopicName := c_WillTopic msg,
                               p_Payload := c_WillMessage msg, p_Retain := c_WillRetain msg\<rparr>)\<rparr>
                        else this1)
           in (this2\<lparr>sess_topics := Some [], sess_id := c_ClientIdentifier msg, initted := True\<rparr>, None))"

definition Session_Update :: "Session \<Rightarrow> connect_packet \<Rightarrow> Session \<times> session_error option" where
  "Session_Update this msg = (this\<lparr>cmsg := Some msg\<rparr>, None)"

definition Session_RetainMessage ::
  "Session \<Rightarrow> publish_packet option \<Rightarrow> Session \<times> session_error option" where
  "Session_RetainMessage this msg = (this\<lparr>RetainedMsg := msg\<rparr>, None)"

definition Session_AddTopic ::
  "Session \<Rightarrow> string \<Rightarrow> u8 \<Rightarrow> (Session \<times> session_error option) outcome" where
  "Session_AddTopic this topic q =
     (if \<not> initted this then Ret (this, Some SessionNotYetInitialized)
      else case sess_topics this of
             None \<Rightarrow> Panic ''assignment to entry in nil map''
           | Some m \<Rightarrow> Ret (this\<lparr>sess_topics := Some (gm_put topic q m)\<rparr>, None))"

definition Session_RemoveTopic :: "Session \<Rightarrow> string \<Rightarrow> Session \<times> session_error option" where
  "Session_RemoveTopic this topic =
     (if \<not> initted this then (this, Some SessionNotYetInitialized)
      else (this\<lparr>sess_topics := map_option (gm_del topic) (sess_topics this)\<rparr>, None))"

definition Session_Topics :: "Session \<Rightarrow> session_error + (string list \<times> u8 list)" where
  "Session_Topics this =
     (if \<not> initted this then Inl SessionNotYetInitialized
      else case sess_topics this of
             None \<Rightarrow> Inr ([], [])
           | Some m \<Rightarrow> Inr (map fst m, map snd m))"

text \<open>The accessors of the CONNECT packet dereference it without a check.\<close>

definition Session_cmsg :: "Session \<Rightarrow> connect_packet outcome" where
  "Session_cmsg this = (case cmsg this of None \<Rightarrow> Panic ''nil pointer'' | Some m \<Rightarrow> Ret m)"

definition Session_ID :: "Session \<Rightarrow> string outcome" where
  "Session_ID this = and_then (Session_cmsg this) (\<lambda>m. Ret (c_ClientIdentifier m))"

definition Session_WillFlag :: "Session \<Rightarrow> bool outcome" where
  "Session_WillFlag this = and_then (Session_cmsg this) (\<lambda>m. Ret (c_WillFlag m))"

definition Session_SetWillFlag :: "Session \<Rightarrow> bool \<Rightarrow> Session outcome" where
  "Session_SetWillFlag this v =
     and_then (Session_cmsg this) (\<lambda>m. Ret (this\<lparr>cmsg := Some (m\<lparr>c_WillFlag := v\<rparr>)\<rparr>))"

definition Session_CleanSession :: "Session \<Rightarrow> bool outcome" where
  "Session_CleanSession this = and_then (Session_cmsg this) (\<lambda>m. Ret (c_CleanSession m))"

section \<open>The provider\<close>

record session_store =
  st :: "(string, addr) gomap"
  sess_at :: "addr \<Rightarrow> Session"
  sess_next :: addr

definition NewSessProvider :: session_store where
  "NewSessProvider = \<lparr> st = [], sess_at = (\<lambda>_. newSession []), sess_next = 0 \<rparr>"

definition sess_New :: "session_store \<Rightarrow> string \<Rightarrow> session_store \<times> addr" where
  "sess_New this i =
     (let a = sess_next this
      in (this\<lparr>st := gm_put i a (st this), sess_at := (sess_at this)(a := newSession i),
               sess_next := Suc a\<rparr>, a))"

definition sess_Get :: "session_store \<Rightarrow> string \<Rightarrow> session_error + addr" where
  "sess_Get this i =
     (case gm_get (st this) i of None \<Rightarrow> Inl (NoSessionFound i) | Some a \<Rightarrow> Inr a)"

definition sess_Del :: "session_store \<Rightarrow> string \<Rightarrow> session_store" where
  "sess_Del this i = this\<lparr>st := gm_del i (st this)\<rparr>"

definition sess_Save :: "session_store \<Rightarrow> string \<Rightarrow> session_error option" where
  "sess_Save this i = None"

definition sess_Count :: "session_store \<Rightarrow> nat" where
  "sess_Count this = length (st this)"

definition sess_Close :: "session_store \<Rightarrow> session_store \<times> session_error option" where
  "sess_Close this = (this\<lparr>st := []\<rparr>, None)"

text \<open>Updating the session object behind a pointer.\<close>

definition sess_put :: "session_store \<Rightarrow> addr \<Rightarrow> Session \<Rightarrow> session_store" where
  "sess_put this a s = this\<lparr>sess_at := (sess_at this)(a := s)\<rparr>"

section \<open>The manager\<close>

text \<open>
  \<open>base64.URLEncoding\<close>, the encoding with \<open>-\<close> and \<open>_\<close> in place of the two
  characters that are not safe in file names, and \<open>=\<close> as padding.
\<close>

definition b64_alphabet :: string where
  "b64_alphabet = ''ABCDEFGHIJKLMNOPQRSTUVWXYZabcdefghijklmnopqrstuvwxyz0123456789-_''"

definition b64_char :: "nat \<Rightarrow> char" where
  "b64_char n = b64_alphabet ! (n mod 64)"

fun b64 :: "nat list \<Rightarrow> string" where
  "b64 [] = []"
| "b64 [a] = [b64_char (a div 4), b64_char (a mod 4 * 16), CHR ''='', CHR ''='']"
| "b64 [a, b] =
     [b64_char (a div 4), b64_char (a mod 4 * 16 + b div 16), b64_char (b mod 16 * 4), CHR ''='']"
| "b64 (a # b # c # bs) =
     [b64_char (a div 4), b64_char (a mod 4 * 16 + b div 16),
      b64_char (b mod 16 * 4 + c div 64), b64_char (c mod 64)] @ b64 bs"

text \<open>
  The 15 bytes read from the system's random source, or \<open>None\<close> when reading fails.
\<close>

definition sessionId :: "u8 list option \<Rightarrow> string" where
  "sessionId rnd = (case rnd of None \<Rightarrow> [] | Some bs \<Rightarrow> b64 (map unat bs))"

definition sess_Manager_New ::
  "u8 list option \<Rightarrow> session_store \<Rightarrow> string \<Rightarrow> session_store \<times> addr" where
  "sess_Manager_New rnd p i = sess_New p (if i = [] then sessionId rnd else i)"

definition sess_Manager_Get :: "session_store \<Rightarrow> string \<Rightarrow> session_error + addr" where
  "sess_Manager_Get p i = sess_Get p i"

definition sess_Manager_Del :: "session_store \<Rightarrow> string \<Rightarrow> session_store" where
  "sess_Manager_Del p i = sess_Del p i"

definition sess_Manager_Save :: "session_store \<Rightarrow> string \<Rightarrow> session_error option" where
  "sess_Manager_Save p i = sess_Save p i"

definition sess_Manager_Count :: "session_store \<Rightarrow> nat" where
  "sess_Manager_Count p = sess_Count p"

definition sess_Manager_Close :: "session_store \<Rightarrow> session_store \<times> session_error option" where
  "sess_Manager_Close p = sess_Close p"

definition sessions_Register ::
  "string \<Rightarrow> 'p option \<Rightarrow> (string, 'p) gomap \<Rightarrow> (string, 'p) gomap outcome" where
  "sessions_Register name provider providers =
     (case provider of
        None \<Rightarrow> Panic ''session: Register provide is nil''
      | Some p \<Rightarrow>
          (case gm_get providers name of
             Some _ \<Rightarrow> Panic (''session: Register called twice for provider '' @ name)
           | None \<Rightarrow> Ret (gm_put name p providers)))"

definition sessions_Unregister :: "string \<Rightarrow> (string, 'p) gomap \<Rightarrow> (string, 'p) gomap" where
  "sessions_Unregister name providers = gm_del name providers"

definition sessions_NewManager :: "string \<Rightarrow> (string, 'p) gomap \<Rightarrow> string + 'p" where
  "sessions_NewManager providerName providers =
     (case gm_get providers providerName of
        None \<Rightarrow> Inl (''session: unknown provider '' @ providerName)
      | Some p \<Rightarrow> Inr p)"

interpretation sr: provider_registry sessions_Register sessions_Unregister sessions_NewManager
  by unfold_locales
    (auto simp: sessions_Register_def sessions_Unregister_def sessions_NewManager_def fun_eq_iff
      split: option.splits)

definition sessions_init :: "(string, session_store) gomap outcome" where
  "sessions_init = sessions_Register ''mem'' (Some NewSessProvider) []"

section \<open>Session invariant\<close>

text \<open>An initialised session has its topic map and its CONNECT packet.\<close>

definition sess_ok :: "Session \<Rightarrow> bool" where
  "sess_ok s \<longleftrightarrow>
     (initted s \<longrightarrow> cmsg s \<noteq> None \<and> sess_topics s \<noteq> None) \<and>
     (case sess_topics s of None \<Rightarrow> True | Some m \<Rightarrow> gm_ok m)"

definition topic_qos :: "Session \<Rightarrow> string \<Rightarrow> u8 option" where
  "topic_qos s t = (case sess_topics s of None \<Rightarrow> None | Some m \<Rightarrow> gm_get m t)"

lemma sess_ok_new [simp]: "sess_ok (newSession i)"
  by (simp add: sess_ok_def newSession_def)

lemma sess_ok_ops:
  assumes "sess_ok s"
  shows "sess_ok (fst (Session_Init np s msg))"
    and "sess_ok (fst (Session_Update s msg))"
    and "sess_ok (fst (Session_RetainMessage s m))"
    and "Session_AddTopic s t q = Ret (s', e) \<Longrightarrow> sess_ok s'"
    and "sess_ok (fst (Session_RemoveTopic s t))"
    and "Session_SetWillFlag s v = Ret s' \<Longrightarrow> sess_ok s'"
  using assms
  by (auto simp: sess_ok_def Session_Init_def Session_Update_def Session_RetainMessage_def
      Session_AddTopic_def Session_RemoveTopic_def Session_SetWillFlag_def Session_cmsg_def Let_def
      split: option.splits if_splits)

lemma Init_initted [simp]: "initted (fst (Session_Init np s msg))"
  by (simp add: Session_Init_def Let_def)

lemma AddTopic_ok:
  assumes "sess_ok s" and "initted s"
  obtains s' where "Session_AddTopic s t q = Ret (s', None)"
    and "topic_qos s' = (topic_qos s)(t \<mapsto> q)" and "initted s'" and "cmsg s' = cmsg s"
  using assms that
  by (auto simp: Session_AddTopic_def sess_ok_def topic_qos_def fun_eq_iff)

lemma AddTopic_returns: "sess_ok s \<Longrightarrow> \<exists>r. Session_AddTopic s t q = Ret r"
  by (auto simp: Session_AddTopic_def sess_ok_def)

lemma topic_qos_RemoveTopic:
  "initted s \<Longrightarrow> topic_qos (fst (Session_RemoveTopic s t)) = (topic_qos s)(t := None)"
  by (auto simp: Session_RemoveTopic_def topic_qos_def fun_eq_iff split: option.splits)

section \<open>The contract of a session provider\<close>

locale session_provider =
  fixes new :: "'m \<Rightarrow> string \<Rightarrow> 'm \<times> addr"
    and get :: "'m \<Rightarrow> string \<Rightarrow> session_error + addr"
    and del :: "'m \<Rightarrow> string \<Rightarrow> 'm"
    and count :: "'m \<Rightarrow> nat"
    and obj :: "'m \<Rightarrow> addr \<Rightarrow> Session"
    and live :: "'m \<Rightarrow> addr \<Rightarrow> bool"
    and inv :: "'m \<Rightarrow> bool"
  assumes inv_new: "inv m \<Longrightarrow> inv (fst (new m i))"
    and inv_del: "inv m \<Longrightarrow> inv (del m i)"
    and get_new: "inv m \<Longrightarrow> get (fst (new m i)) j = (if j = i then Inr (snd (new m i)) else get m j)"
    and obj_new: "inv m \<Longrightarrow> obj (fst (new m i)) (snd (new m i)) = newSession i"
    and new_fresh: "inv m \<Longrightarrow> \<not> live m (snd (new m i))"
    and live_new: "inv m \<Longrightarrow> live (fst (new m i)) a \<longleftrightarrow> live m a \<or> a = snd (new m i)"
    and obj_frame: "\<lbrakk> inv m; live m a \<rbrakk> \<Longrightarrow> obj (fst (new m i)) a = obj m a"
    and get_live: "\<lbrakk> inv m; get m i = Inr a \<rbrakk> \<Longrightarrow> live m a"
    and get_del: "inv m \<Longrightarrow> get (del m i) j = (if j = i then Inl (NoSessionFound i) else get m j)"
    and obj_del: "obj (del m i) = obj m"
    and count_card: "inv m \<Longrightarrow> count m = card {i. \<exists>a. get m i = Inr a}"
begin

text \<open>A second \<open>New\<close> for the same id hides the first session but leaves its object alone.\<close>

lemma new_replaces:
  assumes "inv m" and "get m i = Inr a"
  shows "get (fst (new m i)) i \<noteq> Inr a" and "obj (fst (new m i)) a = obj m a"
proof -
  have "live m a" using get_live [OF assms] .
  then have "snd (new m i) \<noteq> a" using new_fresh [OF assms(1), of i] by blast
  then show "get (fst (new m i)) i \<noteq> Inr a" by (simp add: get_new [OF assms(1)])
  show "obj (fst (new m i)) a = obj m a" using assms(1) \<open>live m a\<close> by (rule obj_frame)
qed

lemma del_new: "inv m \<Longrightarrow> get (del (fst (new m i)) i) i = Inl (NoSessionFound i)"
  by (simp add: get_del inv_new)

end

definition store_inv :: "session_store \<Rightarrow> bool" where
  "store_inv m \<longleftrightarrow>
     gm_ok (st m) \<and> (\<forall>e \<in> set (st m). snd e < sess_next m) \<and> (\<forall>a. sess_ok (sess_at m a))"

lemma store_inv_new_provider: "store_inv NewSessProvider"
  by (simp add: store_inv_def NewSessProvider_def)

lemma store_inv_put: "store_inv m \<Longrightarrow> sess_ok s \<Longrightarrow> store_inv (sess_put m a s)"
  by (simp add: store_inv_def sess_put_def)

lemma store_inv_New: "store_inv m \<Longrightarrow> store_inv (fst (sess_New m i))"
  by (auto simp: store_inv_def sess_New_def Let_def less_Suc_eq dest!: gm_put_snd)

interpretation ms: session_provider sess_New sess_Get sess_Del sess_Count sess_at
  "\<lambda>m a. a < sess_next m" store_inv
proof unfold_locales
  fix m i j a assume inv: "store_inv m"
  show "store_inv (fst (sess_New m i))" using inv by (rule store_inv_New)
  show "store_inv (sess_Del m i)" using inv
    by (auto simp: store_inv_def sess_Del_def dest: gm_del_sub)
  show "sess_Get (fst (sess_New m i)) j = (if j = i then Inr (snd (sess_New m i)) else sess_Get m j)"
    by (simp add: sess_Get_def sess_New_def Let_def)
  show "sess_at (fst (sess_New m i)) (snd (sess_New m i)) = newSession i"
    by (simp add: sess_New_def Let_def)
  show "\<not> snd (sess_New m i) < sess_next m" by (simp add: sess_New_def Let_def)
  show "a < sess_next (fst (sess_New m i)) \<longleftrightarrow> a < sess_next m \<or> a = snd (sess_New m i)"
    by (auto simp: sess_New_def Let_def)
  show "sess_Get (sess_Del m i) j = (if j = i then Inl (NoSessionFound i) else sess_Get m j)"
    by (simp add: sess_Get_def sess_Del_def)
  have "{i. \<exists>a. sess_Get m i = Inr a} = fst ` set (st m)"
    by (auto simp: sess_Get_def map_of_eq_None_iff dest: gm_getD split: option.splits)
  moreover have "card (fst ` set (st m)) = length (st m)"
    using inv distinct_card [of "map fst (st m)"] by (simp add: store_inv_def)
  ultimately show "sess_Count m = card {i. \<exists>a. sess_Get m i = Inr a}"
    by (simp add: sess_Count_def)
next
  fix m i a assume "store_inv m" "a < sess_next m"
  then show "sess_at (fst (sess_New m i)) a = sess_at m a" by (simp add: sess_New_def Let_def)
next
  fix m i a assume "store_inv m" "sess_Get m i = Inr a"
  then show "a < sess_next m"
    by (auto simp: store_inv_def sess_Get_def split: option.splits dest: gm_getD)
next
  fix m i show "sess_at (sess_Del m i) = sess_at m" by (simp add: sess_Del_def)
qed

section \<open>Generated session ids\<close>

lemma b64_length: "length (b64 bs) = 4 * ((length bs + 2) div 3)"
proof (induction bs rule: b64.induct)
  case (4 a b c bs)
  have "(length (a # b # c # bs) + 2) div 3 = Suc ((length bs + 2) div 3)" by simp
  with 4 show ?case by simp
qed auto

lemma b64_char_safe: "b64_char n \<in> set b64_alphabet"
  unfolding b64_char_def by (rule nth_mem) (simp add: b64_alphabet_def)

lemma b64_safe: "set (b64 bs) \<subseteq> insert (CHR ''='') (set b64_alphabet)"
  by (induction bs rule: b64.induct) (auto simp: b64_char_safe)

section \<open>Properties\<close>

text \<open>Calls of the topic methods of a session, and their effect on a map from topics to QoS.\<close>

datatype topic_call = AddT string u8 | RemoveT string

fun topic_calls :: "topic_call list \<Rightarrow> Session \<Rightarrow> Session outcome" where
  "topic_calls [] s = Ret s"
| "topic_calls (AddT t q # cs) s = and_then (Session_AddTopic s t q) (\<lambda>(s', _). topic_calls cs s')"
| "topic_calls (RemoveT t # cs) s = topic_calls cs (fst (Session_RemoveTopic s t))"

fun topic_map :: "topic_call list \<Rightarrow> (string \<rightharpoonup> u8) \<Rightarrow> (string \<rightharpoonup> u8)" where
  "topic_map [] m = m"
| "topic_map (AddT t q # cs) m = topic_map cs (m(t \<mapsto> q))"
| "topic_map (RemoveT t # cs) m = topic_map cs (m(t := None))"

lemma Topics_map:
  assumes "sess_ok s" and "initted s"
  shows "\<exists>ts qs. Session_Topics s = Inr (ts, qs) \<and> distinct ts \<and> length ts = length qs \<and> map_of (zip ts qs) = topic_qos s"
  using assms by (auto simp: Session_Topics_def sess_ok_def topic_qos_def zip_map_fst_snd fun_eq_iff)

lemma topic_calls_map:
  "sess_ok s \<Longrightarrow> initted s \<Longrightarrow>
   \<exists>s'. topic_calls cs s = Ret s' \<and> sess_ok s' \<and> initted s' \<and> topic_qos s' = topic_map cs (topic_qos s)"
proof (induction cs arbitrary: s)
  case (Cons c cs)
  show ?case
  proof (cases c)
    case (AddT t q)
    obtain s' where s': "Session_AddTopic s t q = Ret (s', None)" "topic_qos s' = (topic_qos s)(t \<mapsto> q)" "initted s'"
      using AddTopic_ok [OF Cons.prems] by metis
    from Cons.IH [OF sess_ok_ops(4) [OF Cons.prems(1) s'(1)] s'(3), unfolded s'(2)] AddT s'(1) show ?thesis
      by (simp only: topic_calls.simps topic_map.simps and_then.simps prod.case)
  next
    case (RemoveT t)
    have "initted (fst (Session_RemoveTopic s t))" using Cons.prems(2) by (simp add: Session_RemoveTopic_def)
    from Cons.IH [OF sess_ok_ops(5) [OF Cons.prems(1)] this, unfolded topic_qos_RemoveTopic [OF Cons.prems(2)]] RemoveT
    show ?thesis by (simp only: topic_calls.simps topic_map.simps)
  qed
qed simp

text \<open>
  C28: the topics of a session behave like a map from topics to QoS: after \<open>Init\<close> and any
  sequence of \<open>AddTopic\<close> and \<open>RemoveTopic\<close> calls, none of which panics, \<open>Topics\<close>
  lists every topic of the map once, with the QoS it was added with last.
\<close>

theorem session_topics_refine_map:
  "\<exists>s ts qs. topic_calls cs (fst (Session_Init np (newSession i) msg)) = Ret s \<and>
     Session_Topics s = Inr (ts, qs) \<and> distinct ts \<and> length ts = length qs \<and>
     map_of (zip ts qs) = topic_map cs (\<lambda>_. None)"
proof -
  let ?s = "fst (Session_Init np (newSession i) msg)"
  have "sess_ok ?s" by (rule sess_ok_ops(1)) simp
  moreover have "topic_qos ?s = (\<lambda>_. None)"
    by (simp add: Session_Init_def newSession_def Let_def topic_qos_def fun_eq_iff)
  ultimately show ?thesis using topic_calls_map [of ?s cs] Topics_map by (metis Init_initted)
qed

end
