(* ===== verification/Config_Load.thy ===== *)
theory Config_Load
  imports Thoth_Base
begin

text \<open>
  Loading the configuration (\<open>config/env.go\<close>): the struct \<open>Configuration\<close> with its tags,
  the walk over its fields by reflection, and the parsing of environment values.  The process
  environment after \<open>godotenv.Load\<close> is a parameter.
\<close>

section \<open>Parsing of values\<close>

text \<open>\<open>strconv.ParseBool\<close>: the accepted spellings, everything else is an error.\<close>

definition ParseBool :: "string \<Rightarrow> bool option" where
  "ParseBool s =
     (if s \<in> {''1'', ''t'', ''T'', ''TRUE'', ''true'', ''True''} then Some True
      else if s \<in> {''0'', ''f'', ''F'', ''FALSE'', ''false'', ''False''} then Some False
      else None)"

definition digit_val :: "char \<Rightarrow> nat option" where
  "digit_val c = (let n = of_char c :: nat in if 48 \<le> n \<and> n \<le> 57 then Some (n - 48) else None)"

fun digits_val :: "nat \<Rightarrow> string \<Rightarrow> nat option" where
  "digits_val acc [] = Some acc"
| "digits_val acc (c # cs) =
     (case digit_val c of None \<Rightarrow> None | Some d \<Rightarrow> digits_val (10 * acc + d) cs)"

definition unsigned_val :: "string \<Rightarrow> nat option" where
  "unsigned_val s = (if s = [] then None else digits_val 0 s)"

text \<open>
  \<open>strconv.Atoi\<close>: an optional sign and decimal digits, within the range of a 64-bit integer.
\<close>

definition Atoi :: "string \<Rightarrow> int option" where
  "Atoi s =
     (let (neg, ds) = (case s of
            [] \<Rightarrow> (False, [])
          | c # cs \<Rightarrow> if c = CHR ''-'' then (True, cs) else if c = CHR ''+'' then (False, cs)
                      else (False, s))
      in (case unsigned_val ds of
            None \<Rightarrow> None
          | Some n \<Rightarrow>
              (let i = (if neg then - int n else int n)
               in if - (2 ^ 63) \<le> i \<and> i < 2 ^ 63 then Some i else None)))"

text \<open>\<open>strings.Split\<close> at a single character.\<close>

fun split_at :: "char \<Rightarrow> string \<Rightarrow> string list" where
  "split_at sep [] = [[]]"
| "split_at sep (c # cs) =
     (if c = sep then [] # split_at sep cs
      else (case split_at sep cs of [] \<Rightarrow> [[c]] | h # t \<Rightarrow> (c # h) # t))"

section \<open>Fields and their tags\<close>

text \<open>
  What reflection knows of a field: its name, whether it is exported and whether it is embedded,
  and its tags.
\<close>

record field_def =
  fd_name :: string
  fd_exported :: bool
  fd_embedded :: bool
  tag_env :: string
  tag_default :: string
  tag_required :: string
  tag_internal :: string

text \<open>
  The values of the kinds that the loader distinguishes, and structs of fields.  A slice has the
  type \<open>[]string\<close> or another one; both that type and the type of a value of a kind without a
  case in the loader are given by their names.
\<close>

datatype rvalue =
    RInt int
  | RBool bool
  | RString string
  | RSlice "string list"
  | ROtherSlice string
  | ROther string
  | RStruct "(field_def \<times> rvalue) list"

type_synonym environment = "(string, string) gomap"

text \<open>\<open>os.Getenv\<close>: empty for an unset variable and for the empty name.\<close>

definition Getenv :: "environment \<Rightarrow> string \<Rightarrow> string" where
  "Getenv env k =
     (if k = [] then [] else case gm_get env k of None \<Rightarrow> [] | Some v \<Rightarrow> v)"

definition internalField :: "field_def \<Rightarrow> bool" where
  "internalField fd \<longleftrightarrow> tag_internal fd = ''true''"

definition requiredField :: "field_def \<Rightarrow> bool" where
  "requiredField fd \<longleftrightarrow> tag_required fd = ''true''"

text \<open>
  The setters of \<open>reflect.Value\<close> panic on a value that was reached through an unexported
  field.
\<close>

definition set_field :: "bool \<Rightarrow> rvalue \<Rightarrow> (rvalue \<times> string option) outcome" where
  "set_field ro v =
     (if ro then Panic ''reflect: value obtained using unexported field'' else Ret (v, None))"

text \<open>
  The field's value after loading and the returned error; \<open>ro\<close> says that the field was reached
  through an unexported one.  A missing required value and a value that does not parse are only
  logged; the parse errors shadow \<open>err\<close>, so that the returned error is always nil.  Storing the
  list of strings panics in a slice of any other type.
\<close>

definition loadConfigField ::
  "environment \<Rightarrow> bool \<Rightarrow> rvalue \<Rightarrow> field_def \<Rightarrow> (rvalue \<times> string option) outcome" where
  "loadConfigField env ro field fd =
     (let configField = tag_env fd;
          configValue0 = Getenv env configField;
          configValue = (if configValue0 = [] then tag_default fd else configValue0)
      in if configValue = [] then Ret (field, None)
         else (case field of
                 RSlice _ \<Rightarrow> set_field ro (RSlice (split_at (CHR '','') configValue))
               | ROtherSlice _ \<Rightarrow> Panic ''reflect.Set: value of type []string is not assignable''
               | RString _ \<Rightarrow> set_field ro (RString configValue)
               | RBool b \<Rightarrow>
                   (case ParseBool configValue of None \<Rightarrow> Ret (RBool b, None) | Some v \<Rightarrow> set_field ro (RBool v))
               | RInt i \<Rightarrow>
                   (case Atoi configValue of None \<Rightarrow> Ret (RInt i, None) | Some v \<Rightarrow> set_field ro (RInt v))
               | ROther _ \<Rightarrow> Ret (field, None)
               | RStruct _ \<Rightarrow> Ret (field, None)))"

text \<open>
  The loop over the fields of a struct; the last field's error is returned.  The fields of a
  struct in an unexported field that is not embedded cannot be set.
\<close>

function (sequential) loadConfig ::
  "environment \<Rightarrow> bool \<Rightarrow> (field_def \<times> rvalue) list \<Rightarrow> ((field_def \<times> rvalue) list \<times> string option) outcome" where
  "loadConfig env ro [] = Ret ([], None)"
| "loadConfig env ro ((fd, RStruct fs) # rest) =
     and_then (loadConfig env (ro \<or> \<not> fd_exported fd \<and> \<not> fd_embedded fd) fs)
       (\<lambda>r. and_then (loadConfig env ro rest)
         (\<lambda>r'. Ret ((fd, RStruct (fst r)) # fst r', if rest = [] then snd r else snd r')))"
| "loadConfig env ro ((fd, v) # rest) =
     and_then (loadConfigField env (ro \<or> \<not> fd_exported fd) v fd)
       (\<lambda>r. and_then (loadConfig env ro rest)
         (\<lambda>r'. Ret ((fd, fst r) # fst r', if rest = [] then snd r else snd r')))"
  by pat_completeness auto
termination
  by (relation "measure (\<lambda>(_, _, fs). size_list (size_prod (\<lambda>_. 0) size) fs)") auto

section \<open>The configuration struct\<close>

record Configuration =
  Worker :: int
  Port :: int
  WsPort :: int
  ClusterHost :: string
  ClusterPort :: string
  AMQPUrl :: string
  BridgeEnabled :: bool
  HeimdallrHost :: string
  HeimdallrPort :: int
  HeimdallrAPIKey :: string

definition env_field :: "string \<Rightarrow> string \<Rightarrow> string \<Rightarrow> field_def" where
  "env_field n e d = \<lparr> fd_name = n, fd_exported = True, fd_embedded = False, tag_env = e, tag_default = d, tag_required = [], tag_internal = [] \<rparr>"

text \<open>The zero value of \<open>Configuration\<close>, with the tags of its fields.\<close>

definition configuration_fields :: "(field_def \<times> rvalue) list" where
  "configuration_fields =
     [(env_field ''Worker'' ''WORKER_NUM'' ''1024'', RInt 0),
      (env_field ''Port'' ''PORT'' ''1883'', RInt 0),
      (env_field ''WsPort'' ''WS_PORT'' ''1443'', RInt 0),
      (env_field ''Cluster'' '''' '''',
         RStruct [(env_field ''Host'' '''' '''', RString ''''),
                  (env_field ''Port'' '''' '''', RString '''')]),
      (env_field ''AMQPUrl'' ''AMQP_URL'' '''', RString ''''),
      (env_field ''BridgeEnabled'' ''BRIDGE_ENABLED'' ''false'', RBool False),
      (env_field ''HeimdallrHost'' ''HEIMDALLR_HOST'' '''', RString ''''),
      (env_field ''HeimdallrPort'' ''HEIMDALLR_PORT'' ''7001'', RInt 0),
      (env_field ''HeimdallrAPIKey'' ''HEIMDALLR_KEY'' '''', RString '''')]"

text \<open>Reading the struct back by field name.\<close>

definition field_val :: "(field_def \<times> rvalue) list \<Rightarrow> string \<Rightarrow> rvalue option" where
  "field_val fs n = map_option snd (find (\<lambda>(fd, v). fd_name fd = n) fs)"

definition as_int :: "rvalue option \<Rightarrow> int" where
  "as_int v = (case v of Some (RInt i) \<Rightarrow> i | _ \<Rightarrow> 0)"

definition as_bool :: "rvalue option \<Rightarrow> bool" where
  "as_bool v = (case v of Some (RBool b) \<Rightarrow> b | _ \<Rightarrow> False)"

definition as_string :: "rvalue option \<Rightarrow> string" where
  "as_string v = (case v of Some (RString s) \<Rightarrow> s | _ \<Rightarrow> [])"

definition sub_fields :: "rvalue option \<Rightarrow> (field_def \<times> rvalue) list" where
  "sub_fields v = (case v of Some (RStruct fs) \<Rightarrow> fs | _ \<Rightarrow> [])"

definition configuration_of :: "(field_def \<times> rvalue) list \<Rightarrow> Configuration" where
  "configuration_of fs =
     \<lparr> Worker = as_int (field_val fs ''Worker''), Port = as_int (field_val fs ''Port''),
       WsPort = as_int (field_val fs ''WsPort''),
       ClusterHost = as_string (field_val (sub_fields (field_val fs ''Cluster'')) ''Host''),
       ClusterPort = as_string (field_val (sub_fields (field_val fs ''Cluster'')) ''Port''),
       AMQPUrl = as_string (field_val fs ''AMQPUrl''),
       BridgeEnabled = as_bool (field_val fs ''BridgeEnabled''),
       HeimdallrHost = as_string (field_val fs ''HeimdallrHost''),
       HeimdallrPort = as_int (field_val fs ''HeimdallrPort''),
       HeimdallrAPIKey = as_string (field_val fs ''HeimdallrAPIKey'') \<rparr>"

definition Setup :: "environment \<Rightarrow> Configuration outcome" where
  "Setup env = and_then (loadConfig env False configuration_fields) (\<lambda>(fs, err). Ret (configuration_of fs))"

text \<open>\<open>sync.Once\<close>: the first call loads the configuration, later calls return it.\<close>

definition GetConfig ::
  "environment \<Rightarrow> Configuration option \<Rightarrow> (Configuration option \<times> Configuration) outcome" where
  "GetConfig env cached =
     (case cached of
        Some c \<Rightarrow> Ret (cached, c)
      | None \<Rightarrow> and_then (Setup env) (\<lambda>c. Ret (Some c, c)))"

section \<open>What is loaded\<close>

text \<open>The value an environment variable has for the loader: its own, or the tag's default.\<close>

definition effective :: "environment \<Rightarrow> string \<Rightarrow> string \<Rightarrow> string" where
  "effective env k d = (if Getenv env k = [] then d else Getenv env k)"

lemma Getenv_empty_name [simp]: "effective env [] d = d"
  by (simp add: effective_def Getenv_def)

lemma parse_empty [simp]: "Atoi [] = None" "ParseBool [] = None"
  by (simp_all add: Atoi_def unsigned_val_def ParseBool_def)

text \<open>The outcome of loading one field, as a function of the effective value.\<close>

lemma loadConfigField_conv:
  "loadConfigField env ro v fd =
     (let c = effective env (tag_env fd) (tag_default fd)
      in case v of
           RInt i \<Rightarrow> (case Atoi c of None \<Rightarrow> Ret (v, None) | Some n \<Rightarrow> set_field ro (RInt n))
         | RBool b \<Rightarrow> (case ParseBool c of None \<Rightarrow> Ret (v, None) | Some n \<Rightarrow> set_field ro (RBool n))
         | RString s \<Rightarrow> if c = [] then Ret (v, None) else set_field ro (RString c)
         | RSlice l \<Rightarrow> if c = [] then Ret (v, None) else set_field ro (RSlice (split_at (CHR '','') c))
         | ROtherSlice n \<Rightarrow>
             if c = [] then Ret (v, None) else Panic ''reflect.Set: value of type []string is not assignable''
         | _ \<Rightarrow> Ret (v, None))"
  by (cases v) (simp_all add: loadConfigField_def effective_def Let_def split: option.split)

text \<open>Every field of the loaded configuration, as a function of the environment.\<close>

definition configured :: "environment \<Rightarrow> Configuration" where
  "configured env =
     \<lparr> Worker = (case Atoi (effective env ''WORKER_NUM'' ''1024'') of None \<Rightarrow> 0 | Some v \<Rightarrow> v),
       Port = (case Atoi (effective env ''PORT'' ''1883'') of None \<Rightarrow> 0 | Some v \<Rightarrow> v),
       WsPort = (case Atoi (effective env ''WS_PORT'' ''1443'') of None \<Rightarrow> 0 | Some v \<Rightarrow> v),
       ClusterHost = [], ClusterPort = [],
       AMQPUrl = effective env ''AMQP_URL'' [],
       BridgeEnabled = (case ParseBool (effective env ''BRIDGE_ENABLED'' ''false'') of
                          None \<Rightarrow> False | Some v \<Rightarrow> v),
       HeimdallrHost = effective env ''HEIMDALLR_HOST'' [],
       HeimdallrPort = (case Atoi (effective env ''HEIMDALLR_PORT'' ''7001'') of None \<Rightarrow> 0 | Some v \<Rightarrow> v),
       HeimdallrAPIKey = effective env ''HEIMDALLR_KEY'' [] \<rparr>"

lemma env_field_simps [simp]:
  "fd_name (env_field n e d) = n" "fd_exported (env_field n e d)" "\<not> fd_embedded (env_field n e d)"
  "tag_env (env_field n e d) = e" "tag_default (env_field n e d) = d"
  by (simp_all add: env_field_def)

lemma field_val_simps [simp]:
  "field_val [] m = None"
  "field_val ((env_field n e d, v) # fs) m = (if n = m then Some v else field_val fs m)"
  by (simp_all add: field_val_def)

lemma load_exported [simp]:
  "loadConfigField env False (RInt i) (env_field n e d) =
     Ret (RInt (case Atoi (effective env e d) of None \<Rightarrow> i | Some v \<Rightarrow> v), None)"
  "loadConfigField env False (RBool b) (env_field n e d) =
     Ret (RBool (case ParseBool (effective env e d) of None \<Rightarrow> b | Some v \<Rightarrow> v), None)"
  "loadConfigField env False (RString s) (env_field n e d) =
     Ret (RString (if effective env e d = [] then s else effective env e d), None)"
  by (simp_all add: loadConfigField_conv set_field_def Let_def split: option.split)

lemma Setup_conv: "Setup env = Ret (configured env)"
  unfolding Setup_def configuration_of_def configuration_fields_def configured_def
  by (simp add: as_int_def as_bool_def as_string_def sub_fields_def)

section \<open>Which structs can be loaded\<close>



definition loads :: "'a outcome \<Rightarrow> bool" where
  "loads r \<longleftrightarrow> (\<exists>x. r = Ret x)"

lemma loads_simps [simp]: "loads (Ret x)" "\<not> loads (Panic m)" "loads (set_field ro v) \<longleftrightarrow> \<not> ro"
  by (simp_all add: loads_def set_field_def)

lemma loads_both [simp]:
  "loads (and_then r (\<lambda>x. and_then r' (\<lambda>y. Ret (g x y)))) \<longleftrightarrow> loads r \<and> loads r'"
  by (cases r; cases r') (simp_all add: loads_def)








section \<open>Properties\<close>

text \<open>
  C32: the configuration as a function of the environment.  Loading never panics.  Every field is
  its variable if that is set and not empty, and its default otherwise; a number or flag that does
  not parse is zero or false and not the default; the cluster fields cannot be set at all.
\<close>

theorem configuration_loaded:
  "Setup env = Ret
     \<lparr> Worker = (case Atoi (effective env ''WORKER_NUM'' ''1024'') of None \<Rightarrow> 0 | Some v \<Rightarrow> v),
       Port = (case Atoi (effective env ''PORT'' ''1883'') of None \<Rightarrow> 0 | Some v \<Rightarrow> v),
       WsPort = (case Atoi (effective env ''WS_PORT'' ''1443'') of None \<Rightarrow> 0 | Some v \<Rightarrow> v),
       ClusterHost = [], ClusterPort = [],
       AMQPUrl = effective env ''AMQP_URL'' [],
       BridgeEnabled = (case ParseBool (effective env ''BRIDGE_ENABLED'' ''false'') of
                          None \<Rightarrow> False | Some v \<Rightarrow> v),
       HeimdallrHost = effective env ''HEIMDALLR_HOST'' [],
       HeimdallrPort = (case Atoi (effective env ''HEIMDALLR_PORT'' ''7001'') of None \<Rightarrow> 0 | Some v \<Rightarrow> v),
       HeimdallrAPIKey = effective env ''HEIMDALLR_KEY'' [] \<rparr>"
  using Setup_conv [of env] by (simp only: configured_def)



end
