(* ===== verification/Broker_State.thy ===== *)
theory Broker_State
  imports Mem_Topics Session_Store Config_Load
begin

text \<open>
  The state of the running broker and the methods of a client that the handlers share
  (\<open>broker/client.go\<close>).  Clients, subscriptions and sessions are heap objects that the maps
  and trees of the broker refer to by address.  A handler runs as one step on this state; the
  locks of the code protect the same accesses.
\<close>

section \<open>Data\<close>

datatype client_type = CLIENT | ROUTER | REMOTE | CLUSTER

datatype client_status = NotStarted | Connected | Disconnected

datatype InflightStatus = Publish | Pubrel

record info =
  clientId :: string
  username :: string
  password :: string
  keepalive :: u16
  willMsg :: "publish_packet option"
  localIP :: string
  remoteIP :: string

record inflightElement =
  if_status :: InflightStatus
  if_packet :: publish_packet
  if_timestamp :: int

record route =
  remoteID :: string
  remoteUrl :: string

text \<open>
  Of the connection the model has the pointer (\<open>conn\<close>: is it non-nil), whether the broker
  has closed it, and everything written to it so far; of the context, whether it is done; of the
  retry timer, whether the pointer is non-nil.  \<open>broker\<close> says that the broker pointer is
  non-nil.  The queue \<open>mqueue\<close> is never used and left out.
\<close>

record client =
  ctyp :: client_type
  broker :: bool
  conn :: bool
  conn_closed :: bool
  wrote :: "control_packet list"
  info :: info
  status :: client_status
  qoss :: "u8 list"
  csubs :: "iface list"
  subMap :: "(string, addr) gomap"
  rmsgs :: "publish_packet list"
  route :: route
  routeSubMap :: "(string, u64) gomap"
  awaitingRel :: "(u16, int) gomap"
  maxAwaitingRel :: int
  ctxDone :: bool
  inflight :: "(u16, inflightElement) gomap"
  retryTimer :: bool
  session :: "addr option"

record subscription =
  sub_client :: addr
  sub_topic :: string
  sub_qos :: u8
  share :: bool
  groupName :: string

record QueueMessage =
  qm_ClientId :: string
  qm_Topic :: string
  qm_Payload :: string
  qm_Timestamp :: int

record Message =
  msg_client :: addr
  msg_packet :: "control_packet option"

datatype timer_task = ExpireAwaitingRel addr | RetryDelivery addr

text \<open>
  The broker with the heaps of clients and subscriptions, the pending timers with the second at
  which each is due, and the messages sent on the channels \<open>clusterPool\<close> and \<open>pchan\<close>.
  The values of \<open>nodes\<close> are JSON texts.
\<close>

record world =
  broker_id :: string
  config :: Configuration
  clients :: "(string, addr) gomap"
  routes :: "(string, addr) gomap"
  remotes :: "(string, addr) gomap"
  nodes :: "(string, string) gomap"
  clusterPool :: "Message list"
  sessionMgr :: session_store
  topicsMgr :: memTopics
  client_at :: "addr \<Rightarrow> client"
  client_next :: addr
  sub_at :: "addr \<Rightarrow> subscription"
  sub_next :: addr
  timers :: "(int \<times> timer_task) list"
  pchan :: "QueueMessage list"

text \<open>
  What a step takes from outside: the clock in seconds and in milliseconds, whether a write on a
  client's connection succeeds, the next number of the pseudo-random generator, the packets that
  \<open>NewControlPacket\<close> returns, the verdicts of \<open>ConnectPacket.Validate\<close> and of the
  authentication service, the random bytes of a session id, the formatted time, and the JSON
  parser of \<open>simplejson\<close> (the inner option is the \<open>data\<close> object).
\<close>

record env =
  now :: int
  now_ms :: int
  write_ok :: "addr \<Rightarrow> control_packet \<Rightarrow> bool"
  rnd :: nat
  newPublish :: publish_packet
  newConnect :: connect_packet
  validate :: "connect_packet \<Rightarrow> u8"
  checkConnect :: "string \<Rightarrow> string \<Rightarrow> bool"
  sess_rnd :: "u8 list option"
  rfc3339 :: string
  parse_info :: "string \<Rightarrow> (string, string) gomap option option"

datatype io_error = ConnectLost | WriteFailed

definition awaitRelTimeout :: int where "awaitRelTimeout = 20"
definition retryInterval :: int where "retryInterval = 20"

definition BrokerInfoTopic :: string where "BrokerInfoTopic = ''broker000100101info''"

text \<open>Assigning to the fields of a client object.\<close>

definition upd_client :: "addr \<Rightarrow> (client \<Rightarrow> client) \<Rightarrow> world \<Rightarrow> world" where
  "upd_client a f w = w\<lparr>client_at := (client_at w)(a := f (client_at w a))\<rparr>"

section \<open>Close and WritePacket\<close>

definition Close :: "addr \<Rightarrow> world \<Rightarrow> world" where
  "Close a w =
     (if status (client_at w a) = Disconnected then w
      else upd_client a (\<lambda>c. c\<lparr>ctxDone := True, status := Disconnected,
             conn_closed := (conn_closed c \<or> conn c), conn := False\<rparr>) w)"

definition WritePacket ::
  "env \<Rightarrow> addr \<Rightarrow> control_packet \<Rightarrow> world \<Rightarrow> world \<times> io_error option" where
  "WritePacket E a packet w =
     (let c = client_at w a
      in if status c = Disconnected then (w, None)
         else if \<not> conn c then (Close a w, Some ConnectLost)
         else if \<not> conn_closed c \<and> write_ok E a packet
              then (upd_client a (\<lambda>c. c\<lparr>wrote := wrote c @ [packet]\<rparr>) w, None)
              else (w, Some WriteFailed))"

section \<open>Identifiers of incoming QoS 2 packets\<close>

datatype client_error =
    DROPPED_QOS2_PACKET_FOR_TOO_MANY_AWAITING_REL
  | RC_PACKET_IDENTIFIER_IN_USE
  | RC_PACKET_IDENTIFIER_NOT_FOUND

definition isAwaitingFull :: "client \<Rightarrow> bool" where
  "isAwaitingFull c =
     (if maxAwaitingRel c = 0 then False
      else if int (length (awaitingRel c)) < maxAwaitingRel c then False
      else True)"

definition registerPublishPacketId ::
  "env \<Rightarrow> addr \<Rightarrow> u16 \<Rightarrow> world \<Rightarrow> world \<times> client_error option" where
  "registerPublishPacketId E a packetId w =
     (let c = client_at w a
      in if isAwaitingFull c then (w, Some DROPPED_QOS2_PACKET_FOR_TOO_MANY_AWAITING_REL)
         else case gm_get (awaitingRel c) packetId of
                Some _ \<Rightarrow> (w, Some RC_PACKET_IDENTIFIER_IN_USE)
              | None \<Rightarrow>
                  ((upd_client a (\<lambda>c. c\<lparr>awaitingRel := gm_put packetId (now E) (awaitingRel c)\<rparr>) w)
                     \<lparr>timers := timers w @ [(now E + awaitRelTimeout, ExpireAwaitingRel a)]\<rparr>, None))"

definition expireAwaitingRel :: "env \<Rightarrow> addr \<Rightarrow> world \<Rightarrow> world" where
  "expireAwaitingRel E a w =
     (if length (awaitingRel (client_at w a)) = 0 then w
      else upd_client a (\<lambda>c. c\<lparr>awaitingRel :=
             filter (\<lambda>(packetId, ts). \<not> (now E - ts \<ge> awaitRelTimeout)) (awaitingRel c)\<rparr>) w)"

definition pubRel :: "addr \<Rightarrow> u16 \<Rightarrow> world \<Rightarrow> world \<times> client_error option" where
  "pubRel a packetId w =
     (case gm_get (awaitingRel (client_at w a)) packetId of
        Some _ \<Rightarrow>
          (upd_client a (\<lambda>c. c\<lparr>awaitingRel := gm_del packetId (awaitingRel c)\<rparr>) w, None)
      | None \<Rightarrow> (w, Some RC_PACKET_IDENTIFIER_NOT_FOUND))"

section \<open>Frame lemmas\<close>

lemma client_at_upd [world_simps, simp]:
  "client_at (upd_client a f w) b = (if b = a then f (client_at w a) else client_at w b)"
  by (simp add: upd_client_def)

lemma upd_client_frame [world_simps, simp]:
  "broker_id (upd_client a f w) = broker_id w" "config (upd_client a f w) = config w"
  "clients (upd_client a f w) = clients w" "routes (upd_client a f w) = routes w"
  "remotes (upd_client a f w) = remotes w" "nodes (upd_client a f w) = nodes w"
  "clusterPool (upd_client a f w) = clusterPool w" "sessionMgr (upd_client a f w) = sessionMgr w"
  "topicsMgr (upd_client a f w) = topicsMgr w" "client_next (upd_client a f w) = client_next w"
  "sub_at (upd_client a f w) = sub_at w" "sub_next (upd_client a f w) = sub_next w"
  "timers (upd_client a f w) = timers w" "pchan (upd_client a f w) = pchan w"
  by (simp_all add: upd_client_def)

text \<open>
  Everything but the clients: a write or a close changes only the client object it is called on.
\<close>

definition same_but_clients :: "world \<Rightarrow> world \<Rightarrow> bool" where
  "same_but_clients w w' \<longleftrightarrow> (\<exists>h. w' = w\<lparr>client_at := h\<rparr>)"

lemma same_but_clients_refl [simp]: "same_but_clients w w"
  unfolding same_but_clients_def by (rule exI [of _ "client_at w"]) simp

lemma same_but_clients_upd [simp]: "same_but_clients w (upd_client a f w)"
  by (auto simp: same_but_clients_def upd_client_def)

lemma same_but_clients_trans:
  "same_but_clients w w' \<Longrightarrow> same_but_clients w' w'' \<Longrightarrow> same_but_clients w w''"
  by (auto simp: same_but_clients_def)

lemma same_but_clientsD:
  assumes "same_but_clients w w'"
  shows "config w' = config w" "clients w' = clients w" "routes w' = routes w"
    "remotes w' = remotes w" "sessionMgr w' = sessionMgr w" "topicsMgr w' = topicsMgr w"
    "client_next w' = client_next w" "sub_at w' = sub_at w" "sub_next w' = sub_next w"
    "timers w' = timers w" "pchan w' = pchan w" "nodes w' = nodes w"
    "clusterPool w' = clusterPool w" "broker_id w' = broker_id w"
  using assms by (auto simp: same_but_clients_def)

lemma Close_same [simp]: "same_but_clients w (Close a w)"
  by (simp add: Close_def)

lemma WritePacket_same [simp]: "same_but_clients w (fst (WritePacket E a p w))"
  by (simp add: WritePacket_def Let_def)

lemmas write_frame [world_simps] = same_but_clientsD [OF WritePacket_same]
lemmas close_frame [world_simps] = same_but_clientsD [OF Close_same]

text \<open>What a write does to a client object: at most its output, or it is closed.\<close>

lemma WritePacket_other [simp]: "b \<noteq> a \<Longrightarrow> client_at (fst (WritePacket E a p w)) b = client_at w b"
  by (simp add: WritePacket_def Close_def Let_def)

definition can_write :: "env \<Rightarrow> addr \<Rightarrow> control_packet \<Rightarrow> client \<Rightarrow> bool" where
  "can_write E a p c \<longleftrightarrow> status c \<noteq> Disconnected \<and> conn c \<and> \<not> conn_closed c \<and> write_ok E a p"

lemma WritePacket_ok:
  "can_write E a p (client_at w a) \<Longrightarrow>
   WritePacket E a p w = (upd_client a (\<lambda>c. c\<lparr>wrote := wrote c @ [p]\<rparr>) w, None)"
  by (simp add: can_write_def WritePacket_def)

lemma wrote_WritePacket:
  "wrote (client_at (fst (WritePacket E a p w)) b) =
     wrote (client_at w b) @ (if b = a \<and> can_write E a p (client_at w a) then [p] else [])"
  by (auto simp: WritePacket_def can_write_def Close_def Let_def)

text \<open>A connected client has its connection, unless it was closed.\<close>

definition client_ok :: "client \<Rightarrow> bool" where
  "client_ok c \<longleftrightarrow>
     (status c = Connected \<longrightarrow> conn c) \<and> (status c \<noteq> NotStarted \<longrightarrow> broker c \<and> session c \<noteq> None) \<and>
     (status c = Disconnected \<longrightarrow> \<not> conn c \<and> ctxDone c) \<and>
     gm_ok (subMap c) \<and> gm_ok (awaitingRel c) \<and> gm_ok (inflight c) \<and> gm_ok (routeSubMap c) \<and>
     maxAwaitingRel c = 0"

lemma WritePacket_client:
  assumes "status (client_at w a) \<noteq> NotStarted" and "client_ok (client_at w a)"
  shows "client_at (fst (WritePacket E a p w)) b =
    (client_at w b)\<lparr>wrote := wrote (client_at w b) @
       (if b = a \<and> can_write E a p (client_at w a) then [p] else [])\<rparr>"
  using assms
  by (cases "status (client_at w a)")
    (auto simp: WritePacket_def can_write_def client_ok_def Let_def)

lemma WritePacket_never_lost:
  "client_ok (client_at w a) \<Longrightarrow> status (client_at w a) \<noteq> NotStarted \<Longrightarrow>
   snd (WritePacket E a p w) \<noteq> Some ConnectLost"
  by (cases "status (client_at w a)") (auto simp: WritePacket_def client_ok_def Let_def)

end
