(* ===== verification/Delivery.thy ===== *)
theory Delivery
  imports Broker_State
begin

text \<open>
  Delivery of a publish packet to one subscriber and the retransmission of unacknowledged
  packets (\<open>broker/comm.go\<close>).
\<close>

section \<open>The retry timer\<close>

text \<open>The variadic parameter \<open>interval\<close> is a list.\<close>

definition ensureRetryTimer :: "env \<Rightarrow> addr \<Rightarrow> int list \<Rightarrow> world \<Rightarrow> world" where
  "ensureRetryTimer E a interval w =
     (if retryTimer (client_at w a) then w
      else if length interval > 1 then w
      else let timerInterval = (case interval of [i] \<Rightarrow> i | _ \<Rightarrow> retryInterval)
           in (upd_client a (\<lambda>c. c\<lparr>retryTimer := True\<rparr>) w)
                \<lparr>timers := timers w @ [(now E + timerInterval, RetryDelivery a)]\<rparr>)"

definition resetRetryTimer :: "addr \<Rightarrow> world \<Rightarrow> world" where
  "resetRetryTimer a w =
     (if \<not> retryTimer (client_at w a) then w
      else upd_client a (\<lambda>c. c\<lparr>retryTimer := False\<rparr>) w)"

section \<open>publish\<close>

definition store_inflight :: "addr \<Rightarrow> u16 \<Rightarrow> inflightElement \<Rightarrow> world \<Rightarrow> world" where
  "store_inflight a mid e = upd_client a (\<lambda>c. c\<lparr>inflight := gm_put mid e (inflight c)\<rparr>)"

definition publish :: "env \<Rightarrow> addr \<Rightarrow> publish_packet \<Rightarrow> world \<Rightarrow> world" where
  "publish E sub packet w =
     (let a = sub_client (sub_at w sub)
      in if p_Qos packet = QosAtMostOnce then fst (WritePacket E a (PublishPacket packet) w)
         else if p_Qos packet = QosAtLeastOnce then
           (let w1 = store_inflight a (p_MessageID packet)
                  \<lparr> if_status = Publish, if_packet = packet, if_timestamp = now E \<rparr> w;
                w2 = fst (WritePacket E a (PublishPacket packet) w1)
            in ensureRetryTimer E a [] w2)
         else w)"

section \<open>retryDelivery\<close>

text \<open>One round of the loop over the copied elements; the element is shared with the map.\<close>

definition retry_element :: "env \<Rightarrow> addr \<Rightarrow> u16 \<times> inflightElement \<Rightarrow> world \<Rightarrow> world" where
  "retry_element E a ie w =
     (let (mid, infElem) = ie;
          age = now E - if_timestamp infElem
      in if age \<ge> retryInterval then
           (case if_status infElem of
              Publish \<Rightarrow>
                store_inflight a mid (infElem\<lparr>if_timestamp := now E\<rparr>)
                  (fst (WritePacket E a (PublishPacket (if_packet infElem)) w))
            | Pubrel \<Rightarrow>
                store_inflight a mid (infElem\<lparr>if_timestamp := now E\<rparr>)
                  (fst (WritePacket E a (PubrelPacket (p_MessageID (if_packet infElem))) w)))
         else let age' = (if age < 0 then 0 else age)
              in ensureRetryTimer E a [retryInterval - age'] w)"

definition retryDelivery :: "env \<Rightarrow> addr \<Rightarrow> world \<Rightarrow> world" where
  "retryDelivery E a w =
     (let w0 = resetRetryTimer a w;
          c = client_at w0 a
      in if \<not> conn c \<or> length (inflight c) = 0 then w0
         else ensureRetryTimer E a [] (fold (retry_element E a) (inflight c) w0))"

section \<open>Frames\<close>

text \<open>Delivery changes client objects and adds timers, and nothing else.\<close>

definition delivery_frame :: "world \<Rightarrow> world \<Rightarrow> bool" where
  "delivery_frame w w' \<longleftrightarrow> (\<exists>h t. w' = w\<lparr>client_at := h, timers := t\<rparr>)"

lemma delivery_frameI: "delivery_frame w (w\<lparr>client_at := h, timers := t\<rparr>)"
  unfolding delivery_frame_def by blast

lemma delivery_frame_refl [simp]: "delivery_frame w w"
  using delivery_frameI [where w = w and h = "client_at w" and t = "timers w"] by simp

lemma delivery_frame_trans:
  assumes "delivery_frame w w'" and "delivery_frame w' w''"
  shows "delivery_frame w w''"
proof -
  obtain h t h' t' where "w' = w\<lparr>client_at := h, timers := t\<rparr>"
    and "w'' = w'\<lparr>client_at := h', timers := t'\<rparr>"
    using assms unfolding delivery_frame_def by blast
  then have "w'' = w\<lparr>client_at := h', timers := t'\<rparr>" by simp
  then show ?thesis by (simp add: delivery_frameI)
qed

lemma delivery_frame_same:
  assumes "same_but_clients w w'"
  shows "delivery_frame w w'"
proof -
  obtain h where "w' = w\<lparr>client_at := h\<rparr>" using assms unfolding same_but_clients_def by blast
  then show ?thesis using delivery_frameI [where w = w and h = h and t = "timers w"] by simp
qed

lemma delivery_frameD:
  assumes "delivery_frame w w'"
  shows "config w' = config w" "clients w' = clients w" "routes w' = routes w"
    "remotes w' = remotes w" "sessionMgr w' = sessionMgr w" "topicsMgr w' = topicsMgr w"
    "client_next w' = client_next w" "sub_at w' = sub_at w" "sub_next w' = sub_next w"
    "pchan w' = pchan w" "nodes w' = nodes w" "clusterPool w' = clusterPool w"
    "broker_id w' = broker_id w"
  using assms by (auto simp: delivery_frame_def)

lemma delivery_frame_ops [simp]:
  "delivery_frame w (fst (WritePacket E a p w))"
  "delivery_frame w (ensureRetryTimer E a iv w)"
  "delivery_frame w (resetRetryTimer a w)"
  "delivery_frame w (store_inflight a mid e w)"
proof -
  show "delivery_frame w (fst (WritePacket E a p w))" by (simp add: delivery_frame_same)
  show "delivery_frame w (resetRetryTimer a w)"
    by (simp add: resetRetryTimer_def delivery_frame_same)
  show "delivery_frame w (store_inflight a mid e w)"
    by (simp add: store_inflight_def delivery_frame_same)
  show "delivery_frame w (ensureRetryTimer E a iv w)"
    using delivery_frameI [where w = w] by (simp add: ensureRetryTimer_def Let_def upd_client_def)
qed

lemmas delivery_frame_seq =
  delivery_frame_trans [OF delivery_frame_ops(1) delivery_frame_ops(4)]
  delivery_frame_trans [OF delivery_frame_trans [OF delivery_frame_ops(4) delivery_frame_ops(1)]
    delivery_frame_ops(2)]

lemma delivery_frame_publish [simp]: "delivery_frame w (publish E s p w)"
  by (simp add: publish_def Let_def delivery_frame_seq)

lemmas publish_frame [world_simps] = delivery_frameD [OF delivery_frame_publish]

lemma delivery_frame_retry_element [simp]: "delivery_frame w (retry_element E a ie w)"
  by (simp add: retry_element_def Let_def split_beta delivery_frame_seq split: InflightStatus.splits)

lemma delivery_frame_fold:
  assumes "\<And>x w. delivery_frame w (f x w)"
  shows "delivery_frame w (fold f xs w)"
proof (induction xs arbitrary: w)
  case (Cons x xs)
  from delivery_frame_trans [OF assms Cons.IH] show ?case by simp
qed simp

lemma delivery_frame_retryDelivery [simp]: "delivery_frame w (retryDelivery E a w)"
proof -
  have "delivery_frame w (ensureRetryTimer E a [] (fold (retry_element E a) ies (resetRetryTimer a w)))"
    for ies
    by (rule delivery_frame_trans [OF delivery_frame_trans [OF delivery_frame_ops(3)
          delivery_frame_fold [OF delivery_frame_retry_element]] delivery_frame_ops(2)])
  then show ?thesis by (simp add: retryDelivery_def Let_def)
qed

section \<open>What is written\<close>

lemma ensureRetryTimer_client:
  "client_at (ensureRetryTimer E a iv w) b =
     (client_at w b)\<lparr>retryTimer := retryTimer (client_at w b) \<or> (b = a \<and> length iv \<le> 1)\<rparr>"
  by (auto simp: ensureRetryTimer_def Let_def upd_client_def)

text \<open>
  Delivery of a packet with QoS 0 or 1 appends it to the output of the subscriber's client if
  that client can be written to; a packet with any other QoS is dropped.
\<close>

lemma wrote_publish:
  "wrote (client_at (publish E s p w) b) =
     wrote (client_at w b) @
       (if (p_Qos p = 0 \<or> p_Qos p = 1) \<and> b = sub_client (sub_at w s) \<and>
           can_write E b (PublishPacket p) (client_at w b)
        then [PublishPacket p] else [])"
  by (auto simp: publish_def Let_def ensureRetryTimer_client wrote_WritePacket store_inflight_def
      can_write_def)

lemma publish_other: "b \<noteq> sub_client (sub_at w s) \<Longrightarrow> client_at (publish E s p w) b = client_at w b"
  by (simp add: publish_def Let_def ensureRetryTimer_client store_inflight_def)

lemma publish_qos2: "\<not> (p_Qos p = 0 \<or> p_Qos p = 1) \<Longrightarrow> publish E s p w = w"
  by (simp add: publish_def)

text \<open>The writability of a client depends on fields that delivery does not change.\<close>

definition write_state :: "client \<Rightarrow> client_status \<times> bool \<times> bool" where
  "write_state c = (status c, conn c, conn_closed c)"

lemma can_write_cong: "write_state c = write_state c' \<Longrightarrow> can_write E a p c = can_write E a p c'"
  by (simp add: can_write_def write_state_def)

lemma write_state_upd_simps [simp]:
  "write_state (c\<lparr>wrote := x\<rparr>) = write_state c"
  "write_state (c\<lparr>inflight := y\<rparr>) = write_state c"
  "write_state (c\<lparr>retryTimer := z\<rparr>) = write_state c"
  "write_state (c\<lparr>csubs := u, qoss := v\<rparr>) = write_state c"
  by (simp_all add: write_state_def)

definition started :: "world \<Rightarrow> addr \<Rightarrow> bool" where
  "started w a \<longleftrightarrow> client_ok (client_at w a) \<and> status (client_at w a) \<noteq> NotStarted"

lemma client_ok_upd_simps [simp]:
  "client_ok (c\<lparr>wrote := x\<rparr>) = client_ok c"
  "client_ok (c\<lparr>retryTimer := z\<rparr>) = client_ok c"
  "client_ok (c\<lparr>csubs := u, qoss := v\<rparr>) = client_ok c"
  "client_ok (c\<lparr>rmsgs := r\<rparr>) = client_ok c"
  by (simp_all add: client_ok_def)

lemma client_ok_inflight [simp]: "client_ok c \<Longrightarrow> client_ok (c\<lparr>inflight := gm_put k e (inflight c)\<rparr>)"
  by (simp add: client_ok_def)

lemma started_upd [simp]:
  "started (upd_client a f w) b \<longleftrightarrow>
     (if b = a then client_ok (f (client_at w a)) \<and> status (f (client_at w a)) \<noteq> NotStarted
      else started w b)"
  by (simp add: started_def)

lemma WritePacket_started:
  "started w a \<Longrightarrow> client_at (fst (WritePacket E a p w)) b =
    (client_at w b)\<lparr>wrote := wrote (client_at w b) @
       (if b = a \<and> can_write E a p (client_at w a) then [p] else [])\<rparr>"
  unfolding started_def by (rule WritePacket_client) auto

text \<open>The whole effect of a delivery on the client objects.\<close>

lemma publish_client:
  assumes "started w (sub_client (sub_at w s))"
  shows "client_at (publish E s p w) b =
    (if b \<noteq> sub_client (sub_at w s) \<or> \<not> (p_Qos p = 0 \<or> p_Qos p = 1) then client_at w b
     else (client_at w b)
       \<lparr>wrote := wrote (client_at w b) @
          (if can_write E b (PublishPacket p) (client_at w b) then [PublishPacket p] else []),
        inflight := (if p_Qos p = 0 then inflight (client_at w b)
          else gm_put (p_MessageID p)
            \<lparr> if_status = Publish, if_packet = p, if_timestamp = now E \<rparr> (inflight (client_at w b))),
        retryTimer := retryTimer (client_at w b) \<or> p_Qos p = 1\<rparr>)"
proof -
  let ?a = "sub_client (sub_at w s)"
  let ?e = "\<lparr> if_status = Publish, if_packet = p, if_timestamp = now E \<rparr>"
  have st: "started (store_inflight ?a (p_MessageID p) ?e w) ?a"
    using assms by (simp add: store_inflight_def started_def)
  consider "p_Qos p = 0" | "p_Qos p = 1" | "p_Qos p \<noteq> 0" "p_Qos p \<noteq> 1" by blast
  then show ?thesis
  proof cases
    case 2
    then have "client_at (publish E s p w) b =
        (client_at (fst (WritePacket E ?a (PublishPacket p) (store_inflight ?a (p_MessageID p) ?e w))) b)
          \<lparr>retryTimer := retryTimer (client_at w b) \<or> b = ?a\<rparr>"
      by (simp add: publish_def Let_def ensureRetryTimer_client WritePacket_started [OF st])
         (simp add: store_inflight_def)
    with 2 show ?thesis
      by (auto simp: WritePacket_started [OF st] can_write_def) (simp_all add: store_inflight_def)
  qed (auto simp: publish_def WritePacket_started [OF assms])
qed

lemma started_publish:
  assumes "started w (sub_client (sub_at w s))"
  shows "started (publish E s p w) b = started w b"
  using assms by (auto simp: started_def publish_client [OF assms] client_ok_def)

lemma write_state_publish:
  assumes "started w (sub_client (sub_at w s))"
  shows "write_state (client_at (publish E s p w) b) = write_state (client_at w b)"
  by (simp add: publish_client [OF assms] write_state_def)

end
