(* ===== verification/World_Invariant.thy ===== *)
theory World_Invariant
  imports Delivery
begin

text \<open>
  The invariant of the broker's state.  Its structural part relates the subscription tree, the
  subscription objects, the clients' own maps and the session store; its client part says of each
  client that it is started and that its unacknowledged packets will be retried.  Delivery of
  packets keeps both parts.
\<close>

section \<open>The structural part\<close>

text \<open>The filter text of a subscription as the client sent it.\<close>

definition sub_key :: "subscription \<Rightarrow> string" where
  "sub_key s = (if share s then ''$share/'' @ groupName s @ ''/'' @ sub_topic s else sub_topic s)"

text \<open>A subscription is live if the tree holds it under the levels of its topic.\<close>

definition live :: "world \<Rightarrow> addr \<Rightarrow> bool" where
  "live w s \<longleftrightarrow>
     (\<exists>p. levels (sub_topic (sub_at w s)) = Inr p \<and> mem_granted (topicsMgr w) p (ISub s) \<noteq> None)"

definition tree_ok :: "world \<Rightarrow> bool" where
  "tree_ok w \<longleftrightarrow> mem_inv (topicsMgr w) \<and>
     (\<forall>p x q. mem_granted (topicsMgr w) p x = Some q \<longrightarrow>
        (\<exists>s. x = ISub s \<and> s < sub_next w \<and> levels (sub_topic (sub_at w s)) = Inr p \<and>
             sub_qos (sub_at w s) = q \<and> sub_client (sub_at w s) < client_next w))"

definition maps_ok :: "world \<Rightarrow> bool" where
  "maps_ok w \<longleftrightarrow>
     (\<forall>a < client_next w. \<forall>t s. gm_get (subMap (client_at w a)) t = Some s \<longrightarrow>
        s < sub_next w \<and> sub_client (sub_at w s) = a \<and> live w s \<and> sub_key (sub_at w s) = t)"

definition tracked_ok :: "world \<Rightarrow> bool" where
  "tracked_ok w \<longleftrightarrow>
     (\<forall>s. live w s \<and> ctyp (client_at w (sub_client (sub_at w s))) = CLIENT \<longrightarrow>
        gm_get (subMap (client_at w (sub_client (sub_at w s)))) (sub_key (sub_at w s)) = Some s)"

definition store_ok :: "world \<Rightarrow> bool" where
  "store_ok w \<longleftrightarrow> store_inv (sessionMgr w) \<and>
     (\<forall>i < sess_next (sessionMgr w). initted (sess_at (sessionMgr w) i)) \<and>
     (\<forall>a < client_next w. \<exists>i < sess_next (sessionMgr w). session (client_at w a) = Some i)"

definition tables_ok :: "world \<Rightarrow> bool" where
  "tables_ok w \<longleftrightarrow> clients w = [] \<and> remotes w = [] \<and> gm_ok (routes w) \<and>
     (\<forall>e \<in> set (routes w). snd e < client_next w \<and> ctyp (client_at w (snd e)) = ROUTER)"

definition sinv :: "world \<Rightarrow> bool" where
  "sinv w \<longleftrightarrow> tree_ok w \<and> maps_ok w \<and> tracked_ok w \<and> store_ok w \<and> tables_ok w"

lemmas sinv_defs = sinv_def tree_ok_def maps_ok_def tracked_ok_def store_ok_def tables_ok_def

text \<open>The structural part reads only some fields.\<close>

definition same_struct :: "world \<Rightarrow> world \<Rightarrow> bool" where
  "same_struct w w' \<longleftrightarrow>
     topicsMgr w' = topicsMgr w \<and> sub_at w' = sub_at w \<and> sub_next w' = sub_next w \<and>
     client_next w' = client_next w \<and> sessionMgr w' = sessionMgr w \<and> clients w' = clients w \<and>
     routes w' = routes w \<and> remotes w' = remotes w \<and> config w' = config w \<and>
     (\<forall>a. ctyp (client_at w' a) = ctyp (client_at w a) \<and> subMap (client_at w' a) = subMap (client_at w a) \<and>
          session (client_at w' a) = session (client_at w a))"

lemma same_struct_refl [simp]: "same_struct w w"
  by (simp add: same_struct_def)

lemma same_struct_trans: "same_struct w w' \<Longrightarrow> same_struct w' w'' \<Longrightarrow> same_struct w w''"
  by (simp add: same_struct_def)

lemma same_struct_live: "same_struct w w' \<Longrightarrow> live w' s = live w s"
  by (simp add: same_struct_def live_def)

lemma sinv_cong:
  assumes "same_struct w w'"
  shows "sinv w' = sinv w"
  using assms same_struct_live [OF assms]
  unfolding sinv_defs same_struct_def by simp

section \<open>The client part\<close>

text \<open>Packets in flight have QoS 1 and are stored under their own identifier.\<close>

definition inflight_ok :: "client \<Rightarrow> bool" where
  "inflight_ok c \<longleftrightarrow>
     (\<forall>(m, e) \<in> set (inflight c). p_MessageID (if_packet e) = m \<and> p_Qos (if_packet e) = QosAtLeastOnce)"

definition retry_pending :: "world \<Rightarrow> addr \<Rightarrow> nat" where
  "retry_pending w a = length (filter (\<lambda>e. snd e = RetryDelivery a) (timers w))"

text \<open>
  A client with a connection and packets in flight has its retry timer running, and a running
  retry timer is exactly one pending timer.
\<close>

definition cinv :: "world \<Rightarrow> addr \<Rightarrow> bool" where
  "cinv w a \<longleftrightarrow> started w a \<and> inflight_ok (client_at w a) \<and>
     (inflight (client_at w a) \<noteq> [] \<and> conn (client_at w a) \<longrightarrow> retryTimer (client_at w a)) \<and>
     retry_pending w a = (if retryTimer (client_at w a) then 1 else 0)"

text \<open>No retry timer is pending for an address that is not in use yet.\<close>

definition fresh :: "world \<Rightarrow> bool" where
  "fresh w \<longleftrightarrow> (\<forall>a. client_next w \<le> a \<longrightarrow> retry_pending w a = 0)"

definition winv :: "world \<Rightarrow> bool" where
  "winv w \<longleftrightarrow> sinv w \<and> fresh w \<and> (\<forall>a < client_next w. cinv w a)"

lemma winvI: "sinv w \<Longrightarrow> (\<And>a. a < client_next w \<Longrightarrow> cinv w a) \<Longrightarrow> fresh w \<Longrightarrow> winv w"
  by (simp add: winv_def)

lemma winvD:
  assumes "winv w"
  shows "sinv w" and "a < client_next w \<Longrightarrow> cinv w a" and "a < client_next w \<Longrightarrow> started w a"
    and "mem_inv (topicsMgr w)" and "fresh w"
  using assms by (auto simp: winv_def cinv_def sinv_def tree_ok_def)

text \<open>
  A change that keeps the structure and, client by client, the client part keeps the invariant.
\<close>

definition keeps :: "world \<Rightarrow> world \<Rightarrow> bool" where
  "keeps w w' \<longleftrightarrow> same_struct w w' \<and> (fresh w \<longrightarrow> fresh w') \<and> (\<forall>a < client_next w. cinv w a \<longrightarrow> cinv w' a)"

lemma keeps_winv: "keeps w w' \<Longrightarrow> winv w \<Longrightarrow> winv w'"
  using sinv_cong [of w w'] by (auto simp: keeps_def winv_def same_struct_def)

lemma keeps_both: "keeps w w' \<Longrightarrow> winv w \<Longrightarrow> a < client_next w \<Longrightarrow> winv w' \<and> a < client_next w'"
  using keeps_winv [of w w'] by (simp add: keeps_def same_struct_def)

lemma keeps_refl [simp]: "keeps w w"
  by (simp add: keeps_def)

lemma keeps_trans: "keeps w w' \<Longrightarrow> keeps w' w'' \<Longrightarrow> keeps w w''"
  using same_struct_trans [of w w' w''] by (auto simp: keeps_def same_struct_def)

lemma keeps_started: "keeps w w' \<Longrightarrow> a < client_next w \<Longrightarrow> cinv w a \<Longrightarrow> started w' a"
  by (simp add: keeps_def cinv_def)

lemma keeps_fold:
  assumes "\<And>x w. x \<in> set xs \<Longrightarrow> keeps w (f x w)"
  shows "keeps w (fold f xs w)"
  using assms
proof (induction xs arbitrary: w)
  case (Cons x xs)
  then have "keeps w (f x w)" and "keeps (f x w) (fold f xs (f x w))" by simp_all
  then show ?case using keeps_trans by simp
qed simp

text \<open>A change of one client object that touches neither the structure nor its timer.\<close>

definition soft :: "client \<Rightarrow> client \<Rightarrow> bool" where
  "soft c c' \<longleftrightarrow> ctyp c' = ctyp c \<and> subMap c' = subMap c \<and> session c' = session c \<and>
     retryTimer c' = retryTimer c \<and>
     (client_ok c \<and> status c \<noteq> NotStarted \<longrightarrow> client_ok c' \<and> status c' \<noteq> NotStarted) \<and>
     (inflight_ok c \<longrightarrow> inflight_ok c') \<and>
     (conn c' \<longrightarrow> conn c) \<and> (inflight c' \<noteq> [] \<longrightarrow> inflight c \<noteq> [])"

lemma keeps_upd:
  assumes "soft (client_at w a) (f (client_at w a))"
  shows "keeps w (upd_client a f w)"
  using assms unfolding keeps_def same_struct_def cinv_def soft_def retry_pending_def fresh_def
  by (auto simp: started_def)

lemma soft_refl [simp]: "soft c c"
  by (simp add: soft_def)

lemma soft_simps [simp]:
  "soft c (c\<lparr>wrote := x\<rparr>)" "soft c (c\<lparr>csubs := u, qoss := v\<rparr>)" "soft c (c\<lparr>rmsgs := r\<rparr>)"
  by (simp_all add: soft_def inflight_ok_def)

lemma keeps_Close [simp]: "keeps w (Close a w)"
proof (cases "status (client_at w a) = Disconnected")
  case False
  then show ?thesis
    by (auto simp: Close_def soft_def client_ok_def inflight_ok_def intro!: keeps_upd)
qed (simp add: Close_def)

lemma keeps_WritePacket [simp]: "keeps w (fst (WritePacket E a p w))"
  by (auto simp: WritePacket_def Let_def intro!: keeps_upd)

lemma keeps_expire [simp]: "keeps w (expireAwaitingRel E a w)"
  by (auto simp: expireAwaitingRel_def soft_def client_ok_def inflight_ok_def distinct_map_filter
      intro!: keeps_upd)

lemma keeps_pubRel [simp]: "keeps w (fst (pubRel a m w))"
  by (auto simp: pubRel_def soft_def client_ok_def inflight_ok_def split: option.splits
      intro!: keeps_upd)

section \<open>Timers\<close>

lemma retry_pending_add:
  "retry_pending (w\<lparr>timers := timers w @ [(d, t)]\<rparr>) a = retry_pending w a + (if t = RetryDelivery a then 1 else 0)"
  by (simp add: retry_pending_def)

lemma keeps_register [simp]: "keeps w (fst (registerPublishPacketId E a m w))"
proof (cases "snd (registerPublishPacketId E a m w)")
  case None
  let ?w1 = "upd_client a (\<lambda>c. c\<lparr>awaitingRel := gm_put m (now E) (awaitingRel c)\<rparr>) w"
  from None have "fst (registerPublishPacketId E a m w) =
      ?w1\<lparr>timers := timers ?w1 @ [(now E + awaitRelTimeout, ExpireAwaitingRel a)]\<rparr>"
    by (auto simp: registerPublishPacketId_def Let_def split: if_splits option.splits)
  moreover have "keeps w ?w1"
    by (auto simp: soft_def client_ok_def inflight_ok_def intro!: keeps_upd)
  moreover have "keeps v (v\<lparr>timers := timers v @ [(d, ExpireAwaitingRel a)]\<rparr>)" for v d
    by (simp add: keeps_def same_struct_def cinv_def started_def retry_pending_add fresh_def)
  ultimately show ?thesis using keeps_trans [of w ?w1] by presburger
next
  case (Some e)
  then show ?thesis
    by (auto simp: registerPublishPacketId_def Let_def split: if_splits option.splits)
qed

text \<open>Arming the retry timer restores what storing a packet in flight may have broken.\<close>

definition cinv_unarmed :: "world \<Rightarrow> addr \<Rightarrow> bool" where
  "cinv_unarmed w a \<longleftrightarrow> started w a \<and> inflight_ok (client_at w a) \<and>
     retry_pending w a = (if retryTimer (client_at w a) then 1 else 0)"

lemma cinv_unarmed: "cinv w a \<Longrightarrow> cinv_unarmed w a"
  by (simp add: cinv_def cinv_unarmed_def)

lemma ensureRetryTimer_pending:
  "retry_pending (ensureRetryTimer E a iv w) b =
     retry_pending w b + (if b = a \<and> \<not> retryTimer (client_at w a) \<and> length iv \<le> 1 then 1 else 0)"
  by (auto simp: ensureRetryTimer_def Let_def retry_pending_def)

lemma ensureRetryTimer_arms:
  assumes "cinv_unarmed w a" and "length iv \<le> 1"
  shows "cinv (ensureRetryTimer E a iv w) a"
  using assms
  by (auto simp: cinv_def cinv_unarmed_def ensureRetryTimer_client ensureRetryTimer_pending started_def
      inflight_ok_def)

lemma ensureRetryTimer_other:
  "b \<noteq> a \<Longrightarrow> cinv (ensureRetryTimer E a iv w) b = cinv w b"
  by (simp add: cinv_def ensureRetryTimer_client ensureRetryTimer_pending started_def)

lemma ensureRetryTimer_unarmed:
  "cinv_unarmed w a \<Longrightarrow> length iv \<le> 1 \<Longrightarrow> cinv_unarmed (ensureRetryTimer E a iv w) a"
  using ensureRetryTimer_arms cinv_unarmed by blast

lemma same_struct_delivery:
  assumes "delivery_frame w w'"
    and "\<And>b. ctyp (client_at w' b) = ctyp (client_at w b) \<and> subMap (client_at w' b) = subMap (client_at w b) \<and>
      session (client_at w' b) = session (client_at w b)"
  shows "same_struct w w'"
  using assms by (simp add: same_struct_def delivery_frameD)

section \<open>Delivery\<close>

lemma store_inflight_unarmed:
  assumes "cinv_unarmed w a" and "p_MessageID (if_packet e) = m" and "p_Qos (if_packet e) = QosAtLeastOnce"
  shows "cinv_unarmed (store_inflight a m e w) a"
proof -
  have "inflight_ok ((client_at w a)\<lparr>inflight := gm_put m e (inflight (client_at w a))\<rparr>)"
    if "gm_ok (inflight (client_at w a))"
    using assms that by (auto simp: inflight_ok_def cinv_unarmed_def dest!: gm_put_mem)
  with assms(1) show ?thesis
    by (simp add: cinv_unarmed_def store_inflight_def started_def retry_pending_def client_ok_def)
qed

lemma WritePacket_unarmed:
  "cinv_unarmed w a \<Longrightarrow> cinv_unarmed (fst (WritePacket E b p w)) a"
  using keeps_WritePacket [of w E b p]
  by (auto simp: WritePacket_def Close_def Let_def cinv_unarmed_def retry_pending_def started_def
      client_ok_def inflight_ok_def)

lemma cinv_store_other: "b \<noteq> a \<Longrightarrow> cinv (store_inflight a m e w) b = cinv w b"
  by (simp add: cinv_def store_inflight_def started_def retry_pending_def)

lemma ensureRetryTimer_fresh:
  "fresh w \<Longrightarrow> a < client_next w \<Longrightarrow> fresh (ensureRetryTimer E a iv w)"
  using delivery_frameD(7) [of w "ensureRetryTimer E a iv w"]
  by (auto simp: fresh_def ensureRetryTimer_pending)

lemma keeps_publish:
  assumes "sub_client (sub_at w s) < client_next w"
  shows "keeps w (publish E s p w)"
proof -
  let ?a = "sub_client (sub_at w s)"
  let ?e = "\<lparr> if_status = Publish, if_packet = p, if_timestamp = now E \<rparr>"
  let ?w1 = "store_inflight ?a (p_MessageID p) ?e w"
  let ?w2 = "fst (WritePacket E ?a (PublishPacket p) ?w1)"
  consider "p_Qos p = 0" | "p_Qos p = 1" | "p_Qos p \<noteq> 0" "p_Qos p \<noteq> 1" by blast
  then show ?thesis
  proof cases
    case 2
    then have pub: "publish E s p w = ensureRetryTimer E ?a [] ?w2" by (simp add: publish_def Let_def)
    have k: "keeps ?w1 ?w2" by simp
    then have s12: "same_struct ?w1 ?w2" by (simp add: keeps_def)
    have s01: "same_struct w ?w1" by (simp add: same_struct_def store_inflight_def)
    have "same_struct ?w2 (ensureRetryTimer E ?a [] ?w2)"
      by (rule same_struct_delivery) (simp_all add: ensureRetryTimer_client)
    with s01 s12 have "same_struct w (publish E s p w)" using same_struct_trans pub by metis
    moreover have "cinv (publish E s p w) b" if "cinv w b" "b < client_next w" for b
    proof (cases "b = ?a")
      case True
      with that 2 show ?thesis unfolding pub True
        by (intro ensureRetryTimer_arms WritePacket_unarmed store_inflight_unarmed)
          (simp_all add: cinv_unarmed)
    next
      case False
      then have "cinv ?w1 b" using that by (simp add: cinv_store_other)
      then have "cinv ?w2 b" using k that s01 by (simp add: keeps_def same_struct_def)
      with False show ?thesis unfolding pub by (simp add: ensureRetryTimer_other)
    qed
    moreover have "fresh (publish E s p w)" if "fresh w"
    proof -
      have "fresh ?w1" using that by (simp add: store_inflight_def fresh_def retry_pending_def)
      with k have "fresh ?w2" by (simp add: keeps_def)
      moreover have "?a < client_next ?w2" using assms s01 s12 by (simp add: same_struct_def)
      ultimately show ?thesis unfolding pub by (rule ensureRetryTimer_fresh)
    qed
    ultimately show ?thesis by (simp add: keeps_def)
  qed (simp_all add: publish_def)
qed

section \<open>Retransmission\<close>

definition retry_packet :: "inflightElement \<Rightarrow> control_packet" where
  "retry_packet e = (case if_status e of
     Publish \<Rightarrow> PublishPacket (if_packet e) | Pubrel \<Rightarrow> PubrelPacket (p_MessageID (if_packet e)))"

definition due :: "env \<Rightarrow> inflightElement \<Rightarrow> bool" where
  "due E e \<longleftrightarrow> now E - if_timestamp e \<ge> retryInterval"

lemma retry_element_conv:
  "retry_element E a (m, e) w =
     (if due E e
      then store_inflight a m (e\<lparr>if_timestamp := now E\<rparr>) (fst (WritePacket E a (retry_packet e) w))
      else ensureRetryTimer E a [retryInterval - (if now E - if_timestamp e < 0 then 0 else now E - if_timestamp e)] w)"
  by (simp add: retry_element_def due_def retry_packet_def Let_def split: InflightStatus.splits)

lemma retry_element_unarmed:
  assumes "cinv_unarmed w a" and "p_MessageID (if_packet e) = m" and "p_Qos (if_packet e) = QosAtLeastOnce"
  shows "cinv_unarmed (retry_element E a (m, e) w) a"
  using assms
  by (auto simp: retry_element_conv intro!: store_inflight_unarmed WritePacket_unarmed
      ensureRetryTimer_unarmed)

lemma WritePacket_cinv_other: "b \<noteq> a \<Longrightarrow> cinv (fst (WritePacket E a p w)) b = cinv w b"
  by (simp add: cinv_def started_def retry_pending_def write_frame)

lemma retry_element_other: "b \<noteq> a \<Longrightarrow> cinv w b \<Longrightarrow> cinv (retry_element E a (m, e) w) b"
  by (simp add: retry_element_conv cinv_store_other ensureRetryTimer_other WritePacket_cinv_other)

lemma retry_fold_unarmed:
  "cinv_unarmed w a \<Longrightarrow>
   \<forall>(m, e) \<in> set ies. p_MessageID (if_packet e) = m \<and> p_Qos (if_packet e) = QosAtLeastOnce \<Longrightarrow>
   cinv_unarmed (fold (retry_element E a) ies w) a"
  by (induction ies arbitrary: w) (auto simp: retry_element_unarmed)

lemma retry_fold_other: "b \<noteq> a \<Longrightarrow> cinv w b \<Longrightarrow> cinv (fold (retry_element E a) ies w) b"
  by (induction ies arbitrary: w) (auto intro: retry_element_other)

text \<open>The state when the retry timer of a client has fired: nothing is pending any more.\<close>

definition cinv_fired :: "world \<Rightarrow> addr \<Rightarrow> bool" where
  "cinv_fired w a \<longleftrightarrow> started w a \<and> inflight_ok (client_at w a) \<and> retry_pending w a = 0"

lemma resetRetryTimer_fired:
  "cinv_fired w a \<Longrightarrow> cinv_unarmed (resetRetryTimer a w) a \<and> \<not> retryTimer (client_at (resetRetryTimer a w) a)"
  by (auto simp: cinv_fired_def cinv_unarmed_def resetRetryTimer_def started_def retry_pending_def
      inflight_ok_def)

lemma reset_client:
  "inflight (client_at (resetRetryTimer a w) b) = inflight (client_at w b)"
  "conn (client_at (resetRetryTimer a w) b) = conn (client_at w b)"
  "wrote (client_at (resetRetryTimer a w) b) = wrote (client_at w b)"
  "write_state (client_at (resetRetryTimer a w) b) = write_state (client_at w b)"
  "ctyp (client_at (resetRetryTimer a w) b) = ctyp (client_at w b)"
  "subMap (client_at (resetRetryTimer a w) b) = subMap (client_at w b)"
  "session (client_at (resetRetryTimer a w) b) = session (client_at w b)"
  by (simp_all add: resetRetryTimer_def write_state_def)

lemma retryDelivery_cinv:
  assumes "cinv_fired w a"
  shows "cinv (retryDelivery E a w) a"
proof -
  let ?w0 = "resetRetryTimer a w"
  from resetRetryTimer_fired [OF assms] have un: "cinv_unarmed ?w0 a" by blast
  then have ies: "\<forall>(m, e) \<in> set (inflight (client_at ?w0 a)).
      p_MessageID (if_packet e) = m \<and> p_Qos (if_packet e) = QosAtLeastOnce"
    by (simp add: cinv_unarmed_def inflight_ok_def)
  show ?thesis
  proof (cases "conn (client_at ?w0 a) \<and> inflight (client_at ?w0 a) \<noteq> []")
    case True
    with retry_fold_unarmed [OF un ies] show ?thesis
      by (simp add: retryDelivery_def Let_def ensureRetryTimer_arms)
  next
    case False
    with un show ?thesis by (auto simp: retryDelivery_def Let_def cinv_def cinv_unarmed_def)
  qed
qed

lemma retryDelivery_other: "b \<noteq> a \<Longrightarrow> cinv w b \<Longrightarrow> cinv (retryDelivery E a w) b"
proof -
  assume b: "b \<noteq> a" "cinv w b"
  then have "cinv (resetRetryTimer a w) b"
    by (simp add: resetRetryTimer_def cinv_def started_def retry_pending_def)
  with b show ?thesis
    by (simp add: retryDelivery_def Let_def ensureRetryTimer_other retry_fold_other)
qed

lemma same_struct_retry_element: "same_struct w (retry_element E a ie w)"
proof (rule same_struct_delivery)
  fix b
  have "ctyp (client_at (fst (WritePacket E a p w)) b) = ctyp (client_at w b) \<and>
      subMap (client_at (fst (WritePacket E a p w)) b) = subMap (client_at w b) \<and>
      session (client_at (fst (WritePacket E a p w)) b) = session (client_at w b)" for p
    using keeps_WritePacket [of w E a p] by (simp add: keeps_def same_struct_def)
  then show "ctyp (client_at (retry_element E a ie w) b) = ctyp (client_at w b) \<and>
      subMap (client_at (retry_element E a ie w) b) = subMap (client_at w b) \<and>
      session (client_at (retry_element E a ie w) b) = session (client_at w b)"
    by (cases ie) (auto simp: retry_element_conv store_inflight_def ensureRetryTimer_client)
qed simp

lemma same_struct_fold:
  assumes "\<And>x w. same_struct w (f x w)"
  shows "same_struct w (fold f xs w)"
proof (induction xs arbitrary: w)
  case (Cons x xs)
  from same_struct_trans [OF assms Cons.IH] show ?case by simp
qed simp

lemma same_struct_retryDelivery: "same_struct w (retryDelivery E a w)"
proof -
  let ?w0 = "resetRetryTimer a w"
  let ?w1 = "fold (retry_element E a) (inflight (client_at ?w0 a)) ?w0"
  have s0: "same_struct w ?w0"
    by (rule same_struct_delivery) (simp_all add: reset_client)
  have s1: "same_struct ?w0 ?w1" by (rule same_struct_fold) (rule same_struct_retry_element)
  have "same_struct ?w1 (ensureRetryTimer E a [] ?w1)"
    by (rule same_struct_delivery) (simp_all add: ensureRetryTimer_client)
  from same_struct_trans [OF same_struct_trans [OF s0 s1] this] s0 show ?thesis
    by (simp add: retryDelivery_def Let_def)
qed

text \<open>What a retry writes: every due packet that can be written, once, in the map's order.\<close>

lemma retry_element_wrote:
  assumes "started w a"
  shows "wrote (client_at (retry_element E a (m, e) w) a) = wrote (client_at w a) @
      (if due E e \<and> can_write E a (retry_packet e) (client_at w a) then [retry_packet e] else [])"
    and "write_state (client_at (retry_element E a (m, e) w) a) = write_state (client_at w a)"
    and "started (retry_element E a (m, e) w) a"
  using assms
  by (auto simp: retry_element_conv store_inflight_def wrote_WritePacket ensureRetryTimer_client
      WritePacket_started [OF assms] started_def write_state_def client_ok_def)

lemma retry_fold_wrote:
  "started w a \<Longrightarrow>
   wrote (client_at (fold (retry_element E a) ies w) a) = wrote (client_at w a) @
     concat (map (\<lambda>(m, e). if due E e \<and> can_write E a (retry_packet e) (client_at w a)
       then [retry_packet e] else []) ies)"
proof (induction ies arbitrary: w)
  case (Cons ie ies)
  obtain m e where ie: "ie = (m, e)" by (cases ie)
  let ?w = "retry_element E a (m, e) w"
  have "can_write E a p (client_at ?w a) = can_write E a p (client_at w a)" for p
    using can_write_cong retry_element_wrote(2) [OF Cons.prems] by blast
  with Cons.IH [OF retry_element_wrote(3) [OF Cons.prems]] show ?case
    by (simp add: ie retry_element_wrote(1) [OF Cons.prems])
qed simp

lemma retryDelivery_wrote:
  assumes "started w a" and "conn (client_at w a)"
  shows "wrote (client_at (retryDelivery E a w) a) = wrote (client_at w a) @
     concat (map (\<lambda>(m, e). if due E e \<and> can_write E a (retry_packet e) (client_at w a)
       then [retry_packet e] else []) (inflight (client_at w a)))"
proof -
  let ?w0 = "resetRetryTimer a w"
  have st: "started ?w0 a" using assms(1) by (simp add: resetRetryTimer_def started_def)
  have "can_write E a p (client_at ?w0 a) = can_write E a p (client_at w a)" for p
    by (rule can_write_cong) (simp add: reset_client)
  with retry_fold_wrote [OF st] assms(2) show ?thesis
    by (simp add: retryDelivery_def Let_def reset_client ensureRetryTimer_client)
qed

section \<open>The tree of a well-formed state\<close>

lemma granted_sub:
  assumes "sinv w" and "mem_granted (topicsMgr w) p x \<noteq> None"
  obtains s where "x = ISub s" and "s < sub_next w" and "levels (sub_topic (sub_at w s)) = Inr p"
    and "sub_client (sub_at w s) < client_next w" and "live w s"
proof -
  from assms(2) obtain q where q: "mem_granted (topicsMgr w) p x = Some q" by blast
  with assms(1) obtain s where "x = ISub s" "s < sub_next w" "levels (sub_topic (sub_at w s)) = Inr p"
    "sub_client (sub_at w s) < client_next w"
    unfolding sinv_def tree_ok_def by blast
  moreover from this q have "live w s" by (auto simp: live_def)
  ultimately show ?thesis by (rule that)
qed

lemma sinv_retain:
  assumes "sinv w"
  shows "sinv (w\<lparr>topicsMgr := fst (Manager_Retain (topicsMgr w) p)\<rparr>)" (is "sinv ?w")
proof -
  have g: "mem_granted (topicsMgr ?w) = mem_granted (topicsMgr w)"
    by (simp add: topics_manager_defs mem.granted_retain)
  then have l: "live ?w s = live w s" for s by (simp add: live_def)
  have "mem_inv (topicsMgr ?w)"
    using assms by (simp add: topics_manager_defs mem.rinv_retain sinv_def tree_ok_def)
  with assms show ?thesis unfolding sinv_defs g l by simp
qed

section \<open>A small state\<close>

text \<open>
  A broker with two connected clients, the second of which holds a subscription to \<open>a/b\<close>: the
  state at which the properties below are instantiated.
\<close>

definition demo_info :: "string \<Rightarrow> info" where
  "demo_info i = \<lparr> clientId = i, username = ''u'', password = ''p'', keepalive = 60, willMsg = None,
     localIP = ''127.0.0.1'', remoteIP = ''127.0.0.1'' \<rparr>"

definition demo_client :: "addr \<Rightarrow> client" where
  "demo_client a = \<lparr> ctyp = CLIENT, broker = True, conn = True, conn_closed = False, wrote = [],
     info = demo_info (if a = 0 then ''c0'' else ''c1''), status = Connected, qoss = [], csubs = [],
     subMap = (if a = 0 then [] else [(''a/b'', 0)]), rmsgs = [],
     route = \<lparr> remoteID = [], remoteUrl = [] \<rparr>, routeSubMap = [], awaitingRel = [],
     maxAwaitingRel = 0, ctxDone = False, inflight = [], retryTimer = False,
     session = Some (if a = 0 then 0 else 1) \<rparr>"

definition demo_connect :: connect_packet where
  "demo_connect = \<lparr> c_ProtocolName = ''MQTT'', c_ProtocolVersion = 4, c_CleanSession = True,
     c_WillFlag = False, c_WillQos = 0, c_WillRetain = False, c_WillTopic = [], c_WillMessage = [],
     c_ClientIdentifier = ''c2'', c_Username = ''u'', c_Password = ''p'', c_Keepalive = 60, c_Qos = 0,
     c_Dup = False \<rparr>"

definition demo_store :: session_store where
  "demo_store = \<lparr> st = [(''c0'', 0), (''c1'', 1)],
     sess_at = (\<lambda>i. (newSession [])\<lparr>cmsg := Some demo_connect, sess_topics := Some [], initted := True\<rparr>),
     sess_next = 2 \<rparr>"

definition demo_publish :: "string \<Rightarrow> u8 \<Rightarrow> publish_packet" where
  "demo_publish t q = \<lparr> p_TopicName = t, p_MessageID = 7, p_Payload = ''on'', p_Qos = q,
     p_Dup = False, p_Retain = False \<rparr>"

definition demo_env :: env where
  "demo_env = \<lparr> now = 100, now_ms = 100000, write_ok = (\<lambda>_ _. True), rnd = 0,
     newPublish = demo_publish [] 0, newConnect = demo_connect, validate = (\<lambda>_. 0),
     checkConnect = (\<lambda>_ _. True), sess_rnd = None, rfc3339 = ''2021-01-01T00:00:00Z'',
     parse_info = (\<lambda>_. None) \<rparr>"

definition demo_world :: world where
  "demo_world = \<lparr> broker_id = ''b'', config = configured [], clients = [], routes = [], remotes = [], nodes = [],
     clusterPool = [], sessionMgr = demo_store,
     topicsMgr = fst (mem_Subscribe NewMemProvider ''a/b'' 1 (ISub 0)),
     client_at = demo_client, client_next = 2,
     sub_at = (\<lambda>_. \<lparr> sub_client = 1, sub_topic = ''a/b'', sub_qos = 1, share = False, groupName = [] \<rparr>),
     sub_next = 1, timers = [], pchan = [] \<rparr>"

lemma demo_world_simps [simp]:
  "client_next demo_world = 2" "client_at demo_world = demo_client" "clients demo_world = []"
  "routes demo_world = []" "remotes demo_world = []" "timers demo_world = []" "sub_next demo_world = 1"
  "sub_at demo_world s = \<lparr> sub_client = 1, sub_topic = ''a/b'', sub_qos = 1, share = False, groupName = [] \<rparr>"
  "sessionMgr demo_world = demo_store"
  by (simp_all add: demo_world_def)

lemma demo_levels: "levels ''a/b'' = Inr [''a'', ''b'']"
  by code_simp

lemma demo_granted:
  "mem_granted (topicsMgr demo_world) p x = (if p = [''a'', ''b''] \<and> x = ISub 0 then Some 1 else None)"
  using mem.granted_subscribe [OF mem_inv_new, of "ISub 0" "''a/b''" 1 p x]
  by (simp add: demo_world_def demo_levels ValidQos_def) (auto simp: mem_granted_def NewMemProvider_def)

lemma demo_live: "live demo_world s \<longleftrightarrow> s = 0"
  by (auto simp: live_def demo_granted demo_levels)

lemma demo_winv: "winv demo_world"
proof (rule winvI)
  have "mem_inv (topicsMgr demo_world)"
    using mem.inv_subscribe [OF mem_inv_new, of "ISub 0" "''a/b''" 1] by (simp add: demo_world_def)
  then have "tree_ok demo_world" by (simp add: tree_ok_def demo_granted demo_levels)
  moreover have "maps_ok demo_world" "tracked_ok demo_world" "tables_ok demo_world"
    by (auto simp: maps_ok_def tracked_ok_def tables_ok_def demo_live demo_client_def sub_key_def
        split: if_splits)
  moreover have "store_ok demo_world"
    by (auto simp: store_ok_def store_inv_def demo_store_def sess_ok_def newSession_def demo_client_def)
  ultimately show "sinv demo_world" by (simp add: sinv_def)
  show "cinv demo_world a" if "a < client_next demo_world" for a
    by (simp add: cinv_def started_def client_ok_def inflight_ok_def retry_pending_def demo_client_def)
  show "fresh demo_world" by (simp add: fresh_def retry_pending_def)
qed

text \<open>The same state with two routers in place of the end-user clients.\<close>

definition demo_routers :: world where
  "demo_routers = demo_world\<lparr>client_at := (\<lambda>a. (demo_client a)\<lparr>ctyp := ROUTER\<rparr>)\<rparr>"

lemma demo_routers_winv: "winv demo_routers"
proof (rule winvI)
  have l: "live demo_routers s = live demo_world s" for s
    by (simp add: live_def demo_routers_def)
  have "tree_ok demo_routers \<and> store_ok demo_routers"
    using winvD(1) [OF demo_winv]
    by (simp add: sinv_def tree_ok_def store_ok_def demo_routers_def)
  moreover have "maps_ok demo_routers" "tracked_ok demo_routers" "tables_ok demo_routers"
    unfolding maps_ok_def tracked_ok_def tables_ok_def l
    by (auto simp: demo_live demo_routers_def demo_client_def sub_key_def split: if_splits)
  ultimately show "sinv demo_routers" by (simp add: sinv_def)
  show "cinv demo_routers a" if "a < client_next demo_routers" for a
    by (simp add: cinv_def started_def client_ok_def inflight_ok_def retry_pending_def demo_client_def
        demo_routers_def)
  show "fresh demo_routers" by (simp add: fresh_def retry_pending_def demo_routers_def)
qed

end
