(* ===== verification/Info_Messages.thy ===== *)
theory Info_Messages
  imports Broker_State
begin

text \<open>
  Messages between brokers (\<open>broker/info.go\<close>): the broker's own info message, the CONNECT
  sent to another broker, the keep-alive pings, and the handling of a received info message.
\<close>

definition NewInfo :: "env \<Rightarrow> string \<Rightarrow> string \<Rightarrow> bool \<Rightarrow> publish_packet" where
  "NewInfo E sid url isforword =
     (newPublish E)\<lparr>p_Qos := 0, p_TopicName := BrokerInfoTopic, p_Retain := False,
        p_Payload := ''{\"brokerID\": \"'' @ sid @ ''\", \"brokerUrl\": \"'' @ url @ ''\"}''\<rparr>"

definition SendInfo :: "env \<Rightarrow> addr \<Rightarrow> world \<Rightarrow> world outcome" where
  "SendInfo E a w =
     (let c = client_at w a
      in if status c = Disconnected then Ret w
         else if \<not> broker c then Panic ''nil pointer''
         else let url = localIP (info c) @ '':'' @ ClusterPort (config w)
              in Ret (fst (WritePacket E a (PublishPacket (NewInfo E (broker_id w) url False)) w)))"

text \<open>
  \<open>StartPing\<close>: its ticker fires every 50 seconds.  One turn of its loop takes the event that
  the \<open>select\<close> chose; the result says whether the loop goes on.
\<close>

datatype ping_event = Tick | CtxDone

definition ping_turn :: "env \<Rightarrow> addr \<Rightarrow> ping_event \<Rightarrow> world \<Rightarrow> world \<times> bool" where
  "ping_turn E a ev w =
     (case ev of
        Tick \<Rightarrow> (case WritePacket E a PingreqPacket w of
                    (w', None) \<Rightarrow> (w', True)
                  | (w', Some _) \<Rightarrow> (Close a w', True))
      | CtxDone \<Rightarrow> (w, False))"

text \<open>The loop over the events of a run: it ends with the first \<open>CtxDone\<close>.\<close>

fun StartPing :: "(env \<times> ping_event) list \<Rightarrow> addr \<Rightarrow> world \<Rightarrow> world \<times> bool" where
  "StartPing [] a w = (w, True)"
| "StartPing ((E, ev) # evs) a w =
     (let (w', more) = ping_turn E a ev w in if more then StartPing evs a w' else (w', False))"

definition SendConnect :: "env \<Rightarrow> addr \<Rightarrow> world \<Rightarrow> world" where
  "SendConnect E a w =
     (let c = client_at w a
      in if status c \<noteq> Connected then w
         else let m = (newConnect E)\<lparr>c_ProtocolName := ''MQIsdp'', c_ProtocolVersion := 3,
                    c_CleanSession := True, c_ClientIdentifier := clientId (info c),
                    c_Keepalive := 60\<rparr>
              in fst (WritePacket E a (ConnectPacket m) w))"

definition ProcessInfo :: "env \<Rightarrow> addr \<Rightarrow> publish_packet \<Rightarrow> world \<Rightarrow> world outcome" where
  "ProcessInfo E a packet w =
     (let c = client_at w a
      in if \<not> conn c then Ret w
         else case parse_info E (p_Payload packet) of
                None \<Rightarrow> Ret w
              | Some None \<Rightarrow> Ret w
              | Some (Some rs) \<Rightarrow>
                  if \<not> broker c then Panic ''nil pointer'' else Ret (w\<lparr>nodes := rs\<rparr>))"

section \<open>Pings\<close>

text \<open>After the first failed ping the client is closed, and further ticks write nothing.\<close>

lemma ping_tick_closed: "status (client_at w a) = Disconnected \<Longrightarrow> ping_turn E a Tick w = (w, True)"
  by (simp add: ping_turn_def WritePacket_def)

lemma StartPing_closed:
  "status (client_at w a) = Disconnected \<Longrightarrow> fst (StartPing evs a w) = w"
proof (induction evs)
  case (Cons e evs)
  obtain E ev where e: "e = (E, ev)" by (cases e)
  show ?case
  proof (cases ev)
    case Tick
    with Cons e show ?thesis by (simp add: ping_tick_closed)
  next
    case CtxDone
    with e show ?thesis by (simp add: ping_turn_def)
  qed
qed simp

lemma ping_turn_wrote:
  "wrote (client_at (fst (ping_turn E a Tick w)) a) =
     wrote (client_at w a) @ (if can_write E a PingreqPacket (client_at w a) then [PingreqPacket] else [])"
proof -
  have "wrote (client_at (Close a v) a) = wrote (client_at v a)" for v
    by (simp add: Close_def)
  then show ?thesis
    using wrote_WritePacket [of E a PingreqPacket w a]
    by (auto simp: ping_turn_def split: prod.splits option.splits)
qed

end
