(* ===== verification/Publish_Handlers.thy ===== *)
theory Publish_Handlers
  imports World_Invariant Info_Messages
begin

text \<open>
  Handling of a received PUBLISH packet (\<open>broker/publish.go\<close>): acknowledgement, forwarding to
  the message queue of the bridge, retaining, and delivery to the matching subscriptions.
\<close>

section \<open>Definitions\<close>

text \<open>\<open>strings.Contains\<close>.\<close>

primrec contains :: "string \<Rightarrow> string \<Rightarrow> bool" where
  "contains [] substr = (substr = [])"
| "contains (c # cs) substr = (take (length substr) (c # cs) = substr \<or> contains cs substr)"

text \<open>
  The bridge's channel, as the sequence of the messages sent on it.  It has ten places; a sender
  that finds them taken waits for the producer.
\<close>

definition PublishToStream :: "QueueMessage \<Rightarrow> world \<Rightarrow> world" where
  "PublishToStream msg w = w\<lparr>pchan := pchan w @ [msg]\<rparr>"

text \<open>The loop over the subscribers: \<open>i\<close> is the index of the first one left.\<close>

fun publish_loop ::
  "env \<Rightarrow> client_type \<Rightarrow> publish_packet \<Rightarrow> nat \<Rightarrow> iface list \<Rightarrow> world \<times> nat list \<Rightarrow> world \<times> nat list"
where
  "publish_loop E ty packet i [] (w, qsub) = (w, qsub)"
| "publish_loop E ty packet i (sub # rest) (w, qsub) =
     publish_loop E ty packet (Suc i) rest
       (case sub of
          ISub s \<Rightarrow>
            (if ctyp (client_at w (sub_client (sub_at w s))) = ROUTER \<and> ty \<noteq> CLIENT then (w, qsub)
             else if share (sub_at w s) then (w, qsub @ [i])
             else (publish E s packet w, qsub))
        | _ \<Rightarrow> (w, qsub))"

definition ProcessPublishMessage :: "env \<Rightarrow> addr \<Rightarrow> publish_packet \<Rightarrow> world \<Rightarrow> world outcome" where
  "ProcessPublishMessage E a packet w =
     (let c = client_at w a
      in if \<not> broker c then Ret w
         else
           let w1 = (if p_Retain packet
                     then w\<lparr>topicsMgr := fst (Manager_Retain (topicsMgr w) packet)\<rparr> else w);
               (found, err) = Manager_Subscribers (topicsMgr w1) (p_TopicName packet) (p_Qos packet)
                                (csubs c, qoss c);
               w2 = upd_client a (\<lambda>c. c\<lparr>csubs := fst found, qoss := snd found\<rparr>) w1
           in if err \<noteq> None then Ret w2
              else if length (csubs (client_at w2 a)) = 0 then Ret w2
              else
                let (w3, qsub) = publish_loop E (ctyp c) packet 0 (csubs (client_at w2 a)) (w2, [])
                in if length qsub > 0
                   then let idx = rnd E mod length qsub;
                            l = csubs (client_at w3 a)
                        in if qsub ! idx < length l
                           then (case l ! (qsub ! idx) of
                                   ISub s \<Rightarrow> Ret (publish E s packet w3)
                                 | _ \<Rightarrow> Panic ''interface conversion'')
                           else Panic ''index out of range''
                   else Ret w3)"

definition processRemotePublish :: "env \<Rightarrow> addr \<Rightarrow> publish_packet \<Rightarrow> world \<Rightarrow> world outcome" where
  "processRemotePublish E a packet w =
     (if status (client_at w a) = Disconnected then Ret w
      else if p_TopicName packet = BrokerInfoTopic then ProcessInfo E a packet w
      else Ret w)"

definition processRouterPublish :: "env \<Rightarrow> addr \<Rightarrow> publish_packet \<Rightarrow> world \<Rightarrow> world outcome" where
  "processRouterPublish E a packet w =
     (if status (client_at w a) = Disconnected then Ret w
      else if p_Qos packet = QosAtMostOnce then ProcessPublishMessage E a packet w
      else if p_Qos packet = QosAtLeastOnce then
        (case WritePacket E a (PubackPacket (p_MessageID packet)) w of
           (w', Some _) \<Rightarrow> Ret w'
         | (w', None) \<Rightarrow> ProcessPublishMessage E a packet w')
      else Ret w)"

definition processClientPublish :: "env \<Rightarrow> addr \<Rightarrow> publish_packet \<Rightarrow> world \<Rightarrow> world outcome" where
  "processClientPublish E a packet w0 =
     (let c = client_at w0 a;
          topic = p_TopicName packet;
          isConfig = contains topic ''config'';
          isCommand = contains topic ''command''
      in if \<not> broker c then Panic ''nil pointer''
         else
           let bridgeEnabled = BridgeEnabled (config w0);
               w = (if \<not> isConfig \<and> \<not> isCommand \<and> bridgeEnabled
                    then PublishToStream \<lparr> qm_ClientId = clientId (info c), qm_Topic = topic,
                           qm_Payload = p_Payload packet, qm_Timestamp = now_ms E \<rparr> w0
                    else w0)
           in if p_Qos packet = QosAtMostOnce then ProcessPublishMessage E a packet w
              else if p_Qos packet = QosAtLeastOnce then
                (case WritePacket E a (PubackPacket (p_MessageID packet)) w of
                   (w', Some _) \<Rightarrow> Ret w'
                 | (w', None) \<Rightarrow> ProcessPublishMessage E a packet w')
              else if p_Qos packet = QosExactlyOnce then
                (case registerPublishPacketId E a (p_MessageID packet) w of
                   (w', Some _) \<Rightarrow> Ret w'
                 | (w', None) \<Rightarrow>
                     (case WritePacket E a (PubrecPacket (p_MessageID packet)) w' of
                        (w'', Some _) \<Rightarrow> Ret w''
                      | (w'', None) \<Rightarrow> ProcessPublishMessage E a packet w''))
              else Ret w)"

definition ProcessPublish :: "env \<Rightarrow> addr \<Rightarrow> publish_packet \<Rightarrow> world \<Rightarrow> world outcome" where
  "ProcessPublish E a packet w =
     (case ctyp (client_at w a) of
        CLIENT \<Rightarrow> processClientPublish E a packet w
      | ROUTER \<Rightarrow> processRouterPublish E a packet w
      | CLUSTER \<Rightarrow> processRemotePublish E a packet w
      | REMOTE \<Rightarrow> Ret w)"

section \<open>The delivery loop\<close>

text \<open>What deliveries leave alone: everything the loop's decisions depend on.\<close>

definition same_shape :: "world \<Rightarrow> world \<Rightarrow> bool" where
  "same_shape w w' \<longleftrightarrow> delivery_frame w w' \<and>
     (\<forall>b. ctyp (client_at w' b) = ctyp (client_at w b) \<and> csubs (client_at w' b) = csubs (client_at w b) \<and>
          write_state (client_at w' b) = write_state (client_at w b) \<and> started w' b = started w b)"

lemma same_shape_refl [simp]: "same_shape w w"
  by (simp add: same_shape_def)

lemma same_shape_trans: "same_shape w w' \<Longrightarrow> same_shape w' w'' \<Longrightarrow> same_shape w w''"
  using delivery_frame_trans by (auto simp: same_shape_def)

lemma same_shapeD:
  assumes "same_shape w w'"
  shows "sub_at w' = sub_at w" "ctyp (client_at w' b) = ctyp (client_at w b)"
    "csubs (client_at w' b) = csubs (client_at w b)"
    "started w' b = started w b"
    "can_write E b p (client_at w' b) = can_write E b p (client_at w b)"
proof -
  from assms have f: "delivery_frame w w'" and
    c: "\<And>b. ctyp (client_at w' b) = ctyp (client_at w b) \<and> csubs (client_at w' b) = csubs (client_at w b) \<and>
          write_state (client_at w' b) = write_state (client_at w b) \<and> started w' b = started w b"
    unfolding same_shape_def by blast+
  show "sub_at w' = sub_at w" using f by (rule delivery_frameD)
  show "ctyp (client_at w' b) = ctyp (client_at w b)" "csubs (client_at w' b) = csubs (client_at w b)"
    "started w' b = started w b" using c [of b] by blast+
  show "can_write E b p (client_at w' b) = can_write E b p (client_at w b)"
    by (rule can_write_cong) (use c [of b] in blast)
qed

lemma same_shape_publish:
  assumes "started w (sub_client (sub_at w s))"
  shows "same_shape w (publish E s p w)"
  using assms
  by (simp add: same_shape_def write_state_publish started_publish publish_client)

text \<open>A subscription gets the packet directly, is a candidate of the shared draw, or is skipped.\<close>

definition eligible :: "world \<Rightarrow> client_type \<Rightarrow> addr \<Rightarrow> bool" where
  "eligible w ty s \<longleftrightarrow> \<not> (ctyp (client_at w (sub_client (sub_at w s))) = ROUTER \<and> ty \<noteq> CLIENT)"

definition direct_sub :: "world \<Rightarrow> client_type \<Rightarrow> iface \<Rightarrow> bool" where
  "direct_sub w ty x = (case x of ISub s \<Rightarrow> eligible w ty s \<and> \<not> share (sub_at w s) | _ \<Rightarrow> False)"

definition shared_sub :: "world \<Rightarrow> client_type \<Rightarrow> iface \<Rightarrow> bool" where
  "shared_sub w ty x = (case x of ISub s \<Rightarrow> eligible w ty s \<and> share (sub_at w s) | _ \<Rightarrow> False)"

definition of_client :: "world \<Rightarrow> addr \<Rightarrow> iface \<Rightarrow> bool" where
  "of_client w b x = (case x of ISub s \<Rightarrow> sub_client (sub_at w s) = b | _ \<Rightarrow> False)"

lemma of_client_ISub [simp]: "of_client w b (ISub s) \<longleftrightarrow> sub_client (sub_at w s) = b"
  by (simp add: of_client_def)

definition subs_started :: "world \<Rightarrow> iface list \<Rightarrow> bool" where
  "subs_started w xs \<longleftrightarrow> (\<forall>s. ISub s \<in> set xs \<longrightarrow> started w (sub_client (sub_at w s)))"

lemma same_shape_preds:
  assumes "same_shape w w'"
  shows "direct_sub w' ty x = direct_sub w ty x" "shared_sub w' ty x = shared_sub w ty x"
    "of_client w' b x = of_client w b x" "subs_started w' xs = subs_started w xs"
  using same_shapeD [OF assms]
  by (auto simp: direct_sub_def shared_sub_def eligible_def of_client_def subs_started_def
      split: iface.splits)

text \<open>What a client receives: one copy per direct subscription, if it can be written to.\<close>

definition copies :: "env \<Rightarrow> world \<Rightarrow> publish_packet \<Rightarrow> addr \<Rightarrow> nat \<Rightarrow> control_packet list" where
  "copies E w p b n =
     (if (p_Qos p = 0 \<or> p_Qos p = 1) \<and> can_write E b (PublishPacket p) (client_at w b)
      then replicate n (PublishPacket p) else [])"

lemma copies_add: "copies E w p b (m + n) = copies E w p b m @ copies E w p b n"
  by (simp add: copies_def replicate_add)

lemma copies_0 [simp]: "copies E w p b 0 = []"
  by (simp add: copies_def)

lemma copies_shape: "same_shape w w' \<Longrightarrow> copies E w' p b n = copies E w p b n"
  by (simp add: copies_def same_shapeD)

lemma wrote_publish_copies:
  "wrote (client_at (publish E s p w) b) =
     wrote (client_at w b) @ copies E w p b (if sub_client (sub_at w s) = b then 1 else 0)"
  by (auto simp: wrote_publish copies_def)

lemma publish_loop_step:
  assumes "subs_started w (x # xs)"
  obtains w' q' where "publish_loop E ty p i (x # xs) (w, q) = publish_loop E ty p (Suc i) xs (w', q')"
    and "same_shape w w'" and "q' = q @ (if shared_sub w ty x then [i] else [])"
    and "\<And>b. wrote (client_at w' b) = wrote (client_at w b) @
           copies E w p b (if direct_sub w ty x \<and> of_client w b x then 1 else 0)"
proof (cases "direct_sub w ty x")
  case True
  then obtain s where s: "x = ISub s" "eligible w ty s" "\<not> share (sub_at w s)"
    by (auto simp: direct_sub_def split: iface.splits)
  with assms have st: "started w (sub_client (sub_at w s))" by (simp add: subs_started_def)
  show ?thesis
    by (rule that [of "publish E s p w" q])
      (use s same_shape_publish [OF st, of E p] True in
        \<open>auto simp: wrote_publish_copies shared_sub_def of_client_def eligible_def\<close>)
next
  case False
  then show ?thesis
    by (intro that [of w "q @ (if shared_sub w ty x then [i] else [])"])
      (auto simp: direct_sub_def shared_sub_def eligible_def split: iface.splits)
qed

definition shared_at :: "world \<Rightarrow> client_type \<Rightarrow> nat \<Rightarrow> iface list \<Rightarrow> nat list" where
  "shared_at w ty i xs = map fst (filter (\<lambda>(j, x). shared_sub w ty x) (enumerate i xs))"

lemma publish_loop_effect:
  "subs_started w xs \<Longrightarrow> publish_loop E ty p i xs (w, q) = (w', q') \<Longrightarrow>
   same_shape w w' \<and> q' = q @ shared_at w ty i xs \<and>
   (\<forall>b. wrote (client_at w' b) = wrote (client_at w b) @
      copies E w p b (length (filter (\<lambda>x. direct_sub w ty x \<and> of_client w b x) xs)))"
proof (induction xs arbitrary: i w q)
  case Nil
  then show ?case by (simp add: shared_at_def)
next
  case (Cons x xs)
  obtain w1 q1 where
    step: "publish_loop E ty p i (x # xs) (w, q) = publish_loop E ty p (Suc i) xs (w1, q1)"
    and shape: "same_shape w w1" and q1: "q1 = q @ (if shared_sub w ty x then [i] else [])"
    and wrote1: "\<And>b. wrote (client_at w1 b) = wrote (client_at w b) @
           copies E w p b (if direct_sub w ty x \<and> of_client w b x then 1 else 0)"
    by (rule publish_loop_step [OF Cons.prems(1), of E ty p i q]) (rule that)
  have "subs_started w1 xs"
    using Cons.prems(1) same_shape_preds(4) [OF shape, of xs] by (simp add: subs_started_def)
  moreover have "publish_loop E ty p (Suc i) xs (w1, q1) = (w', q')" using Cons.prems(2) step by simp
  ultimately have IH: "same_shape w1 w'" "q' = q1 @ shared_at w1 ty (Suc i) xs"
    "\<And>b. wrote (client_at w' b) = wrote (client_at w1 b) @
      copies E w1 p b (length (filter (\<lambda>x. direct_sub w1 ty x \<and> of_client w1 b x) xs))"
    using Cons.IH [of w1 "Suc i" q1] by simp_all
  have "q' = q @ shared_at w ty i (x # xs)"
    using IH(2) q1 by (simp add: shared_at_def same_shape_preds [OF shape])
  moreover have "wrote (client_at w' b) = wrote (client_at w b) @
      copies E w p b (length (filter (\<lambda>x. direct_sub w ty x \<and> of_client w b x) (x # xs)))" for b
    using copies_add [of E w p b 1 "length (filter (\<lambda>x. direct_sub w ty x \<and> of_client w b x) xs)"]
    by (simp add: IH(3) wrote1 same_shape_preds [OF shape] copies_shape [OF shape])
  ultimately show ?case using same_shape_trans [OF shape IH(1)] by blast
qed

lemma shared_at_nth: "j \<in> set (shared_at w ty 0 xs) \<Longrightarrow> j < length xs \<and> shared_sub w ty (xs ! j)"
  by (auto simp: shared_at_def in_set_enumerate_eq)

section \<open>ProcessPublishMessage\<close>

text \<open>The state after the retain step and after the lookup of the subscribers.\<close>

definition retain_world :: "publish_packet \<Rightarrow> world \<Rightarrow> world" where
  "retain_world p w =
     (if p_Retain p then w\<lparr>topicsMgr := fst (Manager_Retain (topicsMgr w) p)\<rparr> else w)"

definition lookup_world :: "addr \<Rightarrow> publish_packet \<Rightarrow> iface list \<times> u8 list \<Rightarrow> world \<Rightarrow> world" where
  "lookup_world a p found w =
     upd_client a (\<lambda>c. c\<lparr>csubs := fst found, qoss := snd found\<rparr>) (retain_world p w)"

lemma retain_world_frame [simp]:
  "client_at (retain_world p w) = client_at w" "sub_at (retain_world p w) = sub_at w"
  "config (retain_world p w) = config w" "clients (retain_world p w) = clients w"
  "routes (retain_world p w) = routes w" "remotes (retain_world p w) = remotes w"
  "sessionMgr (retain_world p w) = sessionMgr w" "client_next (retain_world p w) = client_next w"
  "sub_next (retain_world p w) = sub_next w" "pchan (retain_world p w) = pchan w"
  "timers (retain_world p w) = timers w" "nodes (retain_world p w) = nodes w"
  "clusterPool (retain_world p w) = clusterPool w" "broker_id (retain_world p w) = broker_id w"
  by (simp_all add: retain_world_def)

lemma lookup_world_frame [simp]:
  "sub_at (lookup_world a p f w) = sub_at w"
  "client_at (lookup_world a p f w) b =
     (if b = a then (client_at w a)\<lparr>csubs := fst f, qoss := snd f\<rparr> else client_at w b)"
  "topicsMgr (lookup_world a p f w) = topicsMgr (retain_world p w)"
  by (simp_all add: lookup_world_def)

lemma lookup_world_client:
  "ctyp (client_at (lookup_world a p f w) b) = ctyp (client_at w b)"
  "can_write E b q (client_at (lookup_world a p f w) b) = can_write E b q (client_at w b)"
  "started (lookup_world a p f w) b = started w b"
  "eligible (lookup_world a p f w) ty s = eligible w ty s"
  by (simp_all add: can_write_def started_def eligible_def)

lemma lookup_world_preds [simp]:
  "started (lookup_world a p f w) b = started w b"
  "direct_sub (lookup_world a p f w) ty x = direct_sub w ty x"
  "shared_sub (lookup_world a p f w) ty x = shared_sub w ty x"
  "of_client (lookup_world a p f w) b x = of_client w b x"
  by (simp_all add: lookup_world_client(3,4) direct_sub_def shared_sub_def of_client_def
      split: iface.splits)

lemma lookup_world_lists [simp]:
  "subs_started (lookup_world a p f w) xs = subs_started w xs"
  "copies E (lookup_world a p f w) q b n = copies E w q b n"
  "shared_at (lookup_world a p f w) ty i xs = shared_at w ty i xs"
  by (simp_all add: lookup_world_client(2) subs_started_def copies_def shared_at_def
      del: lookup_world_frame(2))

text \<open>The shared subscription that the draw picks.\<close>

definition shared_pick :: "env \<Rightarrow> world \<Rightarrow> client_type \<Rightarrow> iface list \<Rightarrow> iface option" where
  "shared_pick E w ty fs =
     (let q = shared_at w ty 0 fs in if q = [] then None else Some (fs ! (q ! (rnd E mod length q))))"

lemma shared_pick_sub:
  assumes "shared_pick E w ty fs = Some x"
  shows "x \<in> set fs \<and> shared_sub w ty x"
proof -
  let ?q = "shared_at w ty 0 fs"
  from assms have "?q \<noteq> []" and x: "x = fs ! (?q ! (rnd E mod length ?q))"
    by (auto simp: shared_pick_def Let_def split: if_splits)
  then have "?q ! (rnd E mod length ?q) \<in> set ?q" by simp
  from shared_at_nth [OF this] x show ?thesis by simp
qed

text \<open>How many copies a client gets: one per direct subscription and one if the draw picks it.\<close>

definition deliveries :: "env \<Rightarrow> world \<Rightarrow> client_type \<Rightarrow> iface list \<Rightarrow> addr \<Rightarrow> nat" where
  "deliveries E w ty fs b =
     length (filter (\<lambda>x. direct_sub w ty x \<and> of_client w b x) fs) +
     (case shared_pick E w ty fs of None \<Rightarrow> 0 | Some x \<Rightarrow> if of_client w b x then 1 else 0)"

lemma ProcessPublishMessage_effect:
  assumes "broker (client_at w a)"
    and found: "Manager_Subscribers (topicsMgr (retain_world p w)) (p_TopicName p) (p_Qos p)
           (csubs (client_at w a), qoss (client_at w a)) = ((fs, qs), None)"
    and st: "subs_started w fs"
  obtains w' where "ProcessPublishMessage E a p w = Ret w'"
    and "same_shape (lookup_world a p (fs, qs) w) w'"
    and "\<And>b. wrote (client_at w' b) = wrote (client_at w b) @
           copies E w p b (deliveries E w (ctyp (client_at w a)) fs b)"
proof -
  let ?w2 = "lookup_world a p (fs, qs) w" and ?ty = "ctyp (client_at w a)"
  let ?q = "shared_at w ?ty 0 fs"
  obtain w3 q where loop: "publish_loop E ?ty p 0 fs (?w2, []) = (w3, q)" by fastforce
  from publish_loop_effect [OF _ loop] st have shape: "same_shape ?w2 w3" and q: "q = ?q"
    and w3: "\<And>b. wrote (client_at w3 b) = wrote (client_at w b) @
        copies E w p b (length (filter (\<lambda>x. direct_sub w ?ty x \<and> of_client w b x) fs))"
    by auto
  have step: "ProcessPublishMessage E a p w =
      (if fs = [] then Ret ?w2
       else if q \<noteq> [] then
         (let idx = rnd E mod length q; l = csubs (client_at w3 a)
          in if q ! idx < length l
             then (case l ! (q ! idx) of ISub s \<Rightarrow> Ret (publish E s p w3) | _ \<Rightarrow> Panic ''interface conversion'')
             else Panic ''index out of range'')
       else Ret w3)"
    using assms(1) found loop
    by (simp add: ProcessPublishMessage_def lookup_world_def retain_world_def Let_def cong: if_cong)
  have subs3: "csubs (client_at w3 a) = fs" using same_shapeD(3) [OF shape, of a] by simp
  show ?thesis
  proof (cases "?q = []")
    case True
    with step w3 shape q loop show ?thesis
      by (intro that [of w3]) (auto simp: deliveries_def shared_pick_def)
  next
    case False
    then have ne: "fs \<noteq> []" by (auto simp: shared_at_def)
    let ?x = "fs ! (?q ! (rnd E mod length ?q))"
    from False have pick: "shared_pick E w ?ty fs = Some ?x" by (simp add: shared_pick_def Let_def)
    from shared_pick_sub [OF pick] obtain s where s: "?x = ISub s" and mem: "ISub s \<in> set fs"
      by (auto simp: shared_sub_def split: iface.splits)
    have "?q ! (rnd E mod length ?q) \<in> set ?q" using False by simp
    then have lt: "?q ! (rnd E mod length ?q) < length fs" using shared_at_nth by blast
    have ret: "ProcessPublishMessage E a p w = Ret (publish E s p w3)"
      unfolding step using ne False lt s by (simp add: subs3 q Let_def)
    have "started w3 (sub_client (sub_at w3 s))"
      using st mem by (simp add: same_shapeD [OF shape] subs_started_def)
    from same_shape_trans [OF shape same_shape_publish [OF this]]
    have shape': "same_shape ?w2 (publish E s p w3)" .
    have "wrote (client_at (publish E s p w3) b) = wrote (client_at w b) @
        copies E w p b (deliveries E w ?ty fs b)" for b
      using copies_shape [OF shape, of E p b]
      by (simp add: wrote_publish_copies w3 deliveries_def pick s of_client_def copies_add
          same_shapeD [OF shape])
    with ret shape' show ?thesis by (rule that)
  qed
qed

section \<open>The invariant\<close>

definition subs_known :: "world \<Rightarrow> iface list \<Rightarrow> bool" where
  "subs_known w fs \<longleftrightarrow> (\<forall>s. ISub s \<in> set fs \<longrightarrow> sub_client (sub_at w s) < client_next w)"

lemma subs_known_cong: "same_struct w w' \<Longrightarrow> subs_known w' fs = subs_known w fs"
  by (simp add: subs_known_def same_struct_def)

lemma keeps_publish_loop: "subs_known w xs \<Longrightarrow> keeps w (fst (publish_loop E ty p i xs (w, q)))"
proof (induction xs arbitrary: i w q)
  case (Cons x xs)
  have next_w: "keeps w (fst (publish_loop E ty p (Suc i) xs (publish E s p w, q)))" if "x = ISub s" for s
  proof -
    have k: "keeps w (publish E s p w)" using Cons.prems that by (intro keeps_publish) (simp add: subs_known_def)
    then have "subs_known (publish E s p w) xs"
      using Cons.prems subs_known_cong by (auto simp: keeps_def subs_known_def same_struct_def)
    from keeps_trans [OF k Cons.IH [OF this]] show ?thesis .
  qed
  have "subs_known w xs" using Cons.prems by (simp add: subs_known_def)
  then show ?case using Cons.IH next_w by (cases x) simp_all
qed simp

lemma winv_lookup_world:
  assumes "winv w"
  shows "winv (lookup_world a p f w)"
proof -
  have "sinv (retain_world p w)" using winvD(1) [OF assms] by (simp add: retain_world_def sinv_retain)
  then have "winv (retain_world p w)"
    using assms by (simp add: winv_def cinv_def started_def retry_pending_def fresh_def)
  moreover have "keeps (retain_world p w) (lookup_world a p f w)"
    unfolding lookup_world_def by (rule keeps_upd) simp
  ultimately show ?thesis using keeps_winv by blast
qed

lemma found_subs:
  assumes "winv w" and "Manager_Subscribers (topicsMgr (retain_world p w)) t q acc = ((fs, qs), None)"
    and "x \<in> set fs"
  obtains s where "x = ISub s" and "live w s" and "sub_client (sub_at w s) < client_next w"
    and "started w (sub_client (sub_at w s))"
proof -
  have g: "mem_granted (topicsMgr (retain_world p w)) = mem_granted (topicsMgr w)"
    by (simp add: retain_world_def topics_manager_defs mem.granted_retain)
  have "mem_inv (topicsMgr (retain_world p w))"
    using winvD(4) [OF assms(1)]
    by (simp add: retain_world_def topics_manager_defs mem.rinv_retain)
  from mem.subscribers_sound [OF this _ assms(3)] assms(2) g
  obtain pp where "mem_granted (topicsMgr w) pp x \<noteq> None"
    unfolding topics_manager_defs by metis
  with winvD(1) [OF assms(1)] obtain s where s: "x = ISub s" "live w s" "sub_client (sub_at w s) < client_next w"
    using granted_sub by metis
  with winvD(3) [OF assms(1)] show ?thesis by (intro that) auto
qed

lemma found_subs_started:
  assumes "winv w" and "Manager_Subscribers (topicsMgr (retain_world p w)) t q acc = ((fs, qs), None)"
  shows "subs_started w fs"
  using found_subs [OF assms] unfolding subs_started_def by (metis iface.inject(1))

lemma found_subs_known:
  assumes "winv w" and "Manager_Subscribers (topicsMgr (retain_world p w)) t q acc = ((fs, qs), None)"
  shows "subs_known w fs"
  using found_subs [OF assms] unfolding subs_known_def by (metis iface.inject(1))

text \<open>The result is the state after the lookup, followed by the loop and at most one more delivery.\<close>

lemma nth_eq_mem: "k < length l \<Longrightarrow> l ! k = x \<Longrightarrow> x \<in> set l"
  by auto

lemma ProcessPublishMessage_cases:
  assumes "broker (client_at w a)" and "ProcessPublishMessage E a p w = Ret w'"
    and "Manager_Subscribers (topicsMgr (retain_world p w)) (p_TopicName p) (p_Qos p)
      (csubs (client_at w a), qoss (client_at w a)) = (f, err)"
  obtains (lookup) "w' = lookup_world a p f w"
    | (loop) "w' = fst (publish_loop E (ctyp (client_at w a)) p 0 (fst f) (lookup_world a p f w, []))"
    | (draw) s where
        "w' = publish E s p (fst (publish_loop E (ctyp (client_at w a)) p 0 (fst f) (lookup_world a p f w, [])))"
        and "ISub s \<in> set (csubs (client_at (fst (publish_loop E (ctyp (client_at w a)) p 0 (fst f) (lookup_world a p f w, []))) a))"
  using assms
  by (auto simp: ProcessPublishMessage_def lookup_world_def retain_world_def Let_def split_beta
      split: if_splits iface.splits intro: nth_eq_mem)

lemma ProcessPublishMessage_winv:
  assumes "winv w" and "a < client_next w"
  obtains w' where "ProcessPublishMessage E a p w = Ret w'" and "winv w'"
    and "same_struct (retain_world p w) w'"
proof -
  have br: "broker (client_at w a)"
    using winvD(3) [OF assms] by (simp add: started_def client_ok_def)
  obtain fs qs err where f: "Manager_Subscribers (topicsMgr (retain_world p w)) (p_TopicName p) (p_Qos p)
      (csubs (client_at w a), qoss (client_at w a)) = ((fs, qs), err)"
    by (metis prod.exhaust)
  let ?w2 = "lookup_world a p (fs, qs) w"
  have w2: "winv ?w2" using assms(1) by (rule winv_lookup_world)
  have s2: "same_struct (retain_world p w) ?w2"
    unfolding lookup_world_def by (simp add: same_struct_def)
  show ?thesis
  proof (cases err)
    case (Some e)
    with br f have "ProcessPublishMessage E a p w = Ret ?w2"
      by (simp add: ProcessPublishMessage_def lookup_world_def retain_world_def Let_def cong: if_cong)
    with w2 s2 show ?thesis by (intro that)
  next
    case None
    with f have found: "Manager_Subscribers (topicsMgr (retain_world p w)) (p_TopicName p) (p_Qos p)
      (csubs (client_at w a), qoss (client_at w a)) = ((fs, qs), None)" by simp
    obtain w' where w': "ProcessPublishMessage E a p w = Ret w'"
      by (rule ProcessPublishMessage_effect [OF br found found_subs_started [OF assms(1) found], of E])
    have kn: "subs_known ?w2 fs"
      using found_subs_known [OF assms(1) found] by (simp add: subs_known_def lookup_world_def)
    have k: "keeps ?w2 w'"
    proof (cases rule: ProcessPublishMessage_cases [OF br w' found])
      case (3 s)
      let ?l = "publish_loop E (ctyp (client_at w a)) p 0 fs (?w2, [])"
      have "subs_started ?w2 fs" using found_subs_started [OF assms(1) found] by simp
      from publish_loop_effect [OF this prod.collapse [symmetric]] have "same_shape ?w2 (fst ?l)" by blast
      from same_shapeD(3) [OF this, of a] 3(2) have mem: "ISub s \<in> set fs" by simp
      have k3: "keeps ?w2 (fst ?l)" by (rule keeps_publish_loop [OF kn])
      then have "same_struct ?w2 (fst ?l)" by (simp add: keeps_def)
      with kn mem have "sub_client (sub_at (fst ?l) s) < client_next (fst ?l)"
        using subs_known_cong [of ?w2 "fst ?l" fs] by (simp add: subs_known_def)
      from keeps_trans [OF k3 keeps_publish [OF this]] 3(1) show ?thesis by simp
    qed (use keeps_publish_loop [OF kn] in simp_all)
    have "same_struct ?w2 w'" using k by (simp add: keeps_def)
    from that [OF w' keeps_winv [OF k w2] same_struct_trans [OF s2 this]] show ?thesis .
  qed
qed

lemma winv_PublishToStream [simp]: "winv (PublishToStream m w) = winv w"
proof -
  have "same_struct w (PublishToStream m w)" by (simp add: PublishToStream_def same_struct_def)
  from sinv_cong [OF this] show ?thesis
    by (simp add: winv_def PublishToStream_def cinv_def started_def retry_pending_def fresh_def)
qed

lemma acked_publish_winv:
  assumes "winv w" and "a < client_next w" and "WritePacket E a pk w = (w', r)"
  shows "winv w' \<and> (\<exists>w''. ProcessPublishMessage E a p w' = Ret w'' \<and> winv w'')"
proof -
  have k: "keeps w w'" using keeps_WritePacket [of w E a pk] assms(3) by simp
  then have "winv w'" and "a < client_next w'"
    using keeps_winv assms(1,2) by (auto simp: keeps_def same_struct_def)
  then show ?thesis using ProcessPublishMessage_winv by metis
qed

lemma ProcessPublish_winv:
  assumes "winv w" and "a < client_next w"
  shows "\<exists>w'. ProcessPublish E a p w = Ret w' \<and> winv w'"
proof -
  have br: "broker (client_at w a)"
    using winvD(3) [OF assms] by (simp add: started_def client_ok_def)
  have msg: "\<exists>w'. ProcessPublishMessage E a p v = Ret w' \<and> winv w'" if "winv v" "a < client_next v" for v
    using ProcessPublishMessage_winv [OF that] by metis
  have ack: "\<exists>w'. (case WritePacket E a pk v of (w', Some _) \<Rightarrow> Ret w'
      | (w', None) \<Rightarrow> ProcessPublishMessage E a p w') = Ret w' \<and> winv w'"
    if "winv v" "a < client_next v" for v pk
    using acked_publish_winv [OF that, of E pk _ _ p]
    by (cases "WritePacket E a pk v") (auto split: option.splits)
  have reg: "winv v'" "a < client_next v'"
    if "winv v" "a < client_next v" "registerPublishPacketId E a m v = (v', r)" for v v' m r
    using keeps_register [of v E a m] keeps_winv [of v v'] that by (auto simp: keeps_def same_struct_def)
  let ?w = "if \<not> contains (p_TopicName p) ''config'' \<and> \<not> contains (p_TopicName p) ''command'' \<and>
      BridgeEnabled (config w)
    then PublishToStream \<lparr> qm_ClientId = clientId (info (client_at w a)), qm_Topic = p_TopicName p,
        qm_Payload = p_Payload p, qm_Timestamp = now_ms E \<rparr> w else w"
  have w0: "winv ?w" "a < client_next ?w" using assms(1) by simp (use assms(2) in \<open>simp add: PublishToStream_def\<close>)
  have "\<exists>w'. processClientPublish E a p w = Ret w' \<and> winv w'"
  proof (cases "registerPublishPacketId E a (p_MessageID p) ?w")
    case (Pair v r)
    from msg [OF w0] ack [OF w0, of "PubackPacket (p_MessageID p)"]
      reg [OF w0 Pair] ack [OF reg [OF w0 Pair], of "PubrecPacket (p_MessageID p)"] w0(1) br Pair
    show ?thesis unfolding processClientPublish_def Let_def
      by (cases r) (simp_all cong: if_cong)
  qed
  moreover have "\<exists>w'. processRouterPublish E a p w = Ret w' \<and> winv w'"
    using msg [OF assms] ack [OF assms] assms(1) by (simp add: processRouterPublish_def)
  moreover have "\<exists>w'. processRemotePublish E a p w = Ret w' \<and> winv w'"
  proof -
    have "winv (w\<lparr>nodes := n\<rparr>)" for n
      using assms(1) sinv_cong [of w "w\<lparr>nodes := n\<rparr>"]
      by (simp add: winv_def cinv_def started_def retry_pending_def same_struct_def fresh_def)
    with assms(1) br show ?thesis
      by (auto simp: processRemotePublish_def ProcessInfo_def Let_def split: option.splits)
  qed
  ultimately show ?thesis using assms(1)
    by (cases "ctyp (client_at w a)") (simp_all add: ProcessPublish_def)
qed

section \<open>Who receives a packet\<close>

text \<open>The live subscriptions whose filter matches the levels of a topic.\<close>

definition matching :: "world \<Rightarrow> string list \<Rightarrow> addr set" where
  "matching w ls =
     {s. live w s \<and> (\<exists>p. levels (sub_topic (sub_at w s)) = Inr p \<and> matches p ls)}"

lemma found_matching:
  assumes "winv w" and "ValidQos (p_Qos p)" and "levels (p_TopicName p) = Inr ls"
  obtains fs qs where "Manager_Subscribers (topicsMgr (retain_world p w)) (p_TopicName p) (p_Qos p) acc =
      ((fs, qs), None)" and "distinct fs" and "set fs = ISub ` matching w ls"
proof -
  let ?m = "topicsMgr (retain_world p w)"
  have g: "mem_granted ?m = mem_granted (topicsMgr w)"
    by (simp add: retain_world_def topics_manager_defs mem.granted_retain)
  have inv: "mem_inv ?m"
    using winvD(4) [OF assms(1)] by (simp add: retain_world_def topics_manager_defs mem.rinv_retain)
  note sub = granted_sub [OF winvD(1) [OF assms(1)]]
  from mem.subscribers_result [OF inv assms(2,3), of acc, unfolded g] obtain fs where
    fs: "mem_Subscribers ?m (p_TopicName p) (p_Qos p) acc = ((fs, replicate (length fs) (p_Qos p)), None)"
    and cnt: "\<And>x. count (mset fs) x = card {q. matches q ls \<and> mem_granted (topicsMgr w) q x \<noteq> None}"
    and mem: "\<And>x. x \<in> set fs \<longleftrightarrow> (\<exists>q. matches q ls \<and> mem_granted (topicsMgr w) q x \<noteq> None)"
    by blast
  have one: "{q. matches q ls \<and> mem_granted (topicsMgr w) q x \<noteq> None} \<subseteq>
      {q. \<exists>s. x = ISub s \<and> levels (sub_topic (sub_at w s)) = Inr q}" for x
  proof (rule subsetI)
    fix q assume "q \<in> {q. matches q ls \<and> mem_granted (topicsMgr w) q x \<noteq> None}"
    then have "mem_granted (topicsMgr w) q x \<noteq> None" by blast
    then show "q \<in> {q. \<exists>s. x = ISub s \<and> levels (sub_topic (sub_at w s)) = Inr q}" by (rule sub) simp
  qed
  have "card {q. \<exists>s. x = ISub s \<and> levels (sub_topic (sub_at w s)) = Inr q} \<le> 1"
    and "finite {q. \<exists>s. x = ISub s \<and> levels (sub_topic (sub_at w s)) = Inr q}" for x
    by (cases x; cases "\<exists>q s. x = ISub s \<and> levels (sub_topic (sub_at w s)) = Inr q"; auto)+
  then have le1: "count (mset fs) x \<le> 1" for x
    unfolding cnt using card_mono [OF _ one [of x]] le_trans by blast
  have "count (mset fs) x = (if x \<in> set fs then 1 else 0)" for x
  proof (cases "x \<in> set fs")
    case True
    then have "0 < count (mset fs) x" by simp
    with True le1 [of x] have "count (mset fs) x = 1" by linarith
    with True show ?thesis by simp
  qed (simp add: count_eq_zero_iff)
  then have "distinct fs" by (simp add: distinct_count_atmost_1)
  moreover have "set fs = ISub ` matching w ls"
  proof (intro set_eqI iffI)
    fix x assume "x \<in> set fs"
    with mem obtain q where q: "matches q ls" "mem_granted (topicsMgr w) q x \<noteq> None" by blast
    from q(2) show "x \<in> ISub ` matching w ls" by (rule sub) (use q(1) in \<open>auto simp: matching_def\<close>)
  next
    fix x assume "x \<in> ISub ` matching w ls"
    then show "x \<in> set fs" unfolding mem by (force simp: matching_def live_def)
  qed
  ultimately show ?thesis using that fs unfolding topics_manager_defs by blast
qed

text \<open>The number of direct copies is the number of matching direct subscriptions.\<close>

definition direct_subs :: "world \<Rightarrow> client_type \<Rightarrow> string list \<Rightarrow> addr \<Rightarrow> addr set" where
  "direct_subs w ty ls b =
     {s \<in> matching w ls. eligible w ty s \<and> \<not> share (sub_at w s) \<and> sub_client (sub_at w s) = b}"

definition shared_subs :: "world \<Rightarrow> client_type \<Rightarrow> string list \<Rightarrow> addr set" where
  "shared_subs w ty ls = {s \<in> matching w ls. eligible w ty s \<and> share (sub_at w s)}"

lemma direct_copies:
  assumes "distinct fs" and "set fs = ISub ` matching w ls"
  shows "length (filter (\<lambda>x. direct_sub w ty x \<and> of_client w b x) fs) = card (direct_subs w ty ls b)"
proof -
  have "set (filter (\<lambda>x. direct_sub w ty x \<and> of_client w b x) fs) = ISub ` direct_subs w ty ls b"
    using assms(2) by (auto simp: direct_subs_def direct_sub_def of_client_def)
  then have "card (ISub ` direct_subs w ty ls b) = length (filter (\<lambda>x. direct_sub w ty x \<and> of_client w b x) fs)"
    using distinct_card [OF distinct_filter [OF assms(1)]] by metis
  then show ?thesis by (simp add: card_image inj_on_def)
qed

text \<open>The draw picks one of the eligible shared subscriptions, if there is one.\<close>

lemma pick_cases:
  assumes "set fs = ISub ` matching w ls"
  shows "case shared_pick E w ty fs of
      None \<Rightarrow> shared_subs w ty ls = {} | Some x \<Rightarrow> x \<in> ISub ` shared_subs w ty ls"
proof (cases "shared_pick E w ty fs")
  case None
  then have "shared_at w ty 0 fs = []" by (simp add: shared_pick_def Let_def split: if_splits)
  then have none: "\<not> shared_sub w ty x" if "x \<in> set fs" for x
  proof -
    from that obtain i where i: "i < length fs" "fs ! i = x" by (auto simp: in_set_conv_nth)
    then have "(i, x) \<in> set (enumerate 0 fs)" by (simp add: in_set_enumerate_eq)
    with \<open>shared_at w ty 0 fs = []\<close> show ?thesis by (auto simp: shared_at_def filter_empty_conv)
  qed
  have "shared_subs w ty ls = {}"
    using none [of "ISub s" for s] unfolding assms by (auto simp: shared_subs_def shared_sub_def)
  with None show ?thesis by simp
next
  case (Some x)
  with shared_pick_sub [OF Some] show ?thesis
    unfolding assms by (auto simp: shared_subs_def shared_sub_def split: iface.splits)
qed

definition fan_out ::
  "env \<Rightarrow> world \<Rightarrow> addr \<Rightarrow> publish_packet \<Rightarrow> string list \<Rightarrow> addr option \<Rightarrow> addr \<Rightarrow> control_packet list" where
  "fan_out E w a p ls pick b =
     copies E w p b (card (direct_subs w (ctyp (client_at w a)) ls b) +
       (case pick of None \<Rightarrow> 0 | Some s \<Rightarrow> if sub_client (sub_at w s) = b then 1 else 0))"

definition picked :: "world \<Rightarrow> addr \<Rightarrow> string list \<Rightarrow> addr option \<Rightarrow> bool" where
  "picked w a ls pick \<longleftrightarrow>
     (case pick of None \<Rightarrow> shared_subs w (ctyp (client_at w a)) ls = {}
      | Some s \<Rightarrow> s \<in> shared_subs w (ctyp (client_at w a)) ls)"

lemma ProcessPublishMessage_fan_out:
  assumes "winv w" and "a < client_next w" and "ValidQos (p_Qos p)" and "levels (p_TopicName p) = Inr ls"
  obtains w' pick where "ProcessPublishMessage E a p w = Ret w'" and "winv w'" and "picked w a ls pick"
    and "same_struct (retain_world p w) w'"
    and "\<And>b. wrote (client_at w' b) = wrote (client_at w b) @ fan_out E w a p ls pick b"
proof -
  let ?ty = "ctyp (client_at w a)"
  have br: "broker (client_at w a)"
    using winvD(3) [OF assms(1,2)] by (simp add: started_def client_ok_def)
  from found_matching [OF assms(1,3,4)] obtain fs qs where
    found: "Manager_Subscribers (topicsMgr (retain_world p w)) (p_TopicName p) (p_Qos p)
      (csubs (client_at w a), qoss (client_at w a)) = ((fs, qs), None)"
    and fs: "distinct fs" "set fs = ISub ` matching w ls" by blast
  from ProcessPublishMessage_winv [OF assms(1,2)] obtain w' where
    w': "ProcessPublishMessage E a p w = Ret w'" "winv w'" "same_struct (retain_world p w) w'" by metis
  from ProcessPublishMessage_effect [OF br found found_subs_started [OF assms(1) found], of E] w'(1)
  have wr: "wrote (client_at w' b) = wrote (client_at w b) @ copies E w p b (deliveries E w ?ty fs b)" for b
    by (metis outcome.inject(1))
  define pick where "pick = (case shared_pick E w ?ty fs of Some (ISub s) \<Rightarrow> Some s | _ \<Rightarrow> None)"
  from pick_cases [OF fs(2), where E = E and ty = ?ty] have pk: "picked w a ls pick"
    and "deliveries E w ?ty fs b = card (direct_subs w ?ty ls b) +
       (case pick of None \<Rightarrow> 0 | Some s \<Rightarrow> if sub_client (sub_at w s) = b then 1 else 0)" for b
    by (auto simp: picked_def pick_def deliveries_def direct_copies [OF fs]
        split: option.splits)
  with wr have "wrote (client_at w' b) = wrote (client_at w b) @ fan_out E w a p ls pick b" for b
    by (simp add: fan_out_def)
  with w'(1,2) pk w'(3) show ?thesis by (rule that)
qed

section \<open>Acknowledged publishing\<close>

text \<open>A write to a started client leaves alone what the delivery depends on.\<close>

lemma write_keeps_shape:
  assumes "winv w" and "a < client_next w" and "WritePacket E a pk w = (w', r)"
  shows "winv w'" "a < client_next w'" "topicsMgr w' = topicsMgr w" "sub_at w' = sub_at w"
    "ctyp (client_at w' b) = ctyp (client_at w b)"
    "can_write E' b q (client_at w' b) = can_write E' b q (client_at w b)"
    "wrote (client_at w' b) =
       wrote (client_at w b) @ (if b = a \<and> can_write E a pk (client_at w a) then [pk] else [])"
    "r = None \<longleftrightarrow> status (client_at w a) = Disconnected \<or> can_write E a pk (client_at w a)"
proof -
  have k: "keeps w w'" using keeps_WritePacket [of w E a pk] assms(3) by simp
  show "winv w'" using keeps_winv [OF k assms(1)] .
  show "a < client_next w'" "topicsMgr w' = topicsMgr w" "sub_at w' = sub_at w"
    "ctyp (client_at w' b) = ctyp (client_at w b)"
    using k assms(2) by (simp_all add: keeps_def same_struct_def)
  note c = WritePacket_started [OF winvD(3) [OF assms(1,2)], of E pk b]
  show "can_write E' b q (client_at w' b) = can_write E' b q (client_at w b)"
    using c assms(3) by (simp add: can_write_def)
  show "wrote (client_at w' b) =
       wrote (client_at w b) @ (if b = a \<and> can_write E a pk (client_at w a) then [pk] else [])"
    using c assms(3) by simp
  have "conn (client_at w a)" if "status (client_at w a) \<noteq> Disconnected"
    using winvD(3) [OF assms(1,2)] that
    by (cases "status (client_at w a)") (auto simp: started_def client_ok_def)
  then show "r = None \<longleftrightarrow> status (client_at w a) = Disconnected \<or> can_write E a pk (client_at w a)"
    using assms(3) by (auto simp: WritePacket_def Let_def can_write_def split: if_splits)
qed

lemma write_matching:
  assumes "winv w" and "a < client_next w" and "WritePacket E a pk w = (w', r)"
  shows "matching w' ls = matching w ls" "fan_out E' w' a p ls pick b = fan_out E' w a p ls pick b"
    "picked w' a ls pick = picked w a ls pick" "matching w' ls = matching w ls"
proof -
  note f = write_keeps_shape [OF assms]
  show m: "matching w' ls = matching w ls" "matching w' ls = matching w ls"
    by (simp_all add: matching_def live_def f(3,4))
  show "picked w' a ls pick = picked w a ls pick"
    by (simp add: picked_def shared_subs_def m eligible_def f(4,5) cong: option.case_cong)
  show "fan_out E' w' a p ls pick b = fan_out E' w a p ls pick b"
    by (simp add: fan_out_def copies_def direct_subs_def m eligible_def f(4,5,6) cong: option.case_cong)
qed

text \<open>The state after the bridge's copy of a client's message was sent.\<close>

definition bridge_world :: "env \<Rightarrow> addr \<Rightarrow> publish_packet \<Rightarrow> world \<Rightarrow> world" where
  "bridge_world E a p w =
     (if \<not> contains (p_TopicName p) ''config'' \<and> \<not> contains (p_TopicName p) ''command'' \<and>
         BridgeEnabled (config w)
      then PublishToStream \<lparr> qm_ClientId = clientId (info (client_at w a)), qm_Topic = p_TopicName p,
             qm_Payload = p_Payload p, qm_Timestamp = now_ms E \<rparr> w
      else w)"

lemma bridge_world_simps [simp]:
  "client_at (bridge_world E a p w) = client_at w" "client_next (bridge_world E a p w) = client_next w"
  "sub_at (bridge_world E a p w) = sub_at w" "topicsMgr (bridge_world E a p w) = topicsMgr w"
  by (simp_all add: bridge_world_def PublishToStream_def)

lemma winv_bridge_world [simp]: "winv (bridge_world E a p w) = winv w"
  by (simp add: bridge_world_def)

lemma bridge_matching [simp]:
  "matching (bridge_world E a p w) ls = matching w ls"
  "fan_out E' (bridge_world E a p w) a q ls pick b = fan_out E' w a q ls pick b"
  "picked (bridge_world E a p w) a ls pick = picked w a ls pick"
  by (simp_all add: matching_def live_def fan_out_def copies_def direct_subs_def eligible_def picked_def
      shared_subs_def split: option.splits)

lemma client_publish_conv:
  assumes "broker (client_at w a)" and "ctyp (client_at w a) = CLIENT"
  shows "ProcessPublish E a p w =
    (let v = bridge_world E a p w
     in if p_Qos p = 0 then ProcessPublishMessage E a p v
        else if p_Qos p = 1 then
          (case WritePacket E a (PubackPacket (p_MessageID p)) v of
             (w', Some _) \<Rightarrow> Ret w' | (w', None) \<Rightarrow> ProcessPublishMessage E a p w')
        else if p_Qos p = 2 then
          (case registerPublishPacketId E a (p_MessageID p) v of
             (w', Some _) \<Rightarrow> Ret w'
           | (w', None) \<Rightarrow>
               (case WritePacket E a (PubrecPacket (p_MessageID p)) w' of
                  (w'', Some _) \<Rightarrow> Ret w'' | (w'', None) \<Rightarrow> ProcessPublishMessage E a p w''))
        else Ret v)"
  using assms by (simp add: ProcessPublish_def processClientPublish_def bridge_world_def Let_def cong: if_cong)

lemma ack_publish:
  assumes "winv w" and "a < client_next w" and "ValidQos (p_Qos p)" and "levels (p_TopicName p) = Inr ls"
  shows "\<exists>w' pick. (case WritePacket E a pk w of
        (w', Some _) \<Rightarrow> Ret w' | (w', None) \<Rightarrow> ProcessPublishMessage E a p w') = Ret w' \<and>
    winv w' \<and> picked w a ls pick \<and>
    (\<forall>b. wrote (client_at w' b) = wrote (client_at w b) @
       (if status (client_at w a) = Disconnected then fan_out E w a p ls pick b
        else if can_write E a pk (client_at w a)
        then (if b = a then [pk] else []) @ fan_out E w a p ls pick b else []))"
proof -
  obtain v r where v: "WritePacket E a pk w = (v, r)" by fastforce
  note f = write_keeps_shape [OF assms(1,2) v] and m = write_matching [OF assms(1,2) v]
  from ProcessPublishMessage_fan_out [OF f(1,2) assms(3,4)] obtain w' pick where
    w': "ProcessPublishMessage E a p v = Ret w'" "winv w'" "picked v a ls pick"
      "\<And>b. wrote (client_at w' b) = wrote (client_at v b) @ fan_out E v a p ls pick b" by metis
  have nd: "\<not> can_write E a pk (client_at w a)" if "status (client_at w a) = Disconnected"
    using that by (simp add: can_write_def)
  show ?thesis
  proof (cases r)
    case None
    with w' f(7,8) m nd v show ?thesis by (intro exI [of _ w'] exI [of _ pick]) auto
  next
    case (Some e)
    with f(1,7,8) m(3) v w'(3) show ?thesis by (intro exI [of _ v] exI [of _ pick]) auto
  qed
qed

text \<open>A QoS 2 packet is looked up and dropped: only the caller's slices change.\<close>

lemma publish_loop_qos2: "p_Qos p = 2 \<Longrightarrow> fst (publish_loop E ty p i xs (w, q)) = w"
proof (induction xs arbitrary: i q)
  case (Cons x xs)
  then show ?case by (cases x) (simp_all add: publish_qos2)
qed simp

lemma ProcessPublishMessage_qos2:
  assumes "winv w" and "a < client_next w" and "p_Qos p = 2"
  shows "\<exists>f. ProcessPublishMessage E a p w = Ret (lookup_world a p f w)"
proof -
  from ProcessPublishMessage_winv [OF assms(1,2)] obtain w' where w': "ProcessPublishMessage E a p w = Ret w'"
    by metis
  have br: "broker (client_at w a)"
    using winvD(3) [OF assms(1,2)] by (simp add: started_def client_ok_def)
  obtain f err where f: "Manager_Subscribers (topicsMgr (retain_world p w)) (p_TopicName p) (p_Qos p)
      (csubs (client_at w a), qoss (client_at w a)) = (f, err)" by fastforce
  have "publish E s p v = v" for s v using assms(3) by (simp add: publish_qos2)
  then have "w' = lookup_world a p f w"
    using publish_loop_qos2 [OF assms(3)]
    by (cases rule: ProcessPublishMessage_cases [OF br w' f]) simp_all
  with w' show ?thesis by blast
qed

lemma no_router_copies:
  assumes "ctyp (client_at w b) = ROUTER" and "ty \<noteq> CLIENT"
  shows "deliveries E w ty fs b = 0"
proof -
  have skip: "\<not> (direct_sub w ty x \<and> of_client w b x)" "\<not> (shared_sub w ty x \<and> of_client w b x)" for x
    using assms by (auto simp: direct_sub_def shared_sub_def of_client_def eligible_def split: iface.splits)
  then have "filter (\<lambda>x. direct_sub w ty x \<and> of_client w b x) fs = []" by simp
  with skip(2) shared_pick_sub [of E w ty fs] show ?thesis
    by (auto simp: deliveries_def split: option.splits)
qed

lemma ProcessPublishMessage_no_router:
  assumes "winv w" and "a < client_next w" and "ctyp (client_at w a) \<noteq> CLIENT"
    and "ctyp (client_at w b) = ROUTER"
  shows "\<exists>w'. ProcessPublishMessage E a p w = Ret w' \<and> wrote (client_at w' b) = wrote (client_at w b)"
proof -
  have br: "broker (client_at w a)"
    using winvD(3) [OF assms(1,2)] by (simp add: started_def client_ok_def)
  obtain fs qs err where f: "Manager_Subscribers (topicsMgr (retain_world p w)) (p_TopicName p) (p_Qos p)
      (csubs (client_at w a), qoss (client_at w a)) = ((fs, qs), err)"
    by (metis prod.exhaust)
  show ?thesis
  proof (cases err)
    case (Some e)
    with br f have "ProcessPublishMessage E a p w = Ret (lookup_world a p (fs, qs) w)"
      by (simp add: ProcessPublishMessage_def lookup_world_def retain_world_def Let_def cong: if_cong)
    then show ?thesis by simp
  next
    case None
    with f have found: "Manager_Subscribers (topicsMgr (retain_world p w)) (p_TopicName p) (p_Qos p)
      (csubs (client_at w a), qoss (client_at w a)) = ((fs, qs), None)" by simp
    show ?thesis
      by (rule ProcessPublishMessage_effect [OF br found found_subs_started [OF assms(1) found], of E])
        (simp add: no_router_copies [OF assms(4,3)])
  qed
qed

section \<open>Properties\<close>

text \<open>
  C6: a PUBLISH with QoS 1 from an end-user client is handled without a panic, keeps the
  invariant, and is acknowledged before it is delivered: if the PUBACK can be written, the
  publisher's output grows by the PUBACK first and every client's output by one copy for each of
  its matching unshared subscriptions and one more if it owns the shared subscription drawn;
  if the PUBACK cannot be written, nobody receives anything.
\<close>

theorem publish_qos1_acked_then_delivered:
  assumes "winv w" and "a < client_next w" and "ctyp (client_at w a) = CLIENT"
    and "status (client_at w a) = Connected"
    and "p_Qos p = QosAtLeastOnce" and "levels (p_TopicName p) = Inr ls"
  shows "\<exists>w' pick. ProcessPublish E a p w = Ret w' \<and> winv w' \<and> picked w a ls pick \<and>
    (\<forall>b. wrote (client_at w' b) = wrote (client_at w b) @
       (if can_write E a (PubackPacket (p_MessageID p)) (client_at w a)
        then (if b = a then [PubackPacket (p_MessageID p)] else []) @ fan_out E w a p ls pick b
        else []))"
proof -
  have br: "broker (client_at w a)"
    using winvD(3) [OF assms(1,2)] by (simp add: started_def client_ok_def)
  have "ValidQos (p_Qos p)" using assms(5) by (simp add: ValidQos_def)
  from ack_publish [of "bridge_world E a p w" a p ls E "PubackPacket (p_MessageID p)", OF _ _ this assms(6),
      unfolded bridge_matching bridge_world_simps winv_bridge_world, OF assms(1,2)]
  show ?thesis using assms(4,5) client_publish_conv [OF br assms(3), of E p] by (simp add: Let_def)
qed

theorem publish_qos1_acked_then_delivered_witness:
  "\<exists>w' pick. ProcessPublish demo_env 0 (demo_publish ''a/b'' 1) demo_world = Ret w' \<and> winv w' \<and>
    picked demo_world 0 [''a'', ''b''] pick \<and>
    (\<forall>b. wrote (client_at w' b) = wrote (client_at demo_world b) @
       (if can_write demo_env 0 (PubackPacket (p_MessageID (demo_publish ''a/b'' 1))) (client_at demo_world 0)
        then (if b = 0 then [PubackPacket (p_MessageID (demo_publish ''a/b'' 1))] else []) @
          fan_out demo_env demo_world 0 (demo_publish ''a/b'' 1) [''a'', ''b''] pick b
        else []))"
proof (rule publish_qos1_acked_then_delivered)
  show "winv demo_world" by (rule demo_winv)
  show "levels (p_TopicName (demo_publish ''a/b'' 1)) = Inr [''a'', ''b'']"
    by (simp add: demo_publish_def demo_levels)
qed (simp_all add: demo_client_def demo_publish_def)

text \<open>
  C20: a PUBLISH with QoS 2 from an end-user client registers its packet identifier once: the
  first time the publisher gets a PUBREC, a packet whose identifier is still awaiting its PUBREL
  is ignored; in both cases no other client receives anything.
\<close>

theorem publish_qos2_registers_once:
  assumes "winv w" and "a < client_next w" and "ctyp (client_at w a) = CLIENT"
    and "p_Qos p = QosExactlyOnce"
  shows "\<exists>w'. ProcessPublish E a p w = Ret w' \<and> winv w' \<and>
    gm_get (awaitingRel (client_at w' a)) (p_MessageID p) =
      (case gm_get (awaitingRel (client_at w a)) (p_MessageID p) of None \<Rightarrow> Some (now E) | Some ts \<Rightarrow> Some ts) \<and>
    (\<forall>b. wrote (client_at w' b) = wrote (client_at w b) @
       (if b = a \<and> gm_get (awaitingRel (client_at w a)) (p_MessageID p) = None \<and>
           can_write E a (PubrecPacket (p_MessageID p)) (client_at w a)
        then [PubrecPacket (p_MessageID p)] else []))"
proof -
  let ?m = "p_MessageID p" and ?v = "bridge_world E a p w"
  have br: "broker (client_at w a)" and full: "\<not> isAwaitingFull (client_at w a)"
    using winvD(3) [OF assms(1,2)] by (simp_all add: started_def client_ok_def isAwaitingFull_def)
  from ProcessPublish_winv [OF assms(1,2)] obtain w' where w': "ProcessPublish E a p w = Ret w'" "winv w'"
    by blast
  show ?thesis
  proof (cases "gm_get (awaitingRel (client_at w a)) ?m")
    case (Some ts)
    with full assms(4) have "ProcessPublish E a p w = Ret ?v"
      by (simp add: client_publish_conv [OF br assms(3)] registerPublishPacketId_def)
    with w' Some show ?thesis by auto
  next
    case None
    obtain u where u: "registerPublishPacketId E a ?m ?v = (u, None)"
      "client_at u = (client_at w)(a := (client_at w a)
         \<lparr>awaitingRel := gm_put ?m (now E) (awaitingRel (client_at w a))\<rparr>)"
      using None full by (simp add: registerPublishPacketId_def Let_def upd_client_def)
    have uw: "winv u" "a < client_next u"
      using keeps_both [OF keeps_register [of ?v E a ?m], of a] assms(1,2) u(1) by simp_all
    obtain x r where x: "WritePacket E a (PubrecPacket ?m) u = (x, r)" by fastforce
    note f = write_keeps_shape [OF uw x]
    have aw: "gm_get (awaitingRel (client_at x a)) ?m = Some (now E)"
      using WritePacket_started [OF winvD(3) [OF uw], of E "PubrecPacket ?m" a] x u(2) by simp
    obtain g where "ProcessPublishMessage E a p x = Ret (lookup_world a p g x)"
      using ProcessPublishMessage_qos2 [OF f(1,2)] assms(4) by fastforce
    then have "w' = x \<or> w' = lookup_world a p g x"
      using w'(1) u(1) x assms(4)
      by (auto simp: client_publish_conv [OF br assms(3)] split: option.splits)
    then have "wrote (client_at w' b) = wrote (client_at x b)"
      and "awaitingRel (client_at w' b) = awaitingRel (client_at x b)" for b by auto
    with w' None aw f(7) u(2) show ?thesis by (auto simp: can_write_def)
  qed
qed

theorem publish_qos2_registers_once_witness:
  "\<exists>w'. ProcessPublish demo_env 0 (demo_publish ''a/b'' 2) demo_world = Ret w' \<and> winv w' \<and>
    gm_get (awaitingRel (client_at w' 0)) (p_MessageID (demo_publish ''a/b'' 2)) =
      (case gm_get (awaitingRel (client_at demo_world 0)) (p_MessageID (demo_publish ''a/b'' 2)) of
         None \<Rightarrow> Some (now demo_env) | Some ts \<Rightarrow> Some ts) \<and>
    (\<forall>b. wrote (client_at w' b) = wrote (client_at demo_world b) @
       (if b = 0 \<and> gm_get (awaitingRel (client_at demo_world 0)) (p_MessageID (demo_publish ''a/b'' 2)) = None \<and>
           can_write demo_env 0 (PubrecPacket (p_MessageID (demo_publish ''a/b'' 2))) (client_at demo_world 0)
        then [PubrecPacket (p_MessageID (demo_publish ''a/b'' 2))] else []))"
  by (rule publish_qos2_registers_once) (simp_all add: demo_winv demo_client_def demo_publish_def)

text \<open>
  C21: messages do not loop between brokers: whatever a router publishes, no other router
  receives a copy.
\<close>

theorem router_publish_no_loop:
  assumes "winv w" and "a < client_next w" and "ctyp (client_at w a) = ROUTER"
    and "ctyp (client_at w b) = ROUTER" and "b \<noteq> a"
  shows "\<exists>w'. ProcessPublish E a p w = Ret w' \<and> wrote (client_at w' b) = wrote (client_at w b)"
proof -
  note none = ProcessPublishMessage_no_router [where p = p and E = E]
  obtain v r where v: "WritePacket E a (PubackPacket (p_MessageID p)) w = (v, r)" by fastforce
  note f = write_keeps_shape [OF assms(1,2) v]
  from f(7) assms(5) have "wrote (client_at v b) = wrote (client_at w b)" by simp
  moreover have "\<exists>w'. ProcessPublishMessage E a p v = Ret w' \<and> wrote (client_at w' b) = wrote (client_at v b)"
    by (rule none [OF f(1,2)]) (simp_all add: f(5) assms(3,4))
  moreover have "\<exists>w'. ProcessPublishMessage E a p w = Ret w' \<and> wrote (client_at w' b) = wrote (client_at w b)"
    by (rule none [OF assms(1,2)]) (simp_all add: assms(3,4))
  ultimately show ?thesis
    using v assms(3) by (auto simp: ProcessPublish_def processRouterPublish_def split: option.splits)
qed

theorem router_publish_no_loop_witness:
  "\<exists>w'. ProcessPublish demo_env 0 (demo_publish ''a/b'' 1) demo_routers = Ret w' \<and>
     wrote (client_at w' 1) = wrote (client_at demo_routers 1)"
  by (rule router_publish_no_loop) (simp_all add: demo_routers_winv, simp_all add: demo_routers_def)

end
