(* ===== verification/Subscribe_Handlers.thy ===== *)
theory Subscribe_Handlers
  imports World_Invariant
begin

text \<open>
  Handling of SUBSCRIBE and UNSUBSCRIBE packets (\<open>broker/subscribe.go\<close>,
  \<open>broker/unsubscribe.go\<close>, the subscription counters of \<open>utils/utils.go\<close>) and the
  broadcast to the routers (\<open>broker/broker.go\<close>).
\<close>

section \<open>Shared subscriptions\<close>

text \<open>
  The pattern \<open>^\$share/([0-9a-zA-Z_-]+)/(.*)$\<close>: since the characters of the group exclude the
  separator, the group is the longest run of its characters; the dot does not match a newline.
\<close>

definition group_char :: "char \<Rightarrow> bool" where
  "group_char c \<longleftrightarrow>
     c \<in> set ''0123456789abcdefghijklmnopqrstuvwxyzABCDEFGHIJKLMNOPQRSTUVWXYZ_-''"

definition FindStringSubmatch :: "string \<Rightarrow> string list" where
  "FindStringSubmatch topic =
     (if take 7 topic = ''$share/'' then
        (let r = drop 7 topic; g = takeWhile group_char r
         in (case dropWhile group_char r of
               c # rest \<Rightarrow> if g \<noteq> [] \<and> c = CHR ''/'' \<and> CHR 0x0A \<notin> set rest then [topic, g, rest] else []
             | [] \<Rightarrow> []))
      else [])"

text \<open>The topic, share flag and group of a requested filter; \<open>None\<close> when the pattern fails.\<close>

definition share_topic :: "string \<Rightarrow> (string \<times> bool \<times> string) option" where
  "share_topic topic =
     (if take 7 topic = ''$share/'' then
        (let substr = FindStringSubmatch topic
         in if length substr \<noteq> 3 then None else Some (substr ! 2, True, substr ! 1))
      else Some (topic, False, ''''))"

section \<open>Subscription counters\<close>

definition AddSubMap :: "(string, u64) gomap \<Rightarrow> string \<Rightarrow> (string, u64) gomap" where
  "AddSubMap m topic =
     (case gm_get m topic of Some subNum \<Rightarrow> gm_put topic (subNum + 1) m | None \<Rightarrow> gm_put topic 1 m)"

definition DelSubMap :: "(string, u64) gomap \<Rightarrow> string \<Rightarrow> (string, u64) gomap \<times> u64" where
  "DelSubMap m topic =
     (case gm_get m topic of
        Some subNum \<Rightarrow> if subNum > 1 then (gm_put topic (subNum - 1) m, subNum - 1) else (m, 0)
      | None \<Rightarrow> (gm_put topic 0 m, 0))"

section \<open>SUBSCRIBE\<close>

text \<open>A new subscription object.\<close>

definition new_sub :: "subscription \<Rightarrow> world \<Rightarrow> world" where
  "new_sub s w = w\<lparr>sub_at := (sub_at w)(sub_next w := s), sub_next := Suc (sub_next w)\<rparr>"

text \<open>
  The body of the loop over the topics of a client's SUBSCRIBE: the \<open>i\<close>-th topic \<open>t\<close> with
  the requested QoSs \<open>qs\<close>.  Every way through the body appends one return code.
\<close>

definition drop_old_sub :: "addr \<Rightarrow> string \<Rightarrow> world \<Rightarrow> world" where
  "drop_old_sub a t w =
     (case gm_get (subMap (client_at w a)) t of
        Some oldSub \<Rightarrow>
          upd_client a (\<lambda>c. c\<lparr>subMap := gm_del t (subMap c)\<rparr>)
            (w\<lparr>topicsMgr := fst (Manager_Unsubscribe (topicsMgr w) (sub_topic (sub_at w oldSub)) (ISub oldSub))\<rparr>)
      | None \<Rightarrow> w)"

definition client_subscribe_topic ::
  "addr \<Rightarrow> u8 list \<Rightarrow> nat \<Rightarrow> string \<Rightarrow> world \<Rightarrow> (world \<times> u8) outcome" where
  "client_subscribe_topic a qs i t w0 =
     (case share_topic t of
        None \<Rightarrow> Ret (w0, QosFailure)
      | Some (topic, sh, grp) \<Rightarrow>
          let w = drop_old_sub a t w0
          in if \<not> i < length qs then Panic ''index out of range''
             else
               let sub = sub_next w;
                   w1 = new_sub \<lparr> sub_client = a, sub_topic = topic, sub_qos = qs ! i, share = sh,
                                  groupName = grp \<rparr> w;
                   (mgr, rqos, err) = Manager_Subscribe (topicsMgr w1) topic (qs ! i) (ISub sub);
                   w2 = w1\<lparr>topicsMgr := mgr\<rparr>
               in if err \<noteq> None then Ret (w2, QosFailure)
                  else
                    let w3 = upd_client a (\<lambda>c. c\<lparr>subMap := gm_put t sub (subMap c)\<rparr>) w2
                    in (case session (client_at w3 a) of
                          None \<Rightarrow> Panic ''nil pointer''
                        | Some sa \<Rightarrow>
                            and_then (Session_AddTopic (sess_at (sessionMgr w3) sa) t (qs ! i))
                              (\<lambda>(s', _).
                                 let w4 = w3\<lparr>sessionMgr := sess_put (sessionMgr w3) sa s'\<rparr>;
                                     msgs = fst (Manager_Retained (topicsMgr w4) topic (rmsgs (client_at w4 a)))
                                 in Ret (upd_client a (\<lambda>c. c\<lparr>rmsgs := msgs\<rparr>) w4, rqos))))"

text \<open>The loop over the topics, for a loop body \<open>f\<close>; the return codes accumulate.\<close>

fun subscribe_loop ::
  "(nat \<Rightarrow> string \<Rightarrow> world \<Rightarrow> (world \<times> u8) outcome) \<Rightarrow> nat \<Rightarrow> string list \<Rightarrow> world \<Rightarrow> u8 list \<Rightarrow>
   (world \<times> u8 list) outcome" where
  "subscribe_loop f i [] w retcodes = Ret (w, retcodes)"
| "subscribe_loop f i (t # ts) w retcodes =
     and_then (f i t w) (\<lambda>(w', rc). subscribe_loop f (Suc i) ts w' (retcodes @ [rc]))"

definition processClientSubscribe :: "env \<Rightarrow> addr \<Rightarrow> subscribe_packet \<Rightarrow> world \<Rightarrow> world outcome" where
  "processClientSubscribe E a packet w =
     (if status (client_at w a) = Disconnected then Ret w
      else if \<not> broker (client_at w a) then Ret w
      else
        and_then (subscribe_loop (client_subscribe_topic a (s_Qoss packet)) 0 (s_Topics packet) w [])
          (\<lambda>(w1, retcodes).
             case WritePacket E a (SubackPacket (s_MessageID packet) retcodes) w1 of
               (w2, Some _) \<Rightarrow> Ret w2
             | (w2, None) \<Rightarrow>
                 Ret (fold (\<lambda>rm w. fst (WritePacket E a (PublishPacket rm) w)) (rmsgs (client_at w2 a)) w2)))"

definition router_subscribe_topic ::
  "addr \<Rightarrow> u8 list \<Rightarrow> nat \<Rightarrow> string \<Rightarrow> world \<Rightarrow> (world \<times> u8) outcome" where
  "router_subscribe_topic a qs i t w =
     (case share_topic t of
        None \<Rightarrow> Ret (w, QosFailure)
      | Some (topic, sh, grp) \<Rightarrow>
          if \<not> i < length qs then Panic ''index out of range''
          else
            let sub = sub_next w;
                w1 = new_sub \<lparr> sub_client = a, sub_topic = topic, sub_qos = qs ! i, share = sh,
                               groupName = grp \<rparr> w;
                (mgr, rqos, err) = Manager_Subscribe (topicsMgr w1) topic (qs ! i) (ISub sub);
                w2 = w1\<lparr>topicsMgr := mgr\<rparr>
            in if err \<noteq> None then Ret (w2, QosFailure)
               else Ret (upd_client a (\<lambda>c. c\<lparr>subMap := gm_put t sub (subMap c),
                                            routeSubMap := AddSubMap (routeSubMap c) topic\<rparr>) w2, rqos))"

definition processRouterSubscribe :: "env \<Rightarrow> addr \<Rightarrow> subscribe_packet \<Rightarrow> world \<Rightarrow> world outcome" where
  "processRouterSubscribe E a packet w =
     (if status (client_at w a) = Disconnected then Ret w
      else if \<not> broker (client_at w a) then Ret w
      else
        and_then (subscribe_loop (router_subscribe_topic a (s_Qoss packet)) 0 (s_Topics packet) w [])
          (\<lambda>(w1, retcodes). Ret (fst (WritePacket E a (SubackPacket (s_MessageID packet) retcodes) w1))))"

definition ProcessSubscribe :: "env \<Rightarrow> addr \<Rightarrow> subscribe_packet \<Rightarrow> world \<Rightarrow> world outcome" where
  "ProcessSubscribe E a packet w =
     (case ctyp (client_at w a) of
        CLIENT \<Rightarrow> processClientSubscribe E a packet w
      | ROUTER \<Rightarrow> processRouterSubscribe E a packet w
      | REMOTE \<Rightarrow> processRouterSubscribe E a packet w
      | CLUSTER \<Rightarrow> Ret w)"

section \<open>UNSUBSCRIBE\<close>

text \<open>\<open>sync.Map.Range\<close> over the routers; write errors are ignored.\<close>

definition BroadcastSubOrUnsubMessage :: "env \<Rightarrow> control_packet \<Rightarrow> world \<Rightarrow> world" where
  "BroadcastSubOrUnsubMessage E packet w =
     fold (\<lambda>(key, r) w. fst (WritePacket E r packet w)) (routes w) w"

definition router_unsubscribe_topic :: "addr \<Rightarrow> string \<Rightarrow> world \<Rightarrow> world outcome" where
  "router_unsubscribe_topic a topic w =
     (case gm_get (subMap (client_at w a)) topic of
        None \<Rightarrow> Ret w
      | Some sub \<Rightarrow>
          let (m, retainNum) = DelSubMap (routeSubMap (client_at w a)) topic;
              w1 = upd_client a (\<lambda>c. c\<lparr>routeSubMap := m\<rparr>) w
          in if retainNum > 0 then Ret w1
             else Ret (upd_client a (\<lambda>c. c\<lparr>subMap := gm_del topic (subMap c)\<rparr>)
                    (w1\<lparr>topicsMgr := fst (Manager_Unsubscribe (topicsMgr w1) (sub_topic (sub_at w1 sub)) (ISub sub))\<rparr>)))"

definition client_unsubscribe_topic :: "addr \<Rightarrow> string \<Rightarrow> world \<Rightarrow> world outcome" where
  "client_unsubscribe_topic a topic w =
     (case gm_get (subMap (client_at w a)) topic of
        None \<Rightarrow> Ret w
      | Some sub \<Rightarrow>
          let w1 = w\<lparr>topicsMgr := fst (Manager_Unsubscribe (topicsMgr w) (sub_topic (sub_at w sub)) (ISub sub))\<rparr>
          in (case session (client_at w1 a) of
                None \<Rightarrow> Panic ''nil pointer''
              | Some sa \<Rightarrow>
                  let s' = fst (Session_RemoveTopic (sess_at (sessionMgr w1) sa) topic);
                      w2 = w1\<lparr>sessionMgr := sess_put (sessionMgr w1) sa s'\<rparr>
                  in Ret (upd_client a (\<lambda>c. c\<lparr>subMap := gm_del topic (subMap c)\<rparr>) w2)))"

fun unsubscribe_loop :: "(string \<Rightarrow> world \<Rightarrow> world outcome) \<Rightarrow> string list \<Rightarrow> world \<Rightarrow> world outcome" where
  "unsubscribe_loop f [] w = Ret w"
| "unsubscribe_loop f (t # ts) w = and_then (f t w) (unsubscribe_loop f ts)"

definition processRouterUnsubscribe :: "env \<Rightarrow> addr \<Rightarrow> unsubscribe_packet \<Rightarrow> world \<Rightarrow> world outcome" where
  "processRouterUnsubscribe E a packet w =
     (if status (client_at w a) = Disconnected then Ret w
      else if \<not> broker (client_at w a) then Ret w
      else and_then (unsubscribe_loop (router_unsubscribe_topic a) (u_Topics packet) w)
             (\<lambda>w1. Ret (fst (WritePacket E a (UnsubackPacket (u_MessageID packet)) w1))))"

definition processClientUnsubscribe :: "env \<Rightarrow> addr \<Rightarrow> unsubscribe_packet \<Rightarrow> world \<Rightarrow> world outcome" where
  "processClientUnsubscribe E a packet w =
     (if status (client_at w a) = Disconnected then Ret w
      else if \<not> broker (client_at w a) then Ret w
      else and_then (unsubscribe_loop (client_unsubscribe_topic a) (u_Topics packet) w)
             (\<lambda>w1. case WritePacket E a (UnsubackPacket (u_MessageID packet)) w1 of
                     (w2, Some _) \<Rightarrow> Ret w2
                   | (w2, None) \<Rightarrow> Ret (BroadcastSubOrUnsubMessage E (UnsubscribePacket packet) w2)))"

definition ProcessUnsubscribe :: "env \<Rightarrow> addr \<Rightarrow> unsubscribe_packet \<Rightarrow> world \<Rightarrow> world outcome" where
  "ProcessUnsubscribe E a packet w =
     (case ctyp (client_at w a) of
        CLIENT \<Rightarrow> processClientUnsubscribe E a packet w
      | ROUTER \<Rightarrow> processRouterUnsubscribe E a packet w
      | _ \<Rightarrow> Ret w)"

section \<open>The share pattern\<close>

lemma FindStringSubmatch_cases:
  "FindStringSubmatch t = [] \<or>
   (\<exists>g rest. FindStringSubmatch t = [t, g, rest] \<and> t = ''$share/'' @ g @ ''/'' @ rest \<and> g \<noteq> [] \<and>
      list_all group_char g \<and> CHR 0x0A \<notin> set rest)"
proof (cases "take 7 t = ''$share/''")
  case True
  define g d where "g = takeWhile group_char (drop 7 t)" and "d = dropWhile group_char (drop 7 t)"
  then have "drop 7 t = g @ d" by simp
  then have t: "t = ''$share/'' @ g @ d" using True append_take_drop_id [of 7 t] by simp
  have g: "list_all group_char g"
    by (auto simp: g_def list_all_iff dest: set_takeWhileD)
  have "FindStringSubmatch t = (case d of
      c # rest \<Rightarrow> if g \<noteq> [] \<and> c = CHR ''/'' \<and> CHR 0x0A \<notin> set rest then [t, g, rest] else [] | [] \<Rightarrow> [])"
    by (simp only: True FindStringSubmatch_def Let_def g_def d_def simp_thms if_True)
  with t g show ?thesis by (cases d) auto
qed (simp add: FindStringSubmatch_def)

lemma share_topic_key:
  assumes "share_topic t = Some (topic, sh, g)"
  shows "(if sh then ''$share/'' @ g @ ''/'' @ topic else topic) = t"
  using assms FindStringSubmatch_cases [of t]
  by (auto simp: share_topic_def Let_def split: if_splits)

text \<open>
  A filter names a shared subscription exactly if it is \<open>$share/\<close>, a non-empty group of
  letters, digits, underscores and hyphens, a separator and a rest without newlines.
\<close>

lemma share_topic_iff:
  "share_topic t = Some (topic, True, g) \<longleftrightarrow>
     t = ''$share/'' @ g @ ''/'' @ topic \<and> g \<noteq> [] \<and> list_all group_char g \<and> CHR 0x0A \<notin> set topic"
proof
  assume "share_topic t = Some (topic, True, g)"
  then show "t = ''$share/'' @ g @ ''/'' @ topic \<and> g \<noteq> [] \<and> list_all group_char g \<and> CHR 0x0A \<notin> set topic"
    using FindStringSubmatch_cases [of t] by (auto simp: share_topic_def Let_def split: if_splits)
next
  assume t: "t = ''$share/'' @ g @ ''/'' @ topic \<and> g \<noteq> [] \<and> list_all group_char g \<and> CHR 0x0A \<notin> set topic"
  have "\<not> group_char (CHR ''/'')" by (simp add: group_char_def)
  with t have "takeWhile group_char (g @ CHR ''/'' # topic) = g"
    and "dropWhile group_char (g @ CHR ''/'' # topic) = CHR ''/'' # topic"
    by (simp_all add: takeWhile_append2 dropWhile_append2 list_all_iff)
  with t show "share_topic t = Some (topic, True, g)"
    by (simp add: share_topic_def FindStringSubmatch_def Let_def)
qed

section \<open>Changes of the tree and of a client's map\<close>

text \<open>
  Removing a subscription that a client's map holds, from the tree and from the map; the
  counters may change as well.
\<close>

definition drop_sub :: "addr \<Rightarrow> string \<Rightarrow> addr \<Rightarrow> world \<Rightarrow> world" where
  "drop_sub a t s w = upd_client a (\<lambda>c. c\<lparr>subMap := gm_del t (subMap c)\<rparr>)
     (w\<lparr>topicsMgr := fst (Manager_Unsubscribe (topicsMgr w) (sub_topic (sub_at w s)) (ISub s))\<rparr>)"

lemma drop_sub_frame [simp]:
  "sub_at (drop_sub a t s w) = sub_at w" "sub_next (drop_sub a t s w) = sub_next w"
  "client_next (drop_sub a t s w) = client_next w" "sessionMgr (drop_sub a t s w) = sessionMgr w"
  "clients (drop_sub a t s w) = clients w" "routes (drop_sub a t s w) = routes w"
  "remotes (drop_sub a t s w) = remotes w" "timers (drop_sub a t s w) = timers w"
  "client_at (drop_sub a t s w) b = (if b = a then (client_at w a)\<lparr>subMap := gm_del t (subMap (client_at w a))\<rparr>
     else client_at w b)"
  by (simp_all add: drop_sub_def)

lemma drop_sub_granted:
  assumes "sinv w"
  shows "mem_granted (topicsMgr (drop_sub a t s w)) p x =
      (if levels (sub_topic (sub_at w s)) = Inr p \<and> x = ISub s then None else mem_granted (topicsMgr w) p x)"
    and "mem_inv (topicsMgr (drop_sub a t s w))"
    and "live (drop_sub a t s w) s' \<longleftrightarrow> live w s' \<and> s' \<noteq> s"
proof -
  have inv: "mem_inv (topicsMgr w)" using assms by (simp add: sinv_def tree_ok_def)
  show g: "mem_granted (topicsMgr (drop_sub a t s w)) p x =
      (if levels (sub_topic (sub_at w s)) = Inr p \<and> x = ISub s then None else mem_granted (topicsMgr w) p x)"
    for p x
    using mem.granted_unsubscribe [OF inv, of "ISub s"] by (simp add: drop_sub_def topics_manager_defs)
  show "mem_inv (topicsMgr (drop_sub a t s w))"
    using mem.inv_unsubscribe [OF inv, of "ISub s"] by (simp add: drop_sub_def topics_manager_defs)
  show "live (drop_sub a t s w) s' \<longleftrightarrow> live w s' \<and> s' \<noteq> s"
    by (auto simp: live_def g)
qed

lemma sinv_drop_sub:
  assumes "sinv w" and "a < client_next w" and "gm_get (subMap (client_at w a)) t = Some s"
  shows "sinv (drop_sub a t s w)"
proof -
  let ?w = "drop_sub a t s w"
  note d = drop_sub_granted [OF assms(1)]
  from assms have s: "sub_client (sub_at w s) = a" "sub_key (sub_at w s) = t"
    unfolding sinv_def maps_ok_def by blast+
  have "tree_ok ?w" using assms(1) d(2) unfolding sinv_def tree_ok_def by (simp add: d(1))
  moreover have "maps_ok ?w"
    using assms(1) s unfolding sinv_def maps_ok_def by (auto simp: d(3) split: if_splits)
  moreover have "tracked_ok ?w"
    using assms(1,3) s unfolding sinv_def tracked_ok_def by (auto simp: d(3))
  moreover have "store_ok ?w" "tables_ok ?w"
    using assms(1) unfolding sinv_def store_ok_def tables_ok_def by auto
  ultimately show ?thesis by (simp add: sinv_def)
qed

text \<open>The client part does not depend on the maps of subscriptions.\<close>

lemma cinv_maps:
  assumes "cinv w b" and "timers w' = timers w" and "gm_ok m" and "gm_ok m'"
    and "client_at w' b = (client_at w b)\<lparr>subMap := m, routeSubMap := m', rmsgs := r\<rparr>"
  shows "cinv w' b"
  using assms by (simp add: cinv_def started_def client_ok_def inflight_ok_def retry_pending_def)

lemma cinv_same:
  "client_at w' b = client_at w b \<Longrightarrow> timers w' = timers w \<Longrightarrow> cinv w' b = cinv w b"
  by (simp add: cinv_def started_def retry_pending_def)

lemma winv_drop_sub:
  assumes "winv w" and "a < client_next w" and "gm_get (subMap (client_at w a)) t = Some s"
  shows "winv (drop_sub a t s w)"
proof (rule winvI)
  show "sinv (drop_sub a t s w)" using winvD(1) [OF assms(1)] assms(2,3) by (rule sinv_drop_sub)
next
  fix b assume "b < client_next (drop_sub a t s w)"
  then have b: "cinv w b" using winvD(2) [OF assms(1)] by simp
  then have ok: "gm_ok (subMap (client_at w b))" "gm_ok (routeSubMap (client_at w b))"
    by (simp_all add: cinv_def started_def client_ok_def)
  show "cinv (drop_sub a t s w) b"
    by (rule cinv_maps [OF b, where m = "if b = a then gm_del t (subMap (client_at w a)) else subMap (client_at w b)"
          and m' = "routeSubMap (client_at w b)" and r = "rmsgs (client_at w b)"])
      (use ok in auto)
next
  show "fresh (drop_sub a t s w)" using winvD(5) [OF assms(1)] by (simp add: fresh_def retry_pending_def)
qed

text \<open>
  Adding a subscription: a new object, inserted in the tree, and stored in the map of its client
  if the tree accepted it.
\<close>

definition add_sub :: "addr \<Rightarrow> subscription \<Rightarrow> world \<Rightarrow> world" where
  "add_sub a S w =
     (let w1 = new_sub S w
      in w1\<lparr>topicsMgr := fst (Manager_Subscribe (topicsMgr w1) (sub_topic S) (sub_qos S) (ISub (sub_next w)))\<rparr>)"

lemma add_sub_frame [simp]:
  "sub_at (add_sub a S w) = (sub_at w)(sub_next w := S)" "sub_next (add_sub a S w) = Suc (sub_next w)"
  "client_next (add_sub a S w) = client_next w" "sessionMgr (add_sub a S w) = sessionMgr w"
  "clients (add_sub a S w) = clients w" "routes (add_sub a S w) = routes w"
  "remotes (add_sub a S w) = remotes w" "timers (add_sub a S w) = timers w"
  "client_at (add_sub a S w) = client_at w"
  by (simp_all add: add_sub_def new_sub_def Let_def)

text \<open>Whether the tree accepts a filter with a QoS.\<close>

definition accepted :: "string \<Rightarrow> u8 \<Rightarrow> bool" where
  "accepted topic q \<longleftrightarrow> ValidQos q \<and> (\<exists>p. levels topic = Inr p)"

lemma add_sub_result:
  assumes "sinv w"
  shows "snd (Manager_Subscribe (topicsMgr (new_sub S w)) (sub_topic S) (sub_qos S) (ISub (sub_next w))) =
      (if \<not> ValidQos (sub_qos S) then (QosFailure, Some (InvalidQoS (sub_qos S)))
       else case levels (sub_topic S) of Inl e \<Rightarrow> (QosFailure, Some e) | Inr _ \<Rightarrow> (sub_qos S, None))"
  using assms mem.subscribe_result [of "topicsMgr w" "ISub (sub_next w)"]
  by (simp add: new_sub_def topics_manager_defs sinv_def tree_ok_def)

lemma add_sub_granted:
  assumes "sinv w"
  shows "mem_granted (topicsMgr (add_sub a S w)) p x =
      (if ValidQos (sub_qos S) \<and> levels (sub_topic S) = Inr p \<and> x = ISub (sub_next w) then Some (sub_qos S)
       else mem_granted (topicsMgr w) p x)"
    and "mem_inv (topicsMgr (add_sub a S w))"
    and "live (add_sub a S w) s \<longleftrightarrow>
      (if s = sub_next w then accepted (sub_topic S) (sub_qos S) else live w s)"
proof -
  have inv: "mem_inv (topicsMgr w)" using assms by (simp add: sinv_def tree_ok_def)
  show g: "mem_granted (topicsMgr (add_sub a S w)) p x =
      (if ValidQos (sub_qos S) \<and> levels (sub_topic S) = Inr p \<and> x = ISub (sub_next w) then Some (sub_qos S)
       else mem_granted (topicsMgr w) p x)" for p x
    using mem.granted_subscribe [OF inv, of "ISub (sub_next w)"]
    by (simp add: add_sub_def new_sub_def Let_def topics_manager_defs)
  show "mem_inv (topicsMgr (add_sub a S w))"
    using mem.inv_subscribe [OF inv, of "ISub (sub_next w)"]
    by (simp add: add_sub_def new_sub_def Let_def topics_manager_defs)
  have "mem_granted (topicsMgr w) p (ISub (sub_next w)) = None" for p
    using assms unfolding sinv_def tree_ok_def by (metis iface.inject(1) less_irrefl option.exhaust)
  then show "live (add_sub a S w) s \<longleftrightarrow>
      (if s = sub_next w then accepted (sub_topic S) (sub_qos S) else live w s)"
    by (auto simp: live_def g accepted_def)
qed

lemma sinv_add_fail:
  assumes "sinv w" and "\<not> accepted (sub_topic S) (sub_qos S)"
  shows "sinv (add_sub a S w)"
proof -
  let ?w = "add_sub a S w"
  note d = add_sub_granted [OF assms(1)]
  have g: "mem_granted (topicsMgr ?w) = mem_granted (topicsMgr w)"
    using assms(2) by (auto simp: fun_eq_iff d(1) accepted_def)
  have fresh: "s \<noteq> sub_next w" if "mem_granted (topicsMgr w) p (ISub s) = Some q" for p s q
    using assms(1) that unfolding sinv_def tree_ok_def by fastforce
  have "tree_ok ?w" unfolding tree_ok_def g using assms(1) d(2) fresh
    by (fastforce simp: sinv_def tree_ok_def)
  moreover have "maps_ok ?w"
    using assms(1) unfolding sinv_def maps_ok_def by (auto simp: d(3) less_Suc_eq)
  moreover have "tracked_ok ?w"
    using assms unfolding sinv_def tracked_ok_def by (auto simp: d(3))
  moreover have "store_ok ?w" "tables_ok ?w"
    using assms(1) unfolding sinv_def store_ok_def tables_ok_def by auto
  ultimately show ?thesis by (simp add: sinv_def)
qed

definition note_sub :: "addr \<Rightarrow> string \<Rightarrow> ((string, u64) gomap \<Rightarrow> (string, u64) gomap) \<Rightarrow> addr \<Rightarrow> world \<Rightarrow> world" where
  "note_sub a t f s = upd_client a (\<lambda>c. c\<lparr>subMap := gm_put t s (subMap c), routeSubMap := f (routeSubMap c)\<rparr>)"

lemma sinv_add_ok:
  assumes "sinv w" and "a < client_next w" and S: "sub_client S = a" "sub_key S = t"
    and "accepted (sub_topic S) (sub_qos S)"
    and "ctyp (client_at w a) = CLIENT \<Longrightarrow> gm_get (subMap (client_at w a)) t = None"
  shows "sinv (note_sub a t f (sub_next w) (add_sub a S w))"
proof -
  let ?s = "sub_next w" and ?v = "add_sub a S w"
  let ?w = "note_sub a t f ?s ?v"
  note d = add_sub_granted [OF assms(1)]
  have fr: "topicsMgr ?w = topicsMgr ?v" "sub_at ?w = (sub_at w)(?s := S)" "sub_next ?w = Suc ?s"
    "client_next ?w = client_next w" "sessionMgr ?w = sessionMgr w" "routes ?w = routes w"
    "clients ?w = clients w" "remotes ?w = remotes w"
    "\<And>b. ctyp (client_at ?w b) = ctyp (client_at w b)" "\<And>b. session (client_at ?w b) = session (client_at w b)"
    "\<And>b. subMap (client_at ?w b) = (if b = a then gm_put t ?s (subMap (client_at w a)) else subMap (client_at w b))"
    by (simp_all add: note_sub_def)
  have live: "live ?w s = live ?v s" for s by (simp add: live_def fr)
  have fresh: "\<And>b t s. b < client_next w \<Longrightarrow> gm_get (subMap (client_at w b)) t = Some s \<Longrightarrow>
      s < ?s \<and> sub_client (sub_at w s) = b \<and> live w s \<and> sub_key (sub_at w s) = t"
    using assms(1) unfolding sinv_def maps_ok_def by blast
  have entry: "\<And>p x q. mem_granted (topicsMgr w) p x = Some q \<Longrightarrow>
      \<exists>s. x = ISub s \<and> s < ?s \<and> levels (sub_topic (sub_at w s)) = Inr p \<and> sub_qos (sub_at w s) = q \<and>
        sub_client (sub_at w s) < client_next w"
    using assms(1) unfolding sinv_def tree_ok_def by blast
  have "tree_ok ?w"
    unfolding tree_ok_def fr
  proof (intro conjI allI impI)
    fix p x q assume x: "mem_granted (topicsMgr ?v) p x = Some q"
    show "\<exists>s. x = ISub s \<and> s < Suc ?s \<and> levels (sub_topic (((sub_at w)(?s := S)) s)) = Inr p \<and>
        sub_qos (((sub_at w)(?s := S)) s) = q \<and> sub_client (((sub_at w)(?s := S)) s) < client_next w"
    proof (cases "x = ISub ?s \<and> levels (sub_topic S) = Inr p \<and> ValidQos (sub_qos S)")
      case True
      with x S assms(2) show ?thesis by (simp add: d(1))
    next
      case False
      with x have "mem_granted (topicsMgr w) p x = Some q" by (auto simp: d(1) split: if_splits)
      from entry [OF this] show ?thesis by (auto simp: less_Suc_eq)
    qed
  qed (rule d(2))
  moreover have "maps_ok ?w"
    unfolding maps_ok_def live fr d(3) using fresh S assms(5) by (auto simp: less_Suc_eq split: if_splits)
  moreover have "tracked_ok ?w"
  proof -
    have tr: "\<And>s. live w s \<Longrightarrow> ctyp (client_at w (sub_client (sub_at w s))) = CLIENT \<Longrightarrow>
        gm_get (subMap (client_at w (sub_client (sub_at w s)))) (sub_key (sub_at w s)) = Some s"
      using assms(1) unfolding sinv_def tracked_ok_def by blast
    show ?thesis unfolding tracked_ok_def live fr d(3)
    proof (intro allI impI)
      fix s
      let ?u = "((sub_at w)(?s := S)) s"
      assume s: "(if s = ?s then accepted (sub_topic S) (sub_qos S) else live w s) \<and>
        ctyp (client_at w (sub_client ?u)) = CLIENT"
      show "gm_get (if sub_client ?u = a then gm_put t ?s (subMap (client_at w a))
          else subMap (client_at w (sub_client ?u))) (sub_key ?u) = Some s"
      proof (cases "s = ?s")
        case True
        then show ?thesis using S by simp
      next
        case False
        with tr [of s] s have "gm_get (subMap (client_at w (sub_client ?u))) (sub_key ?u) = Some s" by simp
        with False s assms(6) show ?thesis by (cases "sub_client ?u = a") auto
      qed
    qed
  qed
  moreover have "store_ok ?w" "tables_ok ?w"
    using assms(1) unfolding sinv_def store_ok_def tables_ok_def fr by auto
  ultimately show ?thesis by (simp add: sinv_def)
qed

lemma gm_ok_AddSubMap [simp]: "gm_ok m \<Longrightarrow> gm_ok (AddSubMap m t)"
  by (simp add: AddSubMap_def split: option.splits)

lemma gm_ok_DelSubMap [simp]: "gm_ok m \<Longrightarrow> gm_ok (fst (DelSubMap m t))"
  by (simp add: DelSubMap_def split: option.splits)

lemma winv_add_ok:
  assumes "winv w" and "a < client_next w" and S: "sub_client S = a" "sub_key S = t"
    and "accepted (sub_topic S) (sub_qos S)"
    and "ctyp (client_at w a) = CLIENT \<Longrightarrow> gm_get (subMap (client_at w a)) t = None"
    and "\<And>m. gm_ok m \<Longrightarrow> gm_ok (f m)"
  shows "winv (note_sub a t f (sub_next w) (add_sub a S w))" (is "winv ?w")
proof (rule winvI)
  show "sinv ?w" using winvD(1) [OF assms(1)] assms(2-6) by (rule sinv_add_ok)
next
  fix b assume "b < client_next ?w"
  then have b: "cinv w b" using winvD(2) [OF assms(1)] by (simp add: note_sub_def)
  then have ok: "gm_ok (subMap (client_at w b))" "gm_ok (routeSubMap (client_at w b))"
    by (simp_all add: cinv_def started_def client_ok_def)
  show "cinv ?w b"
    by (rule cinv_maps [OF b,
          where m = "if b = a then gm_put t (sub_next w) (subMap (client_at w a)) else subMap (client_at w b)"
          and m' = "if b = a then f (routeSubMap (client_at w a)) else routeSubMap (client_at w b)"
          and r = "rmsgs (client_at w b)"])
      (use ok assms(7) in \<open>auto simp: note_sub_def\<close>)
next
  show "fresh ?w" using winvD(5) [OF assms(1)] by (simp add: fresh_def retry_pending_def note_sub_def)
qed

lemma winv_add_fail:
  assumes "winv w" and "\<not> accepted (sub_topic S) (sub_qos S)"
  shows "winv (add_sub a S w)"
  using assms sinv_add_fail [of w S a] cinv_same [of "add_sub a S w" _ w] by (simp add: winv_def fresh_def retry_pending_def)

text \<open>Replacing a session by an initialised, well-formed one.\<close>

lemma winv_session_put:
  assumes "winv w" and "sess_ok s" and "initted s"
  shows "winv (w\<lparr>sessionMgr := sess_put (sessionMgr w) i s\<rparr>)" (is "winv ?w")
proof (rule winvI)
  have l: "live ?w s = live w s" for s by (simp add: live_def)
  have st: "store_inv (sessionMgr w)" "\<And>i. i < sess_next (sessionMgr w) \<Longrightarrow> initted (sess_at (sessionMgr w) i)"
    using winvD(1) [OF assms(1)] by (simp_all add: sinv_def store_ok_def)
  have "store_ok ?w"
    using winvD(1) [OF assms(1)] store_inv_put [OF st(1) assms(2), of i] st(2) assms(3)
    by (simp add: sinv_def store_ok_def sess_put_def)
  with winvD(1) [OF assms(1)] show "sinv ?w"
    unfolding sinv_def tree_ok_def maps_ok_def tracked_ok_def tables_ok_def l by simp
  show "cinv ?w b" if "b < client_next ?w" for b
    using winvD(2) [OF assms(1), of b] that cinv_same [of ?w b w] by simp
  show "fresh ?w" using winvD(5) [OF assms(1)] by (simp add: fresh_def retry_pending_def)
qed

section \<open>One topic of a SUBSCRIBE\<close>

definition suback_code :: "string \<Rightarrow> u8 \<Rightarrow> u8" where
  "suback_code t q =
     (case share_topic t of None \<Rightarrow> QosFailure
      | Some (topic, sh, g) \<Rightarrow> if accepted topic q then q else QosFailure)"

text \<open>What a subscription request leaves alone.\<close>

definition sub_frame :: "world \<Rightarrow> world \<Rightarrow> bool" where
  "sub_frame w w' \<longleftrightarrow> client_next w' = client_next w \<and> timers w' = timers w \<and> routes w' = routes w \<and>
     pchan w' = pchan w \<and> config w' = config w \<and>
     (\<forall>b. ctyp (client_at w' b) = ctyp (client_at w b) \<and> wrote (client_at w' b) = wrote (client_at w b) \<and>
          write_state (client_at w' b) = write_state (client_at w b) \<and>
          session (client_at w' b) = session (client_at w b) \<and> inflight (client_at w' b) = inflight (client_at w b))"

lemma sub_frame_refl [simp]: "sub_frame w w"
  by (simp add: sub_frame_def)

lemma sub_frame_trans: "sub_frame w w' \<Longrightarrow> sub_frame w' w'' \<Longrightarrow> sub_frame w w''"
  by (simp add: sub_frame_def)

lemma sub_frameD:
  assumes "sub_frame w w'"
  shows "client_next w' = client_next w" "ctyp (client_at w' b) = ctyp (client_at w b)"
    "wrote (client_at w' b) = wrote (client_at w b)" "session (client_at w' b) = session (client_at w b)"
    "status (client_at w' b) = status (client_at w b)" "routes w' = routes w"
    "can_write E b p (client_at w' b) = can_write E b p (client_at w b)"
  using assms can_write_cong [of "client_at w' b" "client_at w b"]
  by (auto simp: sub_frame_def write_state_def)

lemma drop_old_sub_conv:
  "drop_old_sub a t w = (case gm_get (subMap (client_at w a)) t of None \<Rightarrow> w | Some s \<Rightarrow> drop_sub a t s w)"
  by (simp add: drop_old_sub_def drop_sub_def split: option.splits)

lemma sub_frame_steps [simp]:
  "sub_frame w (drop_sub a t s w)" "sub_frame w (add_sub a S w)" "sub_frame w (note_sub a t f s w)"
  "sub_frame w (w\<lparr>sessionMgr := m\<rparr>)" "sub_frame w (upd_client a (\<lambda>c. c\<lparr>rmsgs := r\<rparr>) w)"
  "sub_frame w (upd_client a (\<lambda>c. c\<lparr>routeSubMap := rr\<rparr>) w)"
  by (simp_all add: sub_frame_def write_state_def drop_sub_def add_sub_def new_sub_def note_sub_def Let_def)

lemma drop_old_sub_winv:
  assumes "winv w" and "a < client_next w"
  shows "winv (drop_old_sub a t w)" "sub_frame w (drop_old_sub a t w)"
    "gm_get (subMap (client_at (drop_old_sub a t w) a)) t = None"
    "t' \<noteq> t \<Longrightarrow> gm_get (subMap (client_at (drop_old_sub a t w) a)) t' = gm_get (subMap (client_at w a)) t'"
    "rmsgs (client_at (drop_old_sub a t w) a) = rmsgs (client_at w a)"
  using assms winv_drop_sub [OF assms] by (auto simp: drop_old_sub_conv split: option.splits)

definition requested :: "addr \<Rightarrow> string \<times> bool \<times> string \<Rightarrow> u8 \<Rightarrow> subscription" where
  "requested a r q = \<lparr> sub_client = a, sub_topic = fst r, sub_qos = q, share = fst (snd r), groupName = snd (snd r) \<rparr>"

lemma requested_simps [simp]:
  "sub_client (requested a r q) = a" "sub_topic (requested a r q) = fst r" "sub_qos (requested a r q) = q"
  "share (requested a r q) = fst (snd r)" "groupName (requested a r q) = snd (snd r)"
  by (simp_all add: requested_def)

lemma requested_key: "share_topic t = Some r \<Longrightarrow> sub_key (requested a r q) = t"
  by (cases r) (auto simp: sub_key_def dest: share_topic_key)

text \<open>The tree's answer, for a new object.\<close>

lemma Subscribe_new_sub:
  assumes "sinv v"
  shows "accepted (sub_topic S) (sub_qos S) \<Longrightarrow>
      Manager_Subscribe (topicsMgr (new_sub S v)) (sub_topic S) (sub_qos S) (ISub (sub_next v)) =
        (topicsMgr (add_sub a S v), sub_qos S, None)"
    and "\<not> accepted (sub_topic S) (sub_qos S) \<Longrightarrow>
      \<exists>e. Manager_Subscribe (topicsMgr (new_sub S v)) (sub_topic S) (sub_qos S) (ISub (sub_next v)) =
        (topicsMgr (add_sub a S v), QosFailure, Some e)"
    and "(new_sub S v)\<lparr>topicsMgr := topicsMgr (add_sub a S v)\<rparr> = add_sub a S v"
proof -
  note res = add_sub_result [OF assms, of S]
  have fst_res: "fst (Manager_Subscribe (topicsMgr (new_sub S v)) (sub_topic S) (sub_qos S) (ISub (sub_next v))) =
      topicsMgr (add_sub a S v)" by (simp add: add_sub_def Let_def)
  show "Manager_Subscribe (topicsMgr (new_sub S v)) (sub_topic S) (sub_qos S) (ISub (sub_next v)) =
        (topicsMgr (add_sub a S v), sub_qos S, None)" if "accepted (sub_topic S) (sub_qos S)"
    using that res fst_res by (auto simp: accepted_def prod_eq_iff)
  show "\<exists>e. Manager_Subscribe (topicsMgr (new_sub S v)) (sub_topic S) (sub_qos S) (ISub (sub_next v)) =
        (topicsMgr (add_sub a S v), QosFailure, Some e)" if "\<not> accepted (sub_topic S) (sub_qos S)"
    using that res fst_res by (auto simp: accepted_def prod_eq_iff split: sum.splits)
  show "(new_sub S v)\<lparr>topicsMgr := topicsMgr (add_sub a S v)\<rparr> = add_sub a S v"
    by (simp add: add_sub_def Let_def)
qed

lemma note_sub_id:
  "note_sub a t (\<lambda>m. m) s = upd_client a (\<lambda>c. c\<lparr>subMap := gm_put t s (subMap c)\<rparr>)"
proof -
  have "(\<lambda>c. c\<lparr>subMap := gm_put t s (subMap c), routeSubMap := routeSubMap c\<rparr>) =
      (\<lambda>c. c\<lparr>subMap := gm_put t s (subMap c)\<rparr>)" by (rule ext) simp
  then show ?thesis unfolding note_sub_def by (rule arg_cong)
qed

lemma client_topic_conv:
  assumes "share_topic t = Some r" and "i < length qs" and "sinv (drop_old_sub a t w)"
  shows "client_subscribe_topic a qs i t w =
    (let v = drop_old_sub a t w; S = requested a r (qs ! i); u = add_sub a S v
     in if \<not> accepted (fst r) (qs ! i) then Ret (u, QosFailure)
        else let w3 = note_sub a t (\<lambda>m. m) (sub_next v) u
             in (case session (client_at w3 a) of
                   None \<Rightarrow> Panic ''nil pointer''
                 | Some sa \<Rightarrow>
                     and_then (Session_AddTopic (sess_at (sessionMgr w3) sa) t (qs ! i))
                       (\<lambda>(s', _).
                          let w4 = w3\<lparr>sessionMgr := sess_put (sessionMgr w3) sa s'\<rparr>;
                              msgs = fst (Manager_Retained (topicsMgr w4) (fst r) (rmsgs (client_at w4 a)))
                          in Ret (upd_client a (\<lambda>c. c\<lparr>rmsgs := msgs\<rparr>) w4, qs ! i))))"
proof -
  obtain topic sh g where r: "r = (topic, sh, g)" by (cases r)
  let ?v = "drop_old_sub a t w"
  let ?S = "\<lparr> sub_client = a, sub_topic = topic, sub_qos = qs ! i, share = sh, groupName = g \<rparr>"
  let ?res = "Manager_Subscribe (topicsMgr (new_sub ?S ?v)) topic (qs ! i) (ISub (sub_next ?v))"
  note new = Subscribe_new_sub [OF assms(3), where S = ?S and a = a, unfolded subscription.select_convs]
  show ?thesis
  proof (cases "accepted topic (qs ! i)")
    case True
    with new(1) have "?res = (topicsMgr (add_sub a ?S ?v), qs ! i, None)" by simp
    with assms(1,2) True r show ?thesis
      by (simp add: client_subscribe_topic_def new(3) note_sub_id requested_def Let_def split_beta split: option.split)
  next
    case False
    with new(2) obtain e where "?res = (topicsMgr (add_sub a ?S ?v), QosFailure, Some e)" by auto
    with assms(1,2) False r show ?thesis
      by (simp add: client_subscribe_topic_def new(3) requested_def Let_def)
  qed
qed

text \<open>
  The QoS a client holds under a filter text in its own map, the QoS recorded in its session, and
  what one requested topic should do to them.
\<close>

definition held :: "world \<Rightarrow> addr \<Rightarrow> string \<Rightarrow> u8 option" where
  "held w a t = map_option (\<lambda>s. sub_qos (sub_at w s)) (gm_get (subMap (client_at w a)) t)"

definition recorded :: "world \<Rightarrow> addr \<Rightarrow> string \<Rightarrow> u8 option" where
  "recorded w a t =
     (case session (client_at w a) of None \<Rightarrow> None | Some i \<Rightarrow> topic_qos (sess_at (sessionMgr w) i) t)"

definition grants :: "string \<Rightarrow> u8 \<Rightarrow> bool" where
  "grants t q \<longleftrightarrow> (\<exists>r. share_topic t = Some r \<and> accepted (fst r) q)"

lemma suback_code_grants: "suback_code t q = (if grants t q then q else QosFailure)"
  by (auto simp: suback_code_def grants_def split: option.splits)

definition hold_step :: "string \<times> u8 \<Rightarrow> (string \<Rightarrow> u8 option) \<Rightarrow> (string \<Rightarrow> u8 option)" where
  "hold_step = (\<lambda>(t, q) h. if grants t q then h(t \<mapsto> q) else if share_topic t = None then h else h(t := None))"

definition record_step :: "string \<times> u8 \<Rightarrow> (string \<Rightarrow> u8 option) \<Rightarrow> (string \<Rightarrow> u8 option)" where
  "record_step = (\<lambda>(t, q) h. if grants t q then h(t \<mapsto> q) else h)"

lemma held_cong:
  assumes "winv w" and "a < client_next w"
    and "\<And>s. s < sub_next w \<Longrightarrow> sub_at w' s = sub_at w s"
  shows "map_option (\<lambda>s. sub_qos (sub_at w' s)) (gm_get (subMap (client_at w a)) t) = held w a t"
proof -
  have "s < sub_next w" if "gm_get (subMap (client_at w a)) t = Some s" for s
    using winvD(1) [OF assms(1)] assms(2) that unfolding sinv_def maps_ok_def by blast
  then show ?thesis
    using assms(3) by (cases "gm_get (subMap (client_at w a)) t") (auto simp: held_def)
qed

lemma held_drop_old:
  assumes "winv w" and "a < client_next w"
  shows "held (drop_old_sub a t w) a = (held w a)(t := None)"
  by (auto simp: held_def fun_eq_iff drop_old_sub_conv split: option.splits)

lemma recorded_drop_old [simp]: "recorded (drop_old_sub a t w) b = recorded w b"
  by (auto simp: recorded_def drop_old_sub_conv fun_eq_iff split: option.splits)

text \<open>A message is retained for a requested filter if the filter matches its topic.\<close>

definition retained_for :: "world \<Rightarrow> string \<Rightarrow> publish_packet \<Rightarrow> bool" where
  "retained_for w t x \<longleftrightarrow>
     (\<exists>r fl p. share_topic t = Some r \<and> levels (fst r) = Inr fl \<and> matches fl p \<and>
        mem_stored (topicsMgr w) p = Some x)"

text \<open>The result of a list of requested topics: the maps, the session and the collected messages.\<close>

definition sub_result :: "addr \<Rightarrow> (string \<times> u8) list \<Rightarrow> world \<Rightarrow> world \<Rightarrow> bool" where
  "sub_result a tqs w w' \<longleftrightarrow> winv w' \<and> sub_frame w w' \<and>
     held w' a = fold hold_step tqs (held w a) \<and> recorded w' a = fold record_step tqs (recorded w a) \<and>
     mem_stored (topicsMgr w') = mem_stored (topicsMgr w) \<and>
     (\<exists>ms. rmsgs (client_at w' a) = rmsgs (client_at w a) @ ms \<and>
        (\<forall>x. x \<in> set ms \<longleftrightarrow> (\<exists>(t, q) \<in> set tqs. grants t q \<and> retained_for w t x)))"

lemma sub_result_append:
  assumes "sub_result a xs w v" and "sub_result a ys v w'"
  shows "sub_result a (xs @ ys) w w'"
proof -
  have st: "retained_for v t x = retained_for w t x" for t x
    using assms(1) by (simp add: sub_result_def retained_for_def)
  from assms obtain ms ms' where "rmsgs (client_at v a) = rmsgs (client_at w a) @ ms"
    "rmsgs (client_at w' a) = rmsgs (client_at v a) @ ms'"
    "\<forall>x. x \<in> set ms \<longleftrightarrow> (\<exists>(t, q) \<in> set xs. grants t q \<and> retained_for w t x)"
    "\<forall>x. x \<in> set ms' \<longleftrightarrow> (\<exists>(t, q) \<in> set ys. grants t q \<and> retained_for w t x)"
    unfolding sub_result_def st by blast
  then have "\<exists>ms. rmsgs (client_at w' a) = rmsgs (client_at w a) @ ms \<and>
      (\<forall>x. x \<in> set ms \<longleftrightarrow> (\<exists>(t, q) \<in> set (xs @ ys). grants t q \<and> retained_for w t x))"
    by (intro exI [of _ "ms @ ms'"]) auto
  with assms sub_frame_trans show ?thesis unfolding sub_result_def by auto
qed

lemma stored_steps [simp]:
  "mem_stored (topicsMgr (drop_sub a t s w)) = mem_stored (topicsMgr w)"
  "mem_stored (topicsMgr (add_sub a S w)) = mem_stored (topicsMgr w)"
  "mem_stored (topicsMgr (note_sub a t f s w)) = mem_stored (topicsMgr w)"
  "mem_stored (topicsMgr (drop_old_sub a t w)) = mem_stored (topicsMgr w)"
proof -
  show d: "mem_stored (topicsMgr (drop_sub a t s w)) = mem_stored (topicsMgr w)" for s
    by (simp add: drop_sub_def topics_manager_defs mem.stored_unsubscribe)
  show "mem_stored (topicsMgr (drop_old_sub a t w)) = mem_stored (topicsMgr w)"
    by (simp add: drop_old_sub_conv d split: option.splits)
  show "mem_stored (topicsMgr (add_sub a S w)) = mem_stored (topicsMgr w)"
    by (simp add: add_sub_def new_sub_def Let_def topics_manager_defs mem.stored_subscribe)
  show "mem_stored (topicsMgr (note_sub a t f s w)) = mem_stored (topicsMgr w)"
    by (simp add: note_sub_def)
qed

lemma client_topic_refused:
  assumes "winv w" and "a < client_next w" and "i < length qs" and "\<not> grants t (qs ! i)"
  shows "\<exists>w'. client_subscribe_topic a qs i t w = Ret (w', suback_code t (qs ! i)) \<and>
    sub_result a [(t, qs ! i)] w w'"
proof (cases "share_topic t")
  case None
  then show ?thesis using assms(1,4)
    by (simp add: client_subscribe_topic_def suback_code_def hold_step_def record_step_def sub_result_def)
next
  case (Some r)
  let ?v = "drop_old_sub a t w"
  let ?u = "add_sub a (requested a r (qs ! i)) ?v"
  note d = drop_old_sub_winv [OF assms(1,2), of t]
  have nv: "a < client_next ?v" using assms(2) sub_frameD(1) [OF d(2)] by simp
  from assms(4) Some have na: "\<not> accepted (fst r) (qs ! i)" by (simp add: grants_def)
  have "client_subscribe_topic a qs i t w = Ret (?u, QosFailure)"
    using na by (simp add: client_topic_conv [OF Some assms(3) winvD(1) [OF d(1)]] Let_def)
  moreover have "winv ?u" using d(1) na by (intro winv_add_fail) simp_all
  moreover have "held ?u a = held ?v a"
    using held_cong [OF d(1) nv, of ?u] by (auto simp: held_def fun_eq_iff)
  moreover have "recorded ?u a = recorded ?v a" unfolding recorded_def by (auto split: option.splits)
  ultimately show ?thesis
    using sub_frame_trans [OF d(2) sub_frame_steps(2)] held_drop_old [OF assms(1,2)] Some assms(4) d(5)
    by (auto simp: hold_step_def record_step_def suback_code_grants sub_result_def)
qed

lemma client_topic_granted:
  assumes "winv w" and "a < client_next w" and "i < length qs" and "grants t (qs ! i)"
  shows "\<exists>w'. client_subscribe_topic a qs i t w = Ret (w', suback_code t (qs ! i)) \<and>
    sub_result a [(t, qs ! i)] w w'"
proof -
  from assms(4) obtain r where r: "share_topic t = Some r" and acc: "accepted (fst r) (qs ! i)"
    by (auto simp: grants_def)
  from acc obtain fl where fl: "levels (fst r) = Inr fl" by (auto simp: accepted_def)
  let ?v = "drop_old_sub a t w" and ?S = "requested a r (qs ! i)"
  let ?u = "add_sub a ?S ?v"
  let ?x = "note_sub a t (\<lambda>m. m) (sub_next ?v) ?u"
  note d = drop_old_sub_winv [OF assms(1,2), of t]
  have nv: "a < client_next ?v" using assms(2) sub_frameD(1) [OF d(2)] by simp
  have x: "winv ?x" using d(1) nv by (rule winv_add_ok) (use r acc d(3) in \<open>simp_all add: requested_key\<close>)
  have fr: "sub_frame w ?x"
    using sub_frame_trans [OF sub_frame_trans [OF d(2) sub_frame_steps(2)] sub_frame_steps(3)] .
  have "a < client_next ?x" using assms(2) sub_frameD(1) [OF fr] by simp
  then obtain sa where sa: "session (client_at ?x a) = Some sa" "sa < sess_next (sessionMgr ?x)"
    using winvD(1) [OF x] unfolding sinv_def store_ok_def by blast
  then have ok: "sess_ok (sess_at (sessionMgr ?x) sa)" "initted (sess_at (sessionMgr ?x) sa)"
    using winvD(1) [OF x] by (simp_all add: sinv_def store_ok_def store_inv_def)
  from ok obtain s' where s': "Session_AddTopic (sess_at (sessionMgr ?x) sa) t (qs ! i) = Ret (s', None)"
    "topic_qos s' = (topic_qos (sess_at (sessionMgr ?x) sa))(t \<mapsto> qs ! i)" "initted s'"
    by (rule AddTopic_ok) (rule that)
  let ?y = "?x\<lparr>sessionMgr := sess_put (sessionMgr ?x) sa s'\<rparr>"
  have y: "winv ?y" using x sess_ok_ops(4) [OF ok(1) s'(1)] s'(3) by (rule winv_session_put)
  from mem.retained_result [OF winvD(4) [OF y] fl, of "rmsgs (client_at ?y a)"] obtain ms where
    ms: "mem_Retained (topicsMgr ?y) (fst r) (rmsgs (client_at ?y a)) = (rmsgs (client_at ?y a) @ ms, None)"
      "\<forall>x. x \<in> set ms \<longleftrightarrow> (\<exists>p. matches fl p \<and> mem_stored (topicsMgr ?y) p = Some x)" by blast
  let ?z = "upd_client a (\<lambda>c. c\<lparr>rmsgs := rmsgs (client_at ?y a) @ ms\<rparr>) ?y"
  have "client_subscribe_topic a qs i t w = Ret (?z, qs ! i)"
    using acc sa(1) s'(1) ms(1)
    by (simp add: client_topic_conv [OF r assms(3) winvD(1) [OF d(1)]] Let_def topics_manager_defs)
  moreover have "winv ?z" using keeps_winv [OF keeps_upd y] by simp
  moreover have "sub_frame w ?z"
    using sub_frame_trans [OF sub_frame_trans [OF fr sub_frame_steps(4)] sub_frame_steps(5)] .
  moreover have "held ?z a = hold_step (t, qs ! i) (held w a)"
  proof -
    have "held ?z a = (held ?v a)(t \<mapsto> qs ! i)"
      using held_cong [OF d(1) nv, of ?z]
      by (auto simp: held_def fun_eq_iff note_sub_def)
    then show ?thesis using assms(4) by (simp add: held_drop_old [OF assms(1,2)] hold_step_def)
  qed
  moreover have "recorded ?z a = record_step (t, qs ! i) (recorded w a)"
  proof -
    have "recorded ?z a = topic_qos s'" using sa(1) by (simp add: recorded_def sess_put_def fun_eq_iff)
    moreover have "recorded w a = topic_qos (sess_at (sessionMgr ?x) sa)"
    proof -
      have "session (client_at w a) = Some sa" using sub_frameD(4) [OF fr, of a] sa(1) by simp
      moreover have "sessionMgr ?x = sessionMgr w"
        by (simp add: note_sub_def drop_old_sub_conv split: option.splits)
      ultimately show ?thesis by (simp add: recorded_def fun_eq_iff)
    qed
    ultimately show ?thesis using s'(2) assms(4) by (simp add: record_step_def)
  qed
  moreover have "rmsgs (client_at ?z a) = rmsgs (client_at w a) @ ms"
    using d(5) by (simp add: note_sub_def)
  moreover have "\<forall>x. x \<in> set ms \<longleftrightarrow> grants t (qs ! i) \<and> retained_for w t x"
    using ms(2) r fl assms(4) by (auto simp: retained_for_def)
  ultimately show ?thesis using assms(4) by (auto simp: sub_result_def suback_code_grants)
qed

lemma client_topic:
  assumes "winv w" and "a < client_next w" and "i < length qs"
  shows "\<exists>w'. client_subscribe_topic a qs i t w = Ret (w', suback_code t (qs ! i)) \<and>
    sub_result a [(t, qs ! i)] w w'"
  using client_topic_granted [OF assms, of t] client_topic_refused [OF assms, of t] by blast

section \<open>All topics of a SUBSCRIBE\<close>

lemma subscribe_loop_client:
  "winv w \<Longrightarrow> a < client_next w \<Longrightarrow> i + length ts \<le> length qs \<Longrightarrow>
   \<exists>w'. subscribe_loop (client_subscribe_topic a qs) i ts w rc =
       Ret (w', rc @ map (\<lambda>(t, q). suback_code t q) (zip ts (drop i qs))) \<and>
     sub_result a (zip ts (drop i qs)) w w'"
proof (induction ts arbitrary: i w rc)
  case Nil
  then show ?case by (simp add: sub_result_def)
next
  case (Cons t ts)
  from Cons.prems have i: "i < length qs" by simp
  then have dr: "zip (t # ts) (drop i qs) = [(t, qs ! i)] @ zip ts (drop (Suc i) qs)"
    by (simp flip: Cons_nth_drop_Suc)
  from client_topic [OF Cons.prems(1,2) i, of t] obtain v where
    v: "client_subscribe_topic a qs i t w = Ret (v, suback_code t (qs ! i))" "sub_result a [(t, qs ! i)] w v"
    by blast
  then have wv: "winv v" "a < client_next v"
    using Cons.prems(2) sub_frameD(1) [of w v] by (auto simp: sub_result_def)
  from Cons.IH [OF wv, of "Suc i" "rc @ [suback_code t (qs ! i)]"] Cons.prems(3) obtain w' where
    "subscribe_loop (client_subscribe_topic a qs) (Suc i) ts v (rc @ [suback_code t (qs ! i)]) =
       Ret (w', rc @ [suback_code t (qs ! i)] @ map (\<lambda>(t, q). suback_code t q) (zip ts (drop (Suc i) qs)))"
    "sub_result a (zip ts (drop (Suc i) qs)) v w'" by auto
  with v(1) sub_result_append [OF v(2)] dr show ?case by auto
qed

text \<open>Writing a list of packets to one client.\<close>

definition wrote_only :: "world \<Rightarrow> world \<Rightarrow> bool" where
  "wrote_only w w' \<longleftrightarrow> same_but_clients w w' \<and>
     (\<forall>b. \<exists>x. client_at w' b = (client_at w b)\<lparr>wrote := x\<rparr>)"

lemma wrote_only_refl [simp]: "wrote_only w w"
proof -
  have "client_at w b = (client_at w b)\<lparr>wrote := wrote (client_at w b)\<rparr>" for b by simp
  then show ?thesis unfolding wrote_only_def by (intro conjI allI) (simp, blast)
qed

lemma wrote_only_trans: "wrote_only w w' \<Longrightarrow> wrote_only w' w'' \<Longrightarrow> wrote_only w w''"
proof -
  assume w: "wrote_only w w'" "wrote_only w' w''"
  then have "same_but_clients w w''" using same_but_clients_trans unfolding wrote_only_def by blast
  moreover have "\<exists>x. client_at w'' b = (client_at w b)\<lparr>wrote := x\<rparr>" for b
  proof -
    from w obtain x y where "client_at w'' b = (client_at w' b)\<lparr>wrote := x\<rparr>"
      "client_at w' b = (client_at w b)\<lparr>wrote := y\<rparr>" unfolding wrote_only_def by blast
    then show ?thesis by auto
  qed
  ultimately show ?thesis unfolding wrote_only_def by blast
qed

lemma wrote_only_client:
  assumes "wrote_only w w'"
  shows "rmsgs (client_at w' b) = rmsgs (client_at w b)" "subMap (client_at w' b) = subMap (client_at w b)"
    "session (client_at w' b) = session (client_at w b)" "routeSubMap (client_at w' b) = routeSubMap (client_at w b)"
    "can_write E b p (client_at w' b) = can_write E b p (client_at w b)"
    "ctyp (client_at w' b) = ctyp (client_at w b)"
proof -
  obtain x where x: "client_at w' b = (client_at w b)\<lparr>wrote := x\<rparr>"
    using assms unfolding wrote_only_def by blast
  show "rmsgs (client_at w' b) = rmsgs (client_at w b)" "subMap (client_at w' b) = subMap (client_at w b)"
    "session (client_at w' b) = session (client_at w b)" "routeSubMap (client_at w' b) = routeSubMap (client_at w b)"
    "can_write E b p (client_at w' b) = can_write E b p (client_at w b)"
    "ctyp (client_at w' b) = ctyp (client_at w b)"
    by (simp_all add: x can_write_def)
qed

lemma wrote_only_views:
  assumes "wrote_only w w'"
  shows "held w' a = held w a" "recorded w' a = recorded w a"
proof -
  note c = wrote_only_client [OF assms]
  have s: "same_but_clients w w'" using assms by (simp add: wrote_only_def)
  show "held w' a = held w a" by (rule ext) (simp add: held_def c(2) same_but_clientsD(8) [OF s])
  show "recorded w' a = recorded w a"
    unfolding recorded_def c(3) same_but_clientsD(5) [OF s] by (rule refl)
qed

lemma WritePacket_wrote_only:
  assumes "winv w" and "a < client_next w"
  shows "wrote_only w (fst (WritePacket E a p w))"
  using WritePacket_started [OF winvD(3) [OF assms], of E p] unfolding wrote_only_def
  by (intro conjI allI) (simp, blast)

text \<open>Writing a list of packets to one client.\<close>

lemma write_all:
  "winv w \<Longrightarrow> a < client_next w \<Longrightarrow>
   winv (fold (\<lambda>m w. fst (WritePacket E a (f m) w)) ms w) \<and>
   wrote_only w (fold (\<lambda>m w. fst (WritePacket E a (f m) w)) ms w) \<and>
   wrote (client_at (fold (\<lambda>m w. fst (WritePacket E a (f m) w)) ms w) b) = wrote (client_at w b) @
      (if b = a then filter (\<lambda>p. can_write E a p (client_at w a)) (map f ms) else [])"
proof (induction ms arbitrary: w)
  case (Cons m ms)
  let ?v = "fst (WritePacket E a (f m) w)"
  have v: "winv ?v" "a < client_next ?v"
    using keeps_both [OF keeps_WritePacket Cons.prems] by blast+
  note wo = WritePacket_wrote_only [OF Cons.prems, of E "f m"]
  have "filter (\<lambda>p. can_write E a p (client_at ?v a)) ps = filter (\<lambda>p. can_write E a p (client_at w a)) ps" for ps
    by (simp add: wrote_only_client [OF wo])
  with Cons.IH [OF v] wrote_only_trans [OF wo] show ?case by (auto simp: wrote_WritePacket)
qed simp

lemma WritePacket_error:
  assumes "winv w" and "a < client_next w" and "status (client_at w a) = Connected"
  shows "snd (WritePacket E a p w) = None \<longleftrightarrow> can_write E a p (client_at w a)"
  using winvD(3) [OF assms(1,2)] assms(3)
  by (auto simp: WritePacket_def Let_def can_write_def started_def client_ok_def)

text \<open>What a client gets in answer to a SUBSCRIBE.\<close>

definition suback :: "subscribe_packet \<Rightarrow> control_packet" where
  "suback p = SubackPacket (s_MessageID p) (map (\<lambda>(t, q). suback_code t q) (zip (s_Topics p) (s_Qoss p)))"

lemma client_subscribe_effect:
  assumes "winv w" and "a < client_next w" and "status (client_at w a) = Connected"
    and "length (s_Topics p) \<le> length (s_Qoss p)"
  obtains v w' where "processClientSubscribe E a p w = Ret w'" and "winv w'"
    and "sub_result a (zip (s_Topics p) (s_Qoss p)) w v" and "wrote_only v w'"
    and "\<And>b. wrote (client_at w' b) = wrote (client_at w b) @
      (if b = a \<and> can_write E a (suback p) (client_at w a)
       then suback p # filter (\<lambda>q. can_write E a q (client_at w a)) (map PublishPacket (rmsgs (client_at v a)))
       else [])"
proof -
  have br: "broker (client_at w a)"
    using winvD(3) [OF assms(1,2)] by (simp add: started_def client_ok_def)
  from subscribe_loop_client [OF assms(1,2), of 0 "s_Topics p" "s_Qoss p" "[]"] assms(4) obtain v where
    v: "subscribe_loop (client_subscribe_topic a (s_Qoss p)) 0 (s_Topics p) w [] =
        Ret (v, map (\<lambda>(t, q). suback_code t q) (zip (s_Topics p) (s_Qoss p)))"
      "sub_result a (zip (s_Topics p) (s_Qoss p)) w v" by auto
  then have fr: "winv v" "sub_frame w v" by (simp_all add: sub_result_def)
  note f = sub_frameD [OF fr(2)]
  have nv: "a < client_next v" "status (client_at v a) = Connected" using assms(2,3) f(1) f(5) [of a] by simp_all
  let ?u = "fst (WritePacket E a (suback p) v)"
  have u: "winv ?u" "a < client_next ?u"
    using keeps_both [OF keeps_WritePacket fr(1) nv(1)] by blast+
  note wo = WritePacket_wrote_only [OF fr(1) nv(1), of E "suback p"]
  let ?x = "fold (\<lambda>rm w. fst (WritePacket E a (PublishPacket rm) w)) (rmsgs (client_at ?u a)) ?u"
  note all = write_all [OF u, of E PublishPacket "rmsgs (client_at ?u a)"]
  have cw: "can_write E a q (client_at ?u a) = can_write E a q (client_at w a)" for q
    using wrote_only_client(5) [OF wo] f(7) by blast
  have step: "processClientSubscribe E a p w =
      (if can_write E a (suback p) (client_at w a) then Ret ?x else Ret ?u)"
    using WritePacket_error [OF fr(1) nv, of E "suback p"] br assms(3) v(1) f(7)
    by (cases "WritePacket E a (suback p) v") (auto simp: processClientSubscribe_def suback_def split: option.splits)
  show ?thesis
  proof (cases "can_write E a (suback p) (client_at w a)")
    case True
    show ?thesis
    proof (rule that [OF _ _ v(2)])
      show "processClientSubscribe E a p w = Ret ?x" using step True by simp
      show "winv ?x" "wrote_only v ?x" using all wrote_only_trans [OF wo] by blast+
      show "wrote (client_at ?x b) = wrote (client_at w b) @
        (if b = a \<and> can_write E a (suback p) (client_at w a)
         then suback p # filter (\<lambda>q. can_write E a q (client_at w a)) (map PublishPacket (rmsgs (client_at v a)))
         else [])" for b
        using all [of b] True f(3,7) by (auto simp: wrote_WritePacket cw wrote_only_client(1) [OF wo])
    qed
  next
    case False
    show ?thesis
      by (rule that [OF _ u(1) v(2) wo]) (use step False f(3,7) in \<open>auto simp: wrote_WritePacket\<close>)
  qed
qed

section \<open>Routers\<close>

lemma router_topic_conv:
  assumes "share_topic t = Some r" and "i < length qs" and "sinv w"
  shows "router_subscribe_topic a qs i t w =
    (let u = add_sub a (requested a r (qs ! i)) w
     in if accepted (fst r) (qs ! i)
        then Ret (note_sub a t (\<lambda>m. AddSubMap m (fst r)) (sub_next w) u, qs ! i)
        else Ret (u, QosFailure))"
proof -
  obtain topic sh g where r: "r = (topic, sh, g)" by (cases r)
  let ?S = "\<lparr> sub_client = a, sub_topic = topic, sub_qos = qs ! i, share = sh, groupName = g \<rparr>"
  let ?res = "Manager_Subscribe (topicsMgr (new_sub ?S w)) topic (qs ! i) (ISub (sub_next w))"
  note new = Subscribe_new_sub [OF assms(3), where S = ?S and a = a, unfolded subscription.select_convs]
  show ?thesis
  proof (cases "accepted topic (qs ! i)")
    case True
    with new(1) have "?res = (topicsMgr (add_sub a ?S w), qs ! i, None)" by simp
    with assms(1,2) True r show ?thesis
      by (simp add: router_subscribe_topic_def new(3) note_sub_def requested_def Let_def)
  next
    case False
    with new(2) obtain e where "?res = (topicsMgr (add_sub a ?S w), QosFailure, Some e)" by auto
    with assms(1,2) False r show ?thesis
      by (simp add: router_subscribe_topic_def new(3) requested_def Let_def)
  qed
qed

lemma router_topic:
  assumes "winv w" and "a < client_next w" and "ctyp (client_at w a) \<noteq> CLIENT" and "i < length qs"
  shows "\<exists>w'. router_subscribe_topic a qs i t w = Ret (w', suback_code t (qs ! i)) \<and> winv w' \<and> sub_frame w w'"
proof (cases "share_topic t")
  case None
  then show ?thesis using assms(1) by (simp add: router_subscribe_topic_def suback_code_def)
next
  case (Some r)
  let ?u = "add_sub a (requested a r (qs ! i)) w"
  let ?x = "note_sub a t (\<lambda>m. AddSubMap m (fst r)) (sub_next w) ?u"
  note conv = router_topic_conv [OF Some assms(4) winvD(1) [OF assms(1)], of a]
  have g: "grants t (qs ! i) \<longleftrightarrow> accepted (fst r) (qs ! i)" using Some by (simp add: grants_def)
  show ?thesis
  proof (cases "accepted (fst r) (qs ! i)")
    case True
    have "winv ?x" using assms(1,2) by (rule winv_add_ok) (use Some True assms(3) in \<open>simp_all add: requested_key\<close>)
    moreover have "sub_frame w ?x" using sub_frame_trans [OF sub_frame_steps(2) sub_frame_steps(3)] .
    ultimately show ?thesis using True g by (simp add: conv suback_code_grants Let_def)
  next
    case False
    then have "winv ?u" using assms(1) by (intro winv_add_fail) simp_all
    with False g show ?thesis by (simp add: conv suback_code_grants Let_def)
  qed
qed

lemma subscribe_loop_router:
  "winv w \<Longrightarrow> a < client_next w \<Longrightarrow> ctyp (client_at w a) \<noteq> CLIENT \<Longrightarrow> i + length ts \<le> length qs \<Longrightarrow>
   \<exists>w'. subscribe_loop (router_subscribe_topic a qs) i ts w rc =
       Ret (w', rc @ map (\<lambda>(t, q). suback_code t q) (zip ts (drop i qs))) \<and> winv w' \<and> sub_frame w w'"
proof (induction ts arbitrary: i w rc)
  case (Cons t ts)
  from Cons.prems have i: "i < length qs" by simp
  then have dr: "drop i qs = qs ! i # drop (Suc i) qs" by (simp add: Cons_nth_drop_Suc)
  from router_topic [OF Cons.prems(1-3) i, of t] obtain v where
    v: "router_subscribe_topic a qs i t w = Ret (v, suback_code t (qs ! i))" "winv v" "sub_frame w v" by blast
  then have wv: "a < client_next v" "ctyp (client_at v a) \<noteq> CLIENT"
    using Cons.prems(2,3) sub_frameD(1,2) [OF v(3)] by simp_all
  from Cons.IH [OF v(2) wv, of "Suc i" "rc @ [suback_code t (qs ! i)]"] Cons.prems(4) obtain w' where
    "subscribe_loop (router_subscribe_topic a qs) (Suc i) ts v (rc @ [suback_code t (qs ! i)]) =
       Ret (w', rc @ [suback_code t (qs ! i)] @ map (\<lambda>(t, q). suback_code t q) (zip ts (drop (Suc i) qs)))"
    "winv w'" "sub_frame v w'" by auto
  with v(1) sub_frame_trans [OF v(3)] dr show ?case by auto
qed simp

lemma ProcessSubscribe_winv:
  assumes "winv w" and "a < client_next w" and "length (s_Topics p) \<le> length (s_Qoss p)"
  shows "\<exists>w'. ProcessSubscribe E a p w = Ret w' \<and> winv w'"
proof -
  have br: "broker (client_at w a)" "status (client_at w a) \<noteq> NotStarted"
    using winvD(3) [OF assms(1,2)] by (simp_all add: started_def client_ok_def)
  show ?thesis
  proof (cases "status (client_at w a)")
    case Connected
    have client: "\<exists>w'. processClientSubscribe E a p w = Ret w' \<and> winv w'"
      using client_subscribe_effect [OF assms(1,2) Connected assms(3), of E] by metis
    have router: "\<exists>w'. processRouterSubscribe E a p w = Ret w' \<and> winv w'" if "ctyp (client_at w a) \<noteq> CLIENT"
    proof -
      from subscribe_loop_router [OF assms(1,2) that, of 0 "s_Topics p" "s_Qoss p" "[]"] assms(3) obtain v where
        "subscribe_loop (router_subscribe_topic a (s_Qoss p)) 0 (s_Topics p) w [] =
          Ret (v, map (\<lambda>(t, q). suback_code t q) (zip (s_Topics p) (s_Qoss p)))" "winv v" by auto
      then show ?thesis
        using br Connected keeps_winv [OF keeps_WritePacket] by (simp add: processRouterSubscribe_def)
    qed
    show ?thesis using client router assms(1)
      by (cases "ctyp (client_at w a)") (simp_all add: ProcessSubscribe_def)
  next
    case Disconnected
    then show ?thesis using assms(1)
      by (cases "ctyp (client_at w a)")
        (simp_all add: ProcessSubscribe_def processClientSubscribe_def processRouterSubscribe_def)
  qed (use br in simp)
qed

section \<open>UNSUBSCRIBE\<close>

lemma client_unsub_topic:
  assumes "winv w" and "a < client_next w"
  shows "\<exists>w'. client_unsubscribe_topic a t w = Ret w' \<and> winv w' \<and> sub_frame w w' \<and>
    held w' a = (held w a)(t := None) \<and>
    recorded w' a = (if held w a t = None then recorded w a else (recorded w a)(t := None))"
proof (cases "gm_get (subMap (client_at w a)) t")
  case None
  then have "held w a t = None" by (simp add: held_def)
  with None assms(1) show ?thesis by (auto simp: client_unsubscribe_topic_def fun_upd_idem)
next
  case (Some s)
  let ?x = "drop_sub a t s w"
  have x: "winv ?x" using assms Some by (rule winv_drop_sub)
  obtain sa where sa: "session (client_at w a) = Some sa" "sa < sess_next (sessionMgr w)"
    using winvD(1) [OF assms(1)] assms(2) unfolding sinv_def store_ok_def by blast
  then have ok: "sess_ok (sess_at (sessionMgr w) sa)" "initted (sess_at (sessionMgr w) sa)"
    using winvD(1) [OF assms(1)] by (simp_all add: sinv_def store_ok_def store_inv_def)
  let ?s = "fst (Session_RemoveTopic (sess_at (sessionMgr w) sa) t)"
  let ?y = "?x\<lparr>sessionMgr := sess_put (sessionMgr ?x) sa ?s\<rparr>"
  have "initted ?s" using ok(2) by (simp add: Session_RemoveTopic_def)
  then have "winv ?y" using x sess_ok_ops(5) [OF ok(1)] by (intro winv_session_put)
  moreover have "client_unsubscribe_topic a t w = Ret ?y"
    using Some sa(1)
    by (simp add: client_unsubscribe_topic_def drop_sub_def upd_client_def Let_def)
  moreover have "sub_frame w ?y" using sub_frame_trans [OF sub_frame_steps(1) sub_frame_steps(4)] .
  moreover have "held ?y a = (held w a)(t := None)" by (auto simp: held_def fun_eq_iff)
  moreover have "recorded ?y a = (recorded w a)(t := None)"
    using sa(1) topic_qos_RemoveTopic [OF ok(2), of t]
    by (auto simp: recorded_def fun_eq_iff sess_put_def)
  moreover have "held w a t \<noteq> None" using Some by (simp add: held_def)
  ultimately show ?thesis by auto
qed

lemma unsubscribe_loop_client:
  "winv w \<Longrightarrow> a < client_next w \<Longrightarrow>
   \<exists>w'. unsubscribe_loop (client_unsubscribe_topic a) ts w = Ret w' \<and> winv w' \<and> sub_frame w w' \<and>
     held w' a = (\<lambda>t. if t \<in> set ts then None else held w a t) \<and>
     recorded w' a = (\<lambda>t. if t \<in> set ts \<and> held w a t \<noteq> None then None else recorded w a t)"
proof (induction ts arbitrary: w)
  case (Cons t ts)
  from client_unsub_topic [OF Cons.prems, of t] obtain v where
    v: "client_unsubscribe_topic a t w = Ret v" "winv v" "sub_frame w v" "held v a = (held w a)(t := None)"
      "recorded v a = (if held w a t = None then recorded w a else (recorded w a)(t := None))" by blast
  have "a < client_next v" using Cons.prems(2) sub_frameD(1) [OF v(3)] by simp
  from Cons.IH [OF v(2) this] obtain w' where
    w': "unsubscribe_loop (client_unsubscribe_topic a) ts v = Ret w'" "winv w'" "sub_frame v w'"
      "held w' a = (\<lambda>t. if t \<in> set ts then None else held v a t)"
      "recorded w' a = (\<lambda>t. if t \<in> set ts \<and> held v a t \<noteq> None then None else recorded v a t)" by blast
  with v sub_frame_trans [OF v(3) w'(3)] show ?case by (auto simp: fun_eq_iff)
qed simp

lemma router_unsub_topic:
  assumes "winv w" and "a < client_next w"
  shows "\<exists>w'. router_unsubscribe_topic a t w = Ret w' \<and> winv w' \<and> sub_frame w w'"
proof (cases "gm_get (subMap (client_at w a)) t")
  case None
  then show ?thesis using assms(1) by (simp add: router_unsubscribe_topic_def)
next
  case (Some s)
  let ?m = "fst (DelSubMap (routeSubMap (client_at w a)) t)"
  let ?x = "upd_client a (\<lambda>c. c\<lparr>routeSubMap := ?m\<rparr>) w"
  have "soft (client_at w a) ((client_at w a)\<lparr>routeSubMap := ?m\<rparr>)"
    by (simp add: soft_def client_ok_def inflight_ok_def)
  then have x: "winv ?x" using keeps_winv [OF keeps_upd assms(1)] by simp
  have y: "winv (drop_sub a t s ?x)" using x by (rule winv_drop_sub) (use assms(2) Some in simp_all)
  have f: "sub_frame w ?x" "sub_frame w (drop_sub a t s ?x)"
    using sub_frame_steps(6) sub_frame_trans [OF sub_frame_steps(6) sub_frame_steps(1)] by blast+
  show ?thesis
  proof (cases "snd (DelSubMap (routeSubMap (client_at w a)) t) > 0")
    case True
    with Some x f show ?thesis by (simp add: router_unsubscribe_topic_def split_beta Let_def)
  next
    case False
    with Some y f show ?thesis
      by (simp add: router_unsubscribe_topic_def split_beta Let_def drop_sub_def)
  qed
qed

lemma unsubscribe_loop_router:
  "winv w \<Longrightarrow> a < client_next w \<Longrightarrow>
   \<exists>w'. unsubscribe_loop (router_unsubscribe_topic a) ts w = Ret w' \<and> winv w' \<and> sub_frame w w'"
proof (induction ts arbitrary: w)
  case (Cons t ts)
  from router_unsub_topic [OF Cons.prems, of t] obtain v where
    v: "router_unsubscribe_topic a t w = Ret v" "winv v" "sub_frame w v" by blast
  have "a < client_next v" using Cons.prems(2) sub_frameD(1) [OF v(3)] by simp
  from Cons.IH [OF v(2) this] v sub_frame_trans [OF v(3)] show ?case by auto
qed simp

lemma broadcast_writes:
  "winv w \<Longrightarrow> \<forall>e \<in> set es. snd e < client_next w \<Longrightarrow>
   winv (fold (\<lambda>(k, r) w. fst (WritePacket E r p w)) es w) \<and>
   wrote_only w (fold (\<lambda>(k, r) w. fst (WritePacket E r p w)) es w) \<and>
   wrote (client_at (fold (\<lambda>(k, r) w. fst (WritePacket E r p w)) es w) b) = wrote (client_at w b) @
     concat (map (\<lambda>e. if snd e = b \<and> can_write E b p (client_at w b) then [p] else []) es)"
proof (induction es arbitrary: w)
  case (Cons e es)
  obtain k r where e: "e = (k, r)" by (cases e)
  let ?v = "fst (WritePacket E r p w)"
  have r: "r < client_next w" using Cons.prems(2) e by simp
  have v: "winv ?v" "client_next ?v = client_next w"
    using keeps_winv [OF keeps_WritePacket Cons.prems(1)] by (simp_all add: write_frame)
  note wo = WritePacket_wrote_only [OF Cons.prems(1) r, of E p]
  have "\<forall>e \<in> set es. snd e < client_next ?v" using Cons.prems(2) v(2) by simp
  from Cons.IH [OF v(1) this] wrote_only_trans [OF wo] show ?case
    by (auto simp: e wrote_WritePacket wrote_only_client(5) [OF wo])
qed simp

lemma Broadcast_effect:
  assumes "winv w"
  shows "winv (BroadcastSubOrUnsubMessage E p w)" "wrote_only w (BroadcastSubOrUnsubMessage E p w)"
    "wrote (client_at (BroadcastSubOrUnsubMessage E p w) b) = wrote (client_at w b) @
       concat (map (\<lambda>e. if snd e = b \<and> can_write E b p (client_at w b) then [p] else []) (routes w))"
proof -
  have "\<forall>e \<in> set (routes w). snd e < client_next w"
    using winvD(1) [OF assms] by (simp add: sinv_def tables_ok_def)
  note b = broadcast_writes [OF assms this, of E p]
  show "winv (BroadcastSubOrUnsubMessage E p w)" "wrote_only w (BroadcastSubOrUnsubMessage E p w)"
    "wrote (client_at (BroadcastSubOrUnsubMessage E p w) b) = wrote (client_at w b) @
       concat (map (\<lambda>e. if snd e = b \<and> can_write E b p (client_at w b) then [p] else []) (routes w))"
    using b unfolding BroadcastSubOrUnsubMessage_def by blast+
qed

lemma client_unsubscribe_effect:
  assumes "winv w" and "a < client_next w" and "status (client_at w a) = Connected"
  obtains v w' where "processClientUnsubscribe E a p w = Ret w'" and "winv w'" and "wrote_only v w'"
    and "sub_frame w v" and "held v a = (\<lambda>t. if t \<in> set (u_Topics p) then None else held w a t)"
    and "recorded v a = (\<lambda>t. if t \<in> set (u_Topics p) \<and> held w a t \<noteq> None then None else recorded w a t)"
    and "\<And>b. wrote (client_at w' b) = wrote (client_at w b) @
      (if can_write E a (UnsubackPacket (u_MessageID p)) (client_at w a)
       then (if b = a then [UnsubackPacket (u_MessageID p)] else []) @
         concat (map (\<lambda>e. if snd e = b \<and> can_write E b (UnsubscribePacket p) (client_at w b)
           then [UnsubscribePacket p] else []) (routes w))
       else [])"
proof -
  let ?ack = "UnsubackPacket (u_MessageID p)"
  have br: "broker (client_at w a)"
    using winvD(3) [OF assms(1,2)] by (simp add: started_def client_ok_def)
  from unsubscribe_loop_client [OF assms(1,2), of "u_Topics p"] obtain v where
    v: "unsubscribe_loop (client_unsubscribe_topic a) (u_Topics p) w = Ret v" "winv v" "sub_frame w v"
      "held v a = (\<lambda>t. if t \<in> set (u_Topics p) then None else held w a t)"
      "recorded v a = (\<lambda>t. if t \<in> set (u_Topics p) \<and> held w a t \<noteq> None then None else recorded w a t)" by blast
  note f = sub_frameD [OF v(3)]
  have nv: "a < client_next v" "status (client_at v a) = Connected" using assms(2,3) f(1) f(5) [of a] by simp_all
  let ?u = "fst (WritePacket E a ?ack v)"
  have u: "winv ?u" using keeps_winv [OF keeps_WritePacket v(2)] .
  note wo = WritePacket_wrote_only [OF v(2) nv(1), of E ?ack]
  let ?x = "BroadcastSubOrUnsubMessage E (UnsubscribePacket p) ?u"
  note bc = Broadcast_effect [OF u, of E "UnsubscribePacket p"]
  have rt: "routes ?u = routes w" by (simp add: write_frame f(6))
  have step: "processClientUnsubscribe E a p w =
      (if can_write E a ?ack (client_at w a) then Ret ?x else Ret ?u)"
    using WritePacket_error [OF v(2) nv, of E ?ack] br assms(3) v(1) f(7)
    by (cases "WritePacket E a ?ack v") (auto simp: processClientUnsubscribe_def split: option.splits)
  show ?thesis
  proof (cases "can_write E a ?ack (client_at w a)")
    case True
    show ?thesis
      by (rule that [OF _ bc(1) wrote_only_trans [OF wo bc(2)] v(3,4,5)])
        (use step True f(3,7) in \<open>auto simp: bc(3) rt wrote_WritePacket wrote_only_client(5) [OF wo]\<close>)
  next
    case False
    show ?thesis
      by (rule that [OF _ u wo v(3,4,5)]) (use step False f(3,7) in \<open>auto simp: wrote_WritePacket\<close>)
  qed
qed

lemma ProcessUnsubscribe_winv:
  assumes "winv w" and "a < client_next w"
  shows "\<exists>w'. ProcessUnsubscribe E a p w = Ret w' \<and> winv w'"
proof -
  have br: "broker (client_at w a)" "status (client_at w a) \<noteq> NotStarted"
    using winvD(3) [OF assms(1,2)] by (simp_all add: started_def client_ok_def)
  show ?thesis
  proof (cases "status (client_at w a)")
    case Connected
    have client: "\<exists>w'. processClientUnsubscribe E a p w = Ret w' \<and> winv w'"
      using client_unsubscribe_effect [OF assms(1,2) Connected, of E p] by metis
    obtain v where "unsubscribe_loop (router_unsubscribe_topic a) (u_Topics p) w = Ret v" "winv v"
      using unsubscribe_loop_router [OF assms(1,2), of "u_Topics p"] by blast
    then have router: "\<exists>w'. processRouterUnsubscribe E a p w = Ret w' \<and> winv w'"
      using br Connected keeps_winv [OF keeps_WritePacket] by (simp add: processRouterUnsubscribe_def)
    show ?thesis using client router assms(1)
      by (cases "ctyp (client_at w a)") (simp_all add: ProcessUnsubscribe_def)
  next
    case Disconnected
    then show ?thesis using assms(1)
      by (cases "ctyp (client_at w a)")
        (simp_all add: ProcessUnsubscribe_def processClientUnsubscribe_def processRouterUnsubscribe_def)
  qed (use br in simp)
qed

section \<open>Properties\<close>

text \<open>
  C9: a SUBSCRIBE from a connected end-user client that carries a QoS for each topic does not
  panic and keeps the invariant.  Topic by topic, in order, a filter that is well-formed and has a
  valid QoS is held by the client with that QoS and recorded in its session, and a refused filter
  is not held afterwards.
\<close>

theorem subscribe_updates_client:
  assumes "winv w" and "a < client_next w" and "ctyp (client_at w a) = CLIENT"
    and "status (client_at w a) = Connected" and "length (s_Topics p) \<le> length (s_Qoss p)"
  shows "\<exists>w'. ProcessSubscribe E a p w = Ret w' \<and> winv w' \<and>
    held w' a = fold hold_step (zip (s_Topics p) (s_Qoss p)) (held w a) \<and>
    recorded w' a = fold record_step (zip (s_Topics p) (s_Qoss p)) (recorded w a)"
proof -
  obtain v w' where w': "processClientSubscribe E a p w = Ret w'" "winv w'"
    "sub_result a (zip (s_Topics p) (s_Qoss p)) w v" "wrote_only v w'"
    by (rule client_subscribe_effect [OF assms(1,2,4,5), of E])
  with assms(3) show ?thesis
    by (simp add: ProcessSubscribe_def wrote_only_views [OF w'(4)] sub_result_def)
qed

definition demo_subscribe :: subscribe_packet where
  "demo_subscribe = \<lparr> s_MessageID = 3, s_Topics = [''a/+'', ''a/#/b''], s_Qoss = [1, 0] \<rparr>"

theorem subscribe_updates_client_witness:
  "\<exists>w'. ProcessSubscribe demo_env 0 demo_subscribe demo_world = Ret w' \<and> winv w' \<and>
    held w' 0 = fold hold_step (zip (s_Topics demo_subscribe) (s_Qoss demo_subscribe)) (held demo_world 0) \<and>
    recorded w' 0 = fold record_step (zip (s_Topics demo_subscribe) (s_Qoss demo_subscribe)) (recorded demo_world 0)"
  by (rule subscribe_updates_client) (simp_all add: demo_winv demo_client_def demo_subscribe_def)

text \<open>
  C10: the client is answered with one SUBACK that has one return code per topic, in order: the
  requested QoS if the filter is granted and \<open>0x80\<close> if not.  After it, and only if it could be
  written, come the retained messages: all those collected for earlier requests of this
  connection again, and those whose topics match a filter granted now.  Nobody else receives
  anything.
\<close>

theorem subscribe_answer:
  assumes "winv w" and "a < client_next w" and "ctyp (client_at w a) = CLIENT"
    and "status (client_at w a) = Connected" and "length (s_Topics p) \<le> length (s_Qoss p)"
  shows "\<exists>w' ms. ProcessSubscribe E a p w = Ret w' \<and>
    (\<forall>x. x \<in> set ms \<longleftrightarrow>
      (\<exists>(t, q) \<in> set (zip (s_Topics p) (s_Qoss p)). grants t q \<and> retained_for w t x)) \<and>
    (\<forall>b. wrote (client_at w' b) = wrote (client_at w b) @
      (if b = a \<and> can_write E a (suback p) (client_at w a)
       then suback p # filter (\<lambda>q. can_write E a q (client_at w a))
         (map PublishPacket (rmsgs (client_at w a) @ ms))
       else []))"
proof -
  obtain v w' where w': "processClientSubscribe E a p w = Ret w'"
    "sub_result a (zip (s_Topics p) (s_Qoss p)) w v"
    "\<And>b. wrote (client_at w' b) = wrote (client_at w b) @
      (if b = a \<and> can_write E a (suback p) (client_at w a)
       then suback p # filter (\<lambda>q. can_write E a q (client_at w a)) (map PublishPacket (rmsgs (client_at v a)))
       else [])"
    by (rule client_subscribe_effect [OF assms(1,2,4,5), of E]) (rule that)
  from w'(2) obtain ms where "rmsgs (client_at v a) = rmsgs (client_at w a) @ ms"
    "\<forall>x. x \<in> set ms \<longleftrightarrow>
      (\<exists>(t, q) \<in> set (zip (s_Topics p) (s_Qoss p)). grants t q \<and> retained_for w t x)"
    unfolding sub_result_def by blast
  with w'(1,3) assms(3) show ?thesis by (auto simp: ProcessSubscribe_def)
qed

theorem subscribe_answer_witness:
  "\<exists>w' ms. ProcessSubscribe demo_env 0 demo_subscribe demo_world = Ret w' \<and>
    (\<forall>x. x \<in> set ms \<longleftrightarrow>
      (\<exists>(t, q) \<in> set (zip (s_Topics demo_subscribe) (s_Qoss demo_subscribe)).
         grants t q \<and> retained_for demo_world t x)) \<and>
    (\<forall>b. wrote (client_at w' b) = wrote (client_at demo_world b) @
      (if b = 0 \<and> can_write demo_env 0 (suback demo_subscribe) (client_at demo_world 0)
       then suback demo_subscribe # filter (\<lambda>q. can_write demo_env 0 q (client_at demo_world 0))
         (map PublishPacket (rmsgs (client_at demo_world 0) @ ms))
       else []))"
  by (rule subscribe_answer) (simp_all add: demo_winv demo_client_def demo_subscribe_def)

text \<open>
  C11: an UNSUBSCRIBE from a connected end-user client does not panic and keeps the invariant;
  afterwards the client holds none of the listed filters and keeps all others, the session has
  lost those it held, and the client gets an UNSUBACK.  The packet then goes to the routers, if
  the UNSUBACK could be written.
\<close>

theorem unsubscribe_updates_client:
  assumes "winv w" and "a < client_next w" and "ctyp (client_at w a) = CLIENT"
    and "status (client_at w a) = Connected"
  shows "\<exists>w'. ProcessUnsubscribe E a p w = Ret w' \<and> winv w' \<and>
    held w' a = (\<lambda>t. if t \<in> set (u_Topics p) then None else held w a t) \<and>
    recorded w' a = (\<lambda>t. if t \<in> set (u_Topics p) \<and> held w a t \<noteq> None then None else recorded w a t) \<and>
    (\<forall>b. wrote (client_at w' b) = wrote (client_at w b) @
      (if can_write E a (UnsubackPacket (u_MessageID p)) (client_at w a)
       then (if b = a then [UnsubackPacket (u_MessageID p)] else []) @
         concat (map (\<lambda>e. if snd e = b \<and> can_write E b (UnsubscribePacket p) (client_at w b)
           then [UnsubscribePacket p] else []) (routes w))
       else []))"
proof -
  obtain v w' where w': "processClientUnsubscribe E a p w = Ret w'" "winv w'" "wrote_only v w'"
    "held v a = (\<lambda>t. if t \<in> set (u_Topics p) then None else held w a t)"
    "recorded v a = (\<lambda>t. if t \<in> set (u_Topics p) \<and> held w a t \<noteq> None then None else recorded w a t)"
    "\<And>b. wrote (client_at w' b) = wrote (client_at w b) @
      (if can_write E a (UnsubackPacket (u_MessageID p)) (client_at w a)
       then (if b = a then [UnsubackPacket (u_MessageID p)] else []) @
         concat (map (\<lambda>e. if snd e = b \<and> can_write E b (UnsubscribePacket p) (client_at w b)
           then [UnsubscribePacket p] else []) (routes w))
       else [])"
    by (rule client_unsubscribe_effect [OF assms(1,2,4), of E p]) (rule that)
  with assms(3) show ?thesis
    by (simp add: ProcessUnsubscribe_def wrote_only_views [OF w'(3)])
qed

definition demo_unsubscribe :: unsubscribe_packet where
  "demo_unsubscribe = \<lparr> u_MessageID = 4, u_Topics = [''a/b''] \<rparr>"

theorem unsubscribe_updates_client_witness:
  "\<exists>w'. ProcessUnsubscribe demo_env 1 demo_unsubscribe demo_world = Ret w' \<and> winv w' \<and>
    held w' 1 = (\<lambda>t. if t \<in> set (u_Topics demo_unsubscribe) then None else held demo_world 1 t) \<and>
    recorded w' 1 = (\<lambda>t. if t \<in> set (u_Topics demo_unsubscribe) \<and> held demo_world 1 t \<noteq> None then None
      else recorded demo_world 1 t) \<and>
    (\<forall>b. wrote (client_at w' b) = wrote (client_at demo_world b) @
      (if can_write demo_env 1 (UnsubackPacket (u_MessageID demo_unsubscribe)) (client_at demo_world 1)
       then (if b = 1 then [UnsubackPacket (u_MessageID demo_unsubscribe)] else []) @
         concat (map (\<lambda>e. if snd e = b \<and> can_write demo_env b (UnsubscribePacket demo_unsubscribe) (client_at demo_world b)
           then [UnsubscribePacket demo_unsubscribe] else []) (routes demo_world))
       else []))"
  by (rule unsubscribe_updates_client) (simp_all add: demo_winv demo_client_def)

text \<open>
  The counter of a router's topic is not reset when its last subscription is dropped: after
  one subscription was added and removed, a second one counts as two, and removing it reports one
  subscription left.
\<close>

lemma DelSubMap_keeps_count:
  assumes "gm_get m t = None"
  shows "let (m1, left1) = DelSubMap (AddSubMap m t) t; (m2, left2) = DelSubMap (AddSubMap m1 t) t
    in left1 = 0 \<and> gm_get m1 t = Some 1 \<and> left2 = 1"
  using assms by (simp add: AddSubMap_def DelSubMap_def Let_def)

end
