(* ===== verification/Utf8_Text.thy ===== *)
theory Utf8_Text
  imports Thoth_Base
begin

text \<open>
  The part of Go's \<open>unicode/utf8\<close> that the broker uses: validity of a byte string, shown to
  be exactly the concatenation of the encodings of Unicode scalar values.
\<close>

section \<open>Well-formed byte sequences\<close>

text \<open>\<open>utf8.ValidString\<close> on the bytes of a string: the well-formed byte sequences.\<close>

definition cont_byte :: "nat \<Rightarrow> bool" where
  "cont_byte b \<longleftrightarrow> 0x80 \<le> b \<and> b \<le> 0xBF"

fun valid_utf8 :: "nat list \<Rightarrow> bool" where
  "valid_utf8 [] = True"
| "valid_utf8 (b0 # bs) =
     (if b0 < 0x80 then valid_utf8 bs
      else if 0xC2 \<le> b0 \<and> b0 \<le> 0xDF then
        (case bs of b1 # r \<Rightarrow> cont_byte b1 \<and> valid_utf8 r | _ \<Rightarrow> False)
      else if 0xE0 \<le> b0 \<and> b0 \<le> 0xEF then
        (case bs of
           b1 # b2 # r \<Rightarrow>
             (if b0 = 0xE0 then 0xA0 else 0x80) \<le> b1 \<and> b1 \<le> (if b0 = 0xED then 0x9F else 0xBF) \<and>
             cont_byte b2 \<and> valid_utf8 r
         | _ \<Rightarrow> False)
      else if 0xF0 \<le> b0 \<and> b0 \<le> 0xF4 then
        (case bs of
           b1 # b2 # b3 # r \<Rightarrow>
             (if b0 = 0xF0 then 0x90 else 0x80) \<le> b1 \<and> b1 \<le> (if b0 = 0xF4 then 0x8F else 0xBF) \<and>
             cont_byte b2 \<and> cont_byte b3 \<and> valid_utf8 r
         | _ \<Rightarrow> False)
      else False)"

definition ValidString :: "string \<Rightarrow> bool" where
  "ValidString s = valid_utf8 (map of_char s)"

section \<open>Encodings of scalar values\<close>

definition scalar :: "nat \<Rightarrow> bool" where
  "scalar c \<longleftrightarrow> c < 0xD800 \<or> 0xE000 \<le> c \<and> c \<le> 0x10FFFF"

definition encode :: "nat \<Rightarrow> nat list" where
  "encode c =
     (if c < 0x80 then [c]
      else if c < 0x800 then [0xC0 + c div 64, 0x80 + c mod 64]
      else if c < 0x10000 then [0xE0 + c div 64 div 64, 0x80 + c div 64 mod 64, 0x80 + c mod 64]
      else [0xF0 + c div 64 div 64 div 64, 0x80 + c div 64 div 64 mod 64, 0x80 + c div 64 mod 64,
            0x80 + c mod 64])"

text \<open>Code points by their digits to base 64.\<close>

lemma base64_digit: "(z :: nat) < 64 \<Longrightarrow> (n * 64 + z) div 64 = n \<and> (n * 64 + z) mod 64 = z"
  by simp

lemma base64_split:
  obtains n z where "(c :: nat) = n * 64 + z" and "z < 64"
  by (rule that [of "c div 64" "c mod 64"]) simp_all

lemma encode_digits:
  assumes "y < 64" and "z < 64"
  shows "0x80 \<le> x * 64 + z \<Longrightarrow> x * 64 + z < 0x800 \<Longrightarrow> encode (x * 64 + z) = [0xC0 + x, 0x80 + z]"
    and "0x800 \<le> (x * 64 + y) * 64 + z \<Longrightarrow> (x * 64 + y) * 64 + z < 0x10000 \<Longrightarrow>
      encode ((x * 64 + y) * 64 + z) = [0xE0 + x, 0x80 + y, 0x80 + z]"
    and "v < 64 \<Longrightarrow> 0x10000 \<le> ((x * 64 + v) * 64 + y) * 64 + z \<Longrightarrow>
      encode (((x * 64 + v) * 64 + y) * 64 + z) = [0xF0 + x, 0x80 + v, 0x80 + y, 0x80 + z]"
proof -
  note d = base64_digit [OF assms(1), THEN conjunct1] base64_digit [OF assms(1), THEN conjunct2]
    base64_digit [OF assms(2), THEN conjunct1] base64_digit [OF assms(2), THEN conjunct2]
  show "encode (x * 64 + z) = [0xC0 + x, 0x80 + z]" if "0x80 \<le> x * 64 + z" "x * 64 + z < 0x800"
    using that d(3,4) [of x] by (simp add: encode_def)
  show "encode ((x * 64 + y) * 64 + z) = [0xE0 + x, 0x80 + y, 0x80 + z]"
    if "0x800 \<le> (x * 64 + y) * 64 + z" "(x * 64 + y) * 64 + z < 0x10000"
  proof -
    let ?c = "(x * 64 + y) * 64 + z"
    have "\<not> ?c < 0x80" "\<not> ?c < 0x800" using that(1) by linarith+
    with that(2) show ?thesis unfolding encode_def by (simp only: d if_True if_False)
  qed
  show "encode (((x * 64 + v) * 64 + y) * 64 + z) = [0xF0 + x, 0x80 + v, 0x80 + y, 0x80 + z]"
    if v: "v < 64" and "0x10000 \<le> ((x * 64 + v) * 64 + y) * 64 + z"
  proof -
    let ?c = "((x * 64 + v) * 64 + y) * 64 + z"
    have "\<not> ?c < 0x80" "\<not> ?c < 0x800" "\<not> ?c < 0x10000" using that(2) by linarith+
    then show ?thesis unfolding encode_def
      by (simp only: d base64_digit [OF v, THEN conjunct1] base64_digit [OF v, THEN conjunct2] if_False)
  qed
qed

lemma cont_digit [simp]: "cont_byte (0x80 + n) \<longleftrightarrow> n < 64"
  by (auto simp: cont_byte_def)

lemma cont_byteE:
  assumes "cont_byte b"
  obtains z where "b = 0x80 + z" and "z < 64"
  using assms by (intro that [of "b - 0x80"]) (auto simp: cont_byte_def)

lemma valid_encode:
  assumes "scalar c"
  shows "valid_utf8 (encode c @ r) = valid_utf8 r"
proof -
  obtain n z where c: "c = n * 64 + z" "z < 64" by (rule base64_split)
  obtain m y where n: "n = m * 64 + y" "y < 64" by (rule base64_split)
  obtain x v where m: "m = x * 64 + v" "v < 64" by (rule base64_split)
  note le = assms [unfolded scalar_def]
  consider "c < 0x80" | "0x80 \<le> c" "c < 0x800" | "0x800 \<le> c" "c < 0x10000" | "0x10000 \<le> c" by linarith
  then show ?thesis
  proof cases
    case 1
    then show ?thesis by (simp add: encode_def)
  next
    case 2
    then have "2 \<le> n" "n \<le> 31" using c by linarith+
    with encode_digits(1) [OF n(2) c(2), of n] 2 c show ?thesis by simp
  next
    case 3
    have "m \<le> 15" "m = 0 \<Longrightarrow> 32 \<le> y" "m = 13 \<Longrightarrow> y \<le> 31" using 3 le c n by linarith+
    with encode_digits(2) [OF n(2) c(2), of m] 3 c n show ?thesis by simp
  next
    case 4
    have "x \<le> 4" "x = 0 \<Longrightarrow> 16 \<le> v" "x = 4 \<Longrightarrow> v \<le> 15" using 4 le c n m by linarith+
    with encode_digits(3) [OF n(2) c(2) m(2), of x] 4 c n m show ?thesis by simp
  qed
qed

lemma encode2:
  assumes "0xC2 \<le> b0" "b0 \<le> 0xDF" "cont_byte b1"
  shows "\<exists>c. scalar c \<and> encode c = [b0, b1]"
proof -
  obtain z where z: "b1 = 0x80 + z" "z < 64" using assms(3) by (rule cont_byteE)
  have "0xC0 \<le> b0" using assms(1) by simp
  then obtain x where x: "b0 = 0xC0 + x" using le_Suc_ex by blast
  show ?thesis
    by (rule exI [of _ "x * 64 + z"]) (use encode_digits(1) [OF z(2,2), of x] assms x z in \<open>simp add: scalar_def\<close>)
qed

lemma encode3:
  assumes "0xE0 \<le> b0" "b0 \<le> 0xEF" "(if b0 = 0xE0 then 0xA0 else 0x80) \<le> b1"
    "b1 \<le> (if b0 = 0xED then 0x9F else 0xBF)" "cont_byte b2"
  shows "\<exists>c. scalar c \<and> encode c = [b0, b1, b2]"
proof -
  obtain z where z: "b2 = 0x80 + z" "z < 64" using assms(5) by (rule cont_byteE)
  have "cont_byte b1" using assms(3,4) by (auto simp: cont_byte_def split: if_splits)
  then obtain y where y: "b1 = 0x80 + y" "y < 64" by (rule cont_byteE)
  obtain x where x: "b0 = 0xE0 + x" using assms(1) le_Suc_ex by blast
  have b: "x \<le> 15" "x = 0 \<Longrightarrow> 32 \<le> y" "x = 13 \<Longrightarrow> y \<le> 31"
    using assms x y by (auto split: if_splits)
  let ?c = "(x * 64 + y) * 64 + z"
  have "0x800 \<le> ?c" using b(2) by (cases "x = 0") auto
  moreover have "?c < 0x10000" using b(1) y(2) z(2) by simp
  moreover have "scalar ?c"
  proof -
    consider "x < 13" | "x = 13" | "x > 13" by linarith
    then show ?thesis
      by cases (use b y z in \<open>auto simp: scalar_def\<close>)
  qed
  ultimately show ?thesis using encode_digits(2) [OF y(2) z(2), of x] x y z by (intro exI [of _ ?c]) simp
qed

lemma encode4:
  assumes "0xF0 \<le> b0" "b0 \<le> 0xF4" "(if b0 = 0xF0 then 0x90 else 0x80) \<le> b1"
    "b1 \<le> (if b0 = 0xF4 then 0x8F else 0xBF)" "cont_byte b2" "cont_byte b3"
  shows "\<exists>c. scalar c \<and> encode c = [b0, b1, b2, b3]"
proof -
  obtain z where z: "b3 = 0x80 + z" "z < 64" using assms(6) by (rule cont_byteE)
  obtain y where y: "b2 = 0x80 + y" "y < 64" using assms(5) by (rule cont_byteE)
  have "cont_byte b1" using assms(3,4) by (auto simp: cont_byte_def split: if_splits)
  then obtain v where v: "b1 = 0x80 + v" "v < 64" by (rule cont_byteE)
  obtain x where x: "b0 = 0xF0 + x" using assms(1) le_Suc_ex by blast
  have b: "x \<le> 4" "x = 0 \<Longrightarrow> 16 \<le> v" "x = 4 \<Longrightarrow> v \<le> 15"
    using assms x v by (auto split: if_splits)
  let ?c = "((x * 64 + v) * 64 + y) * 64 + z"
  have lo: "0x10000 \<le> ?c" using b(2) by (cases "x = 0") auto
  moreover have "?c \<le> 0x10FFFF" using b(1,3) v(2) y(2) z(2) by (cases "x = 4") simp_all
  ultimately have "scalar ?c" by (simp add: scalar_def)
  with encode_digits(3) [OF y(2) z(2) v(2) lo] x v y z show ?thesis by (intro exI [of _ ?c]) simp
qed

lemma valid_decode: "valid_utf8 bs \<Longrightarrow> \<exists>cs. list_all scalar cs \<and> bs = concat (map encode cs)"
proof (induction bs rule: length_induct)
  case (1 bs)
  have step: "\<exists>cs. list_all scalar cs \<and> bs = concat (map encode cs)"
    if "\<exists>c. scalar c \<and> encode c = pre" "bs = pre @ r" "valid_utf8 r" "pre \<noteq> []" for pre r
  proof -
    from that obtain c where c: "scalar c" "encode c = pre" by blast
    from that have "length r < length bs" by simp
    with "1.IH" that(3) obtain cs where "list_all scalar cs" "r = concat (map encode cs)" by blast
    with c that(2) show ?thesis by (intro exI [of _ "c # cs"]) simp
  qed
  show ?case
  proof (cases bs)
    case Nil
    then show ?thesis by (intro exI [of _ "[]"]) simp
  next
    case (Cons b0 r0)
    consider "b0 < 0x80" | "0xC2 \<le> b0" "b0 \<le> 0xDF" | "0xE0 \<le> b0" "b0 \<le> 0xEF" | "0xF0 \<le> b0" "b0 \<le> 0xF4"
      using "1.prems" Cons by (auto split: if_splits)
    then show ?thesis
    proof cases
      case 1
      have "\<exists>c. scalar c \<and> encode c = [b0]" using 1 by (intro exI [of _ b0]) (simp add: scalar_def encode_def)
      with step [of "[b0]" r0] "1.prems" Cons 1 show ?thesis by simp
    next
      case 2
      with "1.prems" Cons obtain b1 r where "r0 = b1 # r" "cont_byte b1" "valid_utf8 r"
        by (auto split: list.splits)
      with step [of "[b0, b1]" r] encode2 [OF 2] Cons show ?thesis by simp
    next
      case 3
      with "1.prems" Cons obtain b1 b2 r where r: "r0 = b1 # b2 # r"
        "(if b0 = 0xE0 then 0xA0 else 0x80) \<le> b1" "b1 \<le> (if b0 = 0xED then 0x9F else 0xBF)"
        "cont_byte b2" "valid_utf8 r"
        by (auto split: list.splits)
      from step [of "[b0, b1, b2]" r] encode3 [OF 3 r(2-4)] Cons r show ?thesis by simp
    next
      case 4
      with "1.prems" Cons obtain b1 b2 b3 r where r: "r0 = b1 # b2 # b3 # r"
        "(if b0 = 0xF0 then 0x90 else 0x80) \<le> b1" "b1 \<le> (if b0 = 0xF4 then 0x8F else 0xBF)"
        "cont_byte b2" "cont_byte b3" "valid_utf8 r"
        by (auto split: list.splits)
      from step [of "[b0, b1, b2, b3]" r] encode4 [OF 4 r(2-5)] Cons r show ?thesis by simp
    qed
  qed
qed

lemma valid_utf8_iff: "valid_utf8 bs \<longleftrightarrow> (\<exists>cs. list_all scalar cs \<and> bs = concat (map encode cs))"
proof
  show "valid_utf8 bs \<Longrightarrow> \<exists>cs. list_all scalar cs \<and> bs = concat (map encode cs)" by (rule valid_decode)
  have "valid_utf8 (concat (map encode cs))" if "list_all scalar cs" for cs
    using that by (induction cs) (simp_all add: valid_encode)
  then show "\<exists>cs. list_all scalar cs \<and> bs = concat (map encode cs) \<Longrightarrow> valid_utf8 bs" by blast
qed

section \<open>Text without the null character\<close>

definition text_ok :: "string \<Rightarrow> bool" where
  "text_ok s \<longleftrightarrow> (\<exists>cs. list_all scalar cs \<and> 0 \<notin> set cs \<and> map of_char s = concat (map encode cs))"

lemma zero_in_encode: "0 \<in> set (encode c) \<longleftrightarrow> c = 0"
  by (auto simp: encode_def)

lemma null_char: "CHR 0x00 \<in> set s \<longleftrightarrow> (0 :: nat) \<in> set (map of_char s)"
proof -
  have "of_char (CHR 0x00) = (0 :: nat)" by simp
  then have "of_char c = (0 :: nat) \<longleftrightarrow> c = CHR 0x00" for c by (metis of_char_eq_iff)
  then show ?thesis by (force simp: image_iff)
qed

lemma text_ok_iff: "text_ok s \<longleftrightarrow> ValidString s \<and> CHR 0x00 \<notin> set s"
proof -
  have "0 \<in> set (concat (map encode cs)) \<longleftrightarrow> 0 \<in> set cs" for cs by (auto simp: zero_in_encode)
  then show ?thesis
    unfolding text_ok_def ValidString_def valid_utf8_iff null_char by metis
qed

end
