(* ===== verification/Message_Dispatch.thy ===== *)
theory Message_Dispatch
  imports Publish_Handlers Subscribe_Handlers Utf8_Text
begin

text \<open>
  Dispatch of a received packet (\<open>broker/client.go\<close>): the validation of its text fields, the
  switch over the packet types, the acknowledgements of packets in flight, and the answer to a
  ping.
\<close>

section \<open>Validation of text fields\<close>

definition extractPacketFields :: "control_packet \<Rightarrow> string list" where
  "extractPacketFields msgPacket =
     (case msgPacket of
        PublishPacket packet \<Rightarrow> [p_TopicName packet]
      | UnsubscribePacket packet \<Rightarrow> u_Topics packet
      | _ \<Rightarrow> [])"

text \<open>The loop over the fields: invalid encoding, or the encoding of U+0000.\<close>

fun validate_fields :: "string list \<Rightarrow> bool" where
  "validate_fields [] = True"
| "validate_fields (field # rest) =
     (if \<not> ValidString field then False
      else if CHR 0x00 \<in> set field then False
      else validate_fields rest)"

definition validatePacketFields :: "control_packet \<Rightarrow> bool" where
  "validatePacketFields msgPacket = validate_fields (extractPacketFields msgPacket)"

section \<open>ProcessMessage\<close>

definition ProcessPing :: "env \<Rightarrow> addr \<Rightarrow> world \<Rightarrow> world" where
  "ProcessPing E a w =
     (if status (client_at w a) = Disconnected then w else fst (WritePacket E a PingrespPacket w))"

text \<open>PUBREC for a packet in flight: the element moves to the release phase.\<close>

definition note_pubrec :: "env \<Rightarrow> addr \<Rightarrow> u16 \<Rightarrow> world \<Rightarrow> world" where
  "note_pubrec E a m w =
     (case gm_get (inflight (client_at w a)) m of
        Some ielem \<Rightarrow>
          if if_status ielem = Publish
          then store_inflight a m (ielem\<lparr>if_status := Pubrel, if_timestamp := now E\<rparr>) w
          else w
      | None \<Rightarrow> w)"

definition ProcessMessage :: "env \<Rightarrow> Message \<Rightarrow> world \<Rightarrow> world outcome" where
  "ProcessMessage E msg w =
     (let a = msg_client msg
      in case msg_packet msg of
           None \<Rightarrow> Ret w
         | Some ca \<Rightarrow>
             if \<not> validatePacketFields ca then
               (if \<not> conn (client_at w a) then Panic ''nil pointer''
                else Ret (upd_client a (\<lambda>c. c\<lparr>conn_closed := True\<rparr>) w))
             else
               (case ca of
                  PublishPacket packet \<Rightarrow> ProcessPublish E a packet w
                | PubackPacket m \<Rightarrow>
                    (case gm_get (inflight (client_at w a)) m of
                       Some _ \<Rightarrow> Ret (upd_client a (\<lambda>c. c\<lparr>inflight := gm_del m (inflight c)\<rparr>) w)
                     | None \<Rightarrow> Ret w)
                | PubrecPacket m \<Rightarrow> Ret (fst (WritePacket E a (PubrelPacket m) (note_pubrec E a m w)))
                | PubrelPacket m \<Rightarrow> Ret (fst (WritePacket E a (PubcompPacket m) (fst (pubRel a m w))))
                | PubcompPacket m \<Rightarrow> Ret (upd_client a (\<lambda>c. c\<lparr>inflight := gm_del m (inflight c)\<rparr>) w)
                | SubscribePacket packet \<Rightarrow> ProcessSubscribe E a packet w
                | UnsubscribePacket packet \<Rightarrow> ProcessUnsubscribe E a packet w
                | PingreqPacket \<Rightarrow> Ret (ProcessPing E a w)
                | DisconnectPacket \<Rightarrow> Ret (Close a w)
                | ConnackPacket _ \<Rightarrow> Ret w
                | ConnectPacket _ \<Rightarrow> Ret w
                | SubackPacket _ _ \<Rightarrow> Ret w
                | UnsubackPacket _ \<Rightarrow> Ret w
                | PingrespPacket \<Rightarrow> Ret w))"

section \<open>Text validation\<close>

lemma validate_fields_iff: "validate_fields fs \<longleftrightarrow> (\<forall>f \<in> set fs. ValidString f \<and> CHR 0x00 \<notin> set f)"
  by (induction fs) auto

section \<open>The invariant\<close>

text \<open>What the packet parser guarantees: a SUBSCRIBE has one QoS per topic.\<close>

definition parsed :: "control_packet \<Rightarrow> bool" where
  "parsed ca = (case ca of SubscribePacket p \<Rightarrow> length (s_Topics p) = length (s_Qoss p) | _ \<Rightarrow> True)"

lemma keeps_del_inflight [simp]:
  "keeps w (upd_client a (\<lambda>c. c\<lparr>inflight := gm_del m (inflight c)\<rparr>) w)"
  by (rule keeps_upd) (auto simp: soft_def client_ok_def inflight_ok_def dest: gm_del_sub)

lemma inflight_ok_put:
  assumes "inflight_ok c" and "p_MessageID (if_packet e) = m" and "p_Qos (if_packet e) = QosAtLeastOnce"
  shows "inflight_ok (c\<lparr>inflight := gm_put m e (inflight c)\<rparr>)"
  using assms by (auto simp: inflight_ok_def dest!: gm_put_mem)

lemma keeps_note_pubrec [simp]: "keeps w (note_pubrec E a m w)"
proof (cases "gm_get (inflight (client_at w a)) m")
  case (Some e)
  have "soft (client_at w a) ((client_at w a)\<lparr>inflight := gm_put m e' (inflight (client_at w a))\<rparr>)"
    if "if_packet e' = if_packet e" for e'
  proof -
    have "inflight_ok ((client_at w a)\<lparr>inflight := gm_put m e' (inflight (client_at w a))\<rparr>)"
      if ok: "inflight_ok (client_at w a)"
    proof (rule inflight_ok_put [OF ok])
      show "p_MessageID (if_packet e') = m" "p_Qos (if_packet e') = QosAtLeastOnce"
        using ok gm_getD [OF Some] \<open>if_packet e' = if_packet e\<close> by (auto simp: inflight_ok_def)
    qed
    moreover have "inflight (client_at w a) \<noteq> []" using Some by auto
    ultimately show ?thesis by (simp add: soft_def client_ok_def)
  qed
  then show ?thesis
    using Some by (auto simp: note_pubrec_def store_inflight_def intro!: keeps_upd)
qed (simp add: note_pubrec_def)

lemma keeps_ProcessPing [simp]: "keeps w (ProcessPing E a w)"
  by (simp add: ProcessPing_def)

lemma keeps_conn_closed [simp]: "keeps w (upd_client a (\<lambda>c. c\<lparr>conn_closed := True\<rparr>) w)"
  by (rule keeps_upd) (simp add: soft_def client_ok_def inflight_ok_def)

text \<open>
  A packet with valid text fields, or for a client that has its connection, is processed without
  a panic, and the invariant is kept.
\<close>

lemma ProcessMessage_winv:
  assumes "winv w" and "msg_client msg < client_next w"
    and "\<And>ca. msg_packet msg = Some ca \<Longrightarrow> parsed ca \<and> (validatePacketFields ca \<or> conn (client_at w (msg_client msg)))"
  shows "\<exists>w'. ProcessMessage E msg w = Ret w' \<and> winv w'"
proof (cases "msg_packet msg")
  case None
  with assms(1) show ?thesis by (simp add: ProcessMessage_def)
next
  case (Some ca)
  let ?a = "msg_client msg"
  note k = keeps_winv [OF _ assms(1)]
  have two: "winv (fst (WritePacket E ?a p v))" if "keeps w v" for p v
    using k [OF keeps_trans [OF that keeps_WritePacket]] .
  show ?thesis
  proof (cases "validatePacketFields ca")
    case False
    with Some assms(3) k [OF keeps_conn_closed] show ?thesis by (auto simp: ProcessMessage_def Let_def)
  next
    case True
    with Some show ?thesis
      using assms(1) assms(3) [OF Some] two [OF keeps_note_pubrec] two [OF keeps_pubRel]
        k [OF keeps_del_inflight] k [OF keeps_ProcessPing] k [OF keeps_Close]
        ProcessPublish_winv [OF assms(1,2)] ProcessSubscribe_winv [OF assms(1,2)]
        ProcessUnsubscribe_winv [OF assms(1,2)]
      by (cases ca) (auto simp: ProcessMessage_def Let_def parsed_def split: option.splits)
  qed
qed

section \<open>Properties\<close>

text \<open>
  C12: every packet of a parsed stream that is dispatched to a client of a well-formed state is
  processed without a panic and leaves the state well-formed, provided the client still has its
  connection when the packet's text is malformed.
\<close>

theorem dispatch_safe:
  assumes "winv w" and "msg_client msg < client_next w" and "msg_packet msg = Some ca" and "parsed ca"
    and "validatePacketFields ca \<or> conn (client_at w (msg_client msg))"
  shows "\<exists>w'. ProcessMessage E msg w = Ret w' \<and> winv w'"
  using assms by (intro ProcessMessage_winv) simp_all

theorem dispatch_safe_witness:
  "\<exists>w'. ProcessMessage demo_env \<lparr> msg_client = 0, msg_packet = Some (SubscribePacket demo_subscribe) \<rparr> demo_world =
     Ret w' \<and> winv w'"
  by (rule dispatch_safe [where ca = "SubscribePacket demo_subscribe"])
    (simp_all add: demo_winv parsed_def demo_subscribe_def demo_client_def)

text \<open>
  C34: the validation covers the topic of a PUBLISH and the topics of an UNSUBSCRIBE: they have to
  be UTF-8 encodings of scalar values without U+0000.  Every other packet passes, whatever its text
  fields are; in particular every SUBSCRIBE and CONNECT.
\<close>

theorem validation_scope:
  "validatePacketFields ca \<longleftrightarrow>
     (case ca of PublishPacket p \<Rightarrow> text_ok (p_TopicName p)
      | UnsubscribePacket u \<Rightarrow> list_all text_ok (u_Topics u)
      | _ \<Rightarrow> True)"
  by (cases ca)
    (simp_all add: validatePacketFields_def extractPacketFields_def text_ok_iff validate_fields_iff list_all_iff)

text \<open>
  A malformed PUBLISH closes the publisher's connection and has no other effect; nothing is
  retained, acknowledged or delivered.
\<close>

lemma malformed_publish_closes:
  assumes "conn (client_at w a)" and "\<not> text_ok (p_TopicName p)"
  shows "ProcessMessage E \<lparr> msg_client = a, msg_packet = Some (PublishPacket p) \<rparr> w =
    Ret (upd_client a (\<lambda>c. c\<lparr>conn_closed := True\<rparr>) w)"
  using assms
  by (simp add: ProcessMessage_def validatePacketFields_def extractPacketFields_def text_ok_iff)

text \<open>
  C35: the receiving side of the QoS 2 handshake ends with PUBREL: the identifier is free again,
  so that a later PUBLISH may use it, and the client gets a PUBCOMP, also for an identifier that
  was not registered.
\<close>

theorem pubrel_completes:
  assumes "winv w" and "a < client_next w"
  shows "\<exists>w'. ProcessMessage E \<lparr> msg_client = a, msg_packet = Some (PubrelPacket m) \<rparr> w = Ret w' \<and> winv w' \<and>
    gm_get (awaitingRel (client_at w' a)) = (gm_get (awaitingRel (client_at w a)))(m := None) \<and>
    wrote (client_at w' a) = wrote (client_at w a) @
      (if can_write E a (PubcompPacket m) (client_at w a) then [PubcompPacket m] else [])"
proof -
  let ?v = "fst (pubRel a m w)"
  have v: "winv ?v" "a < client_next ?v" using keeps_both [OF keeps_pubRel assms] by blast+
  have c: "gm_get (awaitingRel (client_at ?v a)) = (gm_get (awaitingRel (client_at w a)))(m := None)"
    "wrote (client_at ?v a) = wrote (client_at w a)"
    "can_write E a p (client_at ?v a) = can_write E a p (client_at w a)" for p
    by (auto simp: pubRel_def can_write_def fun_eq_iff split: option.splits)
  show ?thesis
    using keeps_winv [OF keeps_WritePacket v(1), of E a "PubcompPacket m"] c
      WritePacket_started [OF winvD(3) [OF v], of E "PubcompPacket m" a]
    by (simp add: ProcessMessage_def validatePacketFields_def extractPacketFields_def)
qed

theorem pubrel_completes_witness:
  "\<exists>w'. ProcessMessage demo_env \<lparr> msg_client = 0, msg_packet = Some (PubrelPacket 7) \<rparr> demo_world = Ret w' \<and> winv w' \<and>
    gm_get (awaitingRel (client_at w' 0)) = (gm_get (awaitingRel (client_at demo_world 0)))(7 := None) \<and>
    wrote (client_at w' 0) = wrote (client_at demo_world 0) @
      (if can_write demo_env 0 (PubcompPacket 7) (client_at demo_world 0) then [PubcompPacket 7] else [])"
  by (rule pubrel_completes) (simp_all add: demo_winv)

end
