(* ===== verification/Handler_Frames.thy ===== *)
theory Handler_Frames
  imports Message_Dispatch
begin

text \<open>
  What no handler changes: the roster of the broker, that is, which clients exist, of which kind
  they are, what they told about themselves when they connected, the tables of routes and remotes,
  the configuration and the cluster channel.
\<close>

definition roster_frame :: "world \<Rightarrow> world \<Rightarrow> bool" where
  "roster_frame w w' \<longleftrightarrow>
     client_next w' = client_next w \<and> config w' = config w \<and> clients w' = clients w \<and>
     routes w' = routes w \<and> remotes w' = remotes w \<and> clusterPool w' = clusterPool w \<and>
     (\<forall>b. ctyp (client_at w' b) = ctyp (client_at w b) \<and> info (client_at w' b) = info (client_at w b))"

lemma roster_refl [simp]: "roster_frame w w"
  by (simp add: roster_frame_def)

lemma roster_trans: "roster_frame w w' \<Longrightarrow> roster_frame w' w'' \<Longrightarrow> roster_frame w w''"
  by (simp add: roster_frame_def)

lemma roster_upd:
  "(\<And>c. ctyp (f c) = ctyp c \<and> info (f c) = info c) \<Longrightarrow> roster_frame w (upd_client a f w)"
  by (simp add: roster_frame_def)

lemma roster_fields [simp]:
  "roster_frame v (w\<lparr>topicsMgr := m\<rparr>) = roster_frame v w"
  "roster_frame v (w\<lparr>sessionMgr := s\<rparr>) = roster_frame v w"
  "roster_frame v (w\<lparr>nodes := n\<rparr>) = roster_frame v w"
  "roster_frame v (w\<lparr>timers := t\<rparr>) = roster_frame v w"
  "roster_frame v (w\<lparr>pchan := q\<rparr>) = roster_frame v w"
  "roster_frame v (new_sub S w) = roster_frame v w"
  by (simp_all add: roster_frame_def new_sub_def)

lemma roster_Close [simp]: "roster_frame w (Close a w)"
  by (simp add: Close_def roster_upd)

lemma roster_WritePacket [simp]: "roster_frame w (fst (WritePacket E a p w))"
  by (simp add: WritePacket_def Let_def roster_upd)

lemma roster_write: "WritePacket E a p w = (w', r) \<Longrightarrow> roster_frame w w'"
  using roster_WritePacket [of w E a p] by simp

lemma roster_fold:
  assumes "\<And>x w. roster_frame w (f x w)"
  shows "roster_frame w (fold f xs w)"
proof (induction xs arbitrary: w)
  case (Cons x xs)
  from roster_trans [OF assms Cons.IH] show ?case by simp
qed simp

section \<open>Delivery\<close>

lemma roster_store [simp]: "roster_frame w (store_inflight a m e w)"
  by (simp add: store_inflight_def roster_upd)

lemma roster_timer [simp]:
  "roster_frame w (ensureRetryTimer E a iv w)" "roster_frame w (resetRetryTimer a w)"
  by (simp_all add: ensureRetryTimer_def resetRetryTimer_def Let_def roster_upd)

lemma roster_publish [simp]: "roster_frame w (publish E s p w)"
proof -
  let ?a = "sub_client (sub_at w s)"
  let ?w1 = "store_inflight ?a (p_MessageID p) \<lparr> if_status = Publish, if_packet = p, if_timestamp = now E \<rparr> w"
  let ?w2 = "fst (WritePacket E ?a (PublishPacket p) ?w1)"
  have "roster_frame w ?w2" by (rule roster_trans [of w ?w1]) simp_all
  then have "roster_frame w (ensureRetryTimer E ?a [] ?w2)" by (rule roster_trans) simp
  then show ?thesis by (simp add: publish_def Let_def)
qed

lemma roster_retry_element: "roster_frame w (retry_element E a ie w)"
proof -
  obtain m e where "ie = (m, e)" by (cases ie)
  moreover have "roster_frame w (store_inflight a m e' (fst (WritePacket E a p w)))" for e' p
    by (rule roster_trans [OF roster_WritePacket [of w E a p]]) simp
  ultimately show ?thesis by (simp add: retry_element_conv)
qed

lemma roster_retryDelivery [simp]: "roster_frame w (retryDelivery E a w)"
proof -
  let ?w0 = "resetRetryTimer a w"
  let ?w1 = "fold (retry_element E a) (inflight (client_at ?w0 a)) ?w0"
  have "roster_frame ?w0 ?w1" by (rule roster_fold) (rule roster_retry_element)
  with roster_timer(2) have "roster_frame w ?w1" by (rule roster_trans)
  then have "roster_frame w (ensureRetryTimer E a [] ?w1)" by (rule roster_trans) simp
  then show ?thesis by (simp add: retryDelivery_def Let_def)
qed

lemma roster_ids [simp]:
  "roster_frame w (expireAwaitingRel E a w)" "roster_frame w (fst (pubRel a m w))"
  "roster_frame w (fst (registerPublishPacketId E a m w))"
  by (auto simp: expireAwaitingRel_def pubRel_def registerPublishPacketId_def Let_def
      intro!: roster_upd split: option.split)

section \<open>The handlers\<close>

lemma roster_publish_loop: "roster_frame w (fst (publish_loop E ty p i xs (w, q)))"
proof (induction xs arbitrary: i w q)
  case (Cons x xs)
  have "roster_frame w (fst (publish_loop E ty p (Suc i) xs (publish E s p w, q)))" for s
    by (rule roster_trans [OF roster_publish Cons.IH])
  with Cons.IH show ?case by (cases x) simp_all
qed simp

lemma roster_ProcessPublishMessage:
  assumes "ProcessPublishMessage E a p w = Ret w'"
  shows "roster_frame w w'"
proof (cases "broker (client_at w a)")
  case True
  obtain f err where f: "Manager_Subscribers (topicsMgr (retain_world p w)) (p_TopicName p) (p_Qos p)
      (csubs (client_at w a), qoss (client_at w a)) = (f, err)" by fastforce
  have "roster_frame w (retain_world p w)" by (simp add: retain_world_def)
  then have l: "roster_frame w (lookup_world a p f w)"
    unfolding lookup_world_def by (rule roster_trans) (simp add: roster_upd)
  show ?thesis
    using l roster_trans [OF l roster_publish_loop] roster_trans [OF roster_trans [OF l roster_publish_loop] roster_publish]
    by (cases rule: ProcessPublishMessage_cases [OF True assms f]) simp_all
next
  case False
  with assms show ?thesis by (simp add: ProcessPublishMessage_def)
qed

lemma roster_acked:
  assumes "(case WritePacket E a pk w of (w', Some _) \<Rightarrow> Ret w' | (w', None) \<Rightarrow> ProcessPublishMessage E a p w') = Ret w'"
  shows "roster_frame w w'"
  using assms roster_trans [OF roster_write roster_ProcessPublishMessage] roster_write
  by (auto split: prod.splits option.splits)

lemma roster_client_publish:
  assumes "processClientPublish E a p w = Ret w'"
  shows "roster_frame w w'"
proof -
  define v where "v = (if \<not> contains (p_TopicName p) ''config'' \<and> \<not> contains (p_TopicName p) ''command'' \<and>
      BridgeEnabled (config w)
    then PublishToStream \<lparr> qm_ClientId = clientId (info (client_at w a)), qm_Topic = p_TopicName p,
        qm_Payload = p_Payload p, qm_Timestamp = now_ms E \<rparr> w else w)"
  have v: "roster_frame w v" by (simp add: v_def PublishToStream_def)
  obtain u r where u: "registerPublishPacketId E a (p_MessageID p) v = (u, r)" by fastforce
  have vu: "roster_frame v u" using roster_ids(3) [of v E a "p_MessageID p"] u by simp
  have br: "broker (client_at w a)"
    using assms by (cases "broker (client_at w a)") (simp_all add: processClientPublish_def)
  then have nbr: "\<not> \<not> broker (client_at w a)" by simp
  note conv = assms [unfolded processClientPublish_def Let_def if_not_P [OF nbr], folded v_def, unfolded u prod.case]
  have "roster_frame v w'"
  proof (cases "p_Qos p = QosAtMostOnce")
    case True
    from conv [unfolded if_P [OF this]] show ?thesis by (rule roster_ProcessPublishMessage)
  next
    case q0: False
    show ?thesis
    proof (cases "p_Qos p = QosAtLeastOnce")
      case True
      from conv [unfolded if_not_P [OF q0] if_P [OF this]] show ?thesis by (rule roster_acked)
    next
      case False
      note conv' = conv [unfolded if_not_P [OF q0] if_not_P [OF this]]
      show ?thesis
      proof (cases "p_Qos p = QosExactlyOnce \<and> r = None")
        case True
        with conv' have "(case WritePacket E a (PubrecPacket (p_MessageID p)) u of (w', Some _) \<Rightarrow> Ret w'
          | (w', None) \<Rightarrow> ProcessPublishMessage E a p w') = Ret w'" by simp
        from roster_trans [OF vu roster_acked [OF this]] show ?thesis .
      next
        case False
        then show ?thesis using conv' vu by (cases r) (auto split: if_split_asm)
      qed
    qed
  qed
  with v show ?thesis by (rule roster_trans)
qed

lemma roster_ProcessPublish:
  assumes "ProcessPublish E a p w = Ret w'"
  shows "roster_frame w w'"
proof -
  have "roster_frame w w'" if "processRouterPublish E a p w = Ret w'"
    using that roster_acked roster_ProcessPublishMessage
    by (auto simp: processRouterPublish_def split: if_splits)
  moreover have "roster_frame w w'" if "processRemotePublish E a p w = Ret w'"
    using that by (auto simp: processRemotePublish_def ProcessInfo_def Let_def split: if_splits option.splits)
  ultimately show ?thesis
    using assms roster_client_publish by (auto simp: ProcessPublish_def split: client_type.splits)
qed

text \<open>SUBSCRIBE and UNSUBSCRIBE: the loop bodies, the loops, and the handlers around them.\<close>

lemma roster_drop_old [simp]: "roster_frame w (drop_old_sub a t w)"
proof -
  have "roster_frame w (upd_client a (\<lambda>c. c\<lparr>subMap := gm_del t (subMap c)\<rparr>) (w\<lparr>topicsMgr := m\<rparr>))" for m
    by (rule roster_trans [of w "w\<lparr>topicsMgr := m\<rparr>"]) (simp_all add: roster_upd)
  then show ?thesis by (simp add: drop_old_sub_def split: option.split)
qed

lemma roster_client_topic:
  assumes "client_subscribe_topic a qs i t w = Ret (w', rc)"
  shows "roster_frame w w'"
proof -
  have f: "roster_frame w (upd_client a f v)" if "roster_frame w v" "\<And>c. ctyp (f c) = ctyp c \<and> info (f c) = info c" for f v
    using roster_trans [OF that(1) roster_upd] that(2) by blast
  from assms show ?thesis
    unfolding client_subscribe_topic_def
    by (auto simp: Let_def split_beta split: option.splits if_splits intro!: f)
qed

lemma roster_router_topic:
  assumes "router_subscribe_topic a qs i t w = Ret (w', rc)"
  shows "roster_frame w w'"
proof -
  have f: "roster_frame w (upd_client a f v)" if "roster_frame w v" "\<And>c. ctyp (f c) = ctyp c \<and> info (f c) = info c" for f v
    using roster_trans [OF that(1) roster_upd] that(2) by blast
  from assms show ?thesis
    unfolding router_subscribe_topic_def
    by (auto simp: Let_def split_beta split: option.splits if_splits intro!: f)
qed

lemma roster_subscribe_loop:
  assumes "subscribe_loop f i ts w rcs = Ret (w', rcs')"
    and "\<And>i t w w' rc. f i t w = Ret (w', rc) \<Longrightarrow> roster_frame w w'"
  shows "roster_frame w w'"
  using assms(1)
proof (induction ts arbitrary: i w rcs)
  case (Cons t ts)
  then obtain v rc where "f i t w = Ret (v, rc)" and "subscribe_loop f (Suc i) ts v (rcs @ [rc]) = Ret (w', rcs')"
    by auto
  with assms(2) Cons.IH show ?case using roster_trans by blast
qed simp

lemma roster_unsubscribe_loop:
  assumes "unsubscribe_loop f ts w = Ret w'"
    and "\<And>t w w'. f t w = Ret w' \<Longrightarrow> roster_frame w w'"
  shows "roster_frame w w'"
  using assms(1)
proof (induction ts arbitrary: w)
  case (Cons t ts)
  then obtain v where "f t w = Ret v" and "unsubscribe_loop f ts v = Ret w'" by auto
  with assms(2) Cons.IH show ?case using roster_trans by blast
qed simp

lemma roster_unsubscribe_topic:
  "client_unsubscribe_topic a t w = Ret w' \<Longrightarrow> roster_frame w w'"
  "router_unsubscribe_topic a t w = Ret w' \<Longrightarrow> roster_frame w w'"
proof -
  have f: "roster_frame w (upd_client a f v)" if "roster_frame w v" "\<And>c. ctyp (f c) = ctyp c \<and> info (f c) = info c" for f v
    using roster_trans [OF that(1) roster_upd] that(2) by blast
  show "client_unsubscribe_topic a t w = Ret w' \<Longrightarrow> roster_frame w w'"
    unfolding client_unsubscribe_topic_def by (auto simp: Let_def split: option.splits intro!: f)
  show "router_unsubscribe_topic a t w = Ret w' \<Longrightarrow> roster_frame w w'"
    unfolding router_unsubscribe_topic_def by (auto simp: Let_def split_beta split: option.splits if_splits intro!: f)
qed

lemma roster_ProcessSubscribe:
  assumes "ProcessSubscribe E a p w = Ret w'"
  shows "roster_frame w w'"
proof -
  have re: "roster_frame w (fold (\<lambda>rm w. fst (WritePacket E a (PublishPacket rm) w)) ms w)" for ms w
    by (rule roster_fold) simp
  have "roster_frame w w'" if "processClientSubscribe E a p w = Ret w'"
  proof -
    from that consider "w' = w"
      | v rcs where "subscribe_loop (client_subscribe_topic a (s_Qoss p)) 0 (s_Topics p) w [] = Ret (v, rcs)"
        and "(case WritePacket E a (SubackPacket (s_MessageID p) rcs) v of
               (w2, Some _) \<Rightarrow> Ret w2
             | (w2, None) \<Rightarrow>
                 Ret (fold (\<lambda>rm w. fst (WritePacket E a (PublishPacket rm) w)) (rmsgs (client_at w2 a)) w2)) = Ret w'"
      by (auto simp: processClientSubscribe_def split: if_split_asm)
    then show ?thesis
    proof cases
      case (2 v rcs)
      obtain u r where u: "WritePacket E a (SubackPacket (s_MessageID p) rcs) v = (u, r)" by fastforce
      have "roster_frame w v" using roster_subscribe_loop [OF 2(1) roster_client_topic] .
      from roster_trans [OF this roster_write [OF u]] have wu: "roster_frame w u" .
      show ?thesis using 2(2) wu roster_trans [OF wu re] by (cases r) (auto simp: u)
    qed simp
  qed
  moreover have "roster_frame w w'" if "processRouterSubscribe E a p w = Ret w'"
    using that roster_trans [OF roster_subscribe_loop [OF _ roster_router_topic] roster_WritePacket]
    by (auto simp: processRouterSubscribe_def split: if_splits)
  ultimately show ?thesis using assms by (auto simp: ProcessSubscribe_def split: client_type.splits)
qed

lemma roster_ProcessUnsubscribe:
  assumes "ProcessUnsubscribe E a p w = Ret w'"
  shows "roster_frame w w'"
proof -
  have b: "roster_frame w (BroadcastSubOrUnsubMessage E q w)" for q w
    unfolding BroadcastSubOrUnsubMessage_def by (rule roster_fold) auto
  have "roster_frame w w'" if "processClientUnsubscribe E a p w = Ret w'"
  proof -
    from that consider "w' = w"
      | v where "unsubscribe_loop (client_unsubscribe_topic a) (u_Topics p) w = Ret v"
        and "(case WritePacket E a (UnsubackPacket (u_MessageID p)) v of
                (w2, Some _) \<Rightarrow> Ret w2
              | (w2, None) \<Rightarrow> Ret (BroadcastSubOrUnsubMessage E (UnsubscribePacket p) w2)) = Ret w'"
      by (auto simp: processClientUnsubscribe_def split: if_split_asm)
    then show ?thesis
    proof cases
      case (2 v)
      obtain u r where u: "WritePacket E a (UnsubackPacket (u_MessageID p)) v = (u, r)" by fastforce
      have "roster_frame w v" using roster_unsubscribe_loop [OF 2(1) roster_unsubscribe_topic(1)] .
      from roster_trans [OF this roster_write [OF u]] have wu: "roster_frame w u" .
      show ?thesis using 2(2) wu roster_trans [OF wu b] by (cases r) (auto simp: u)
    qed simp
  qed
  moreover have "roster_frame w w'" if "processRouterUnsubscribe E a p w = Ret w'"
    using that roster_trans [OF roster_unsubscribe_loop [OF _ roster_unsubscribe_topic(2)] roster_WritePacket]
    by (auto simp: processRouterUnsubscribe_def split: if_splits)
  ultimately show ?thesis using assms by (auto simp: ProcessUnsubscribe_def split: client_type.splits)
qed

section \<open>Dispatch\<close>

lemma roster_ProcessMessage:
  assumes "ProcessMessage E msg w = Ret w'"
  shows "roster_frame w w'"
proof (cases "msg_packet msg")
  case None
  with assms show ?thesis by (simp add: ProcessMessage_def)
next
  case (Some ca)
  let ?a = "msg_client msg"
  have two: "roster_frame w (fst (WritePacket E ?a q v))" if "roster_frame w v" for q v
    using roster_trans [OF that roster_WritePacket] .
  have "roster_frame w (note_pubrec E ?a m w)" for m
    by (simp add: note_pubrec_def split: option.split)
  with Some assms two show ?thesis
    using roster_ProcessPublish roster_ProcessSubscribe roster_ProcessUnsubscribe
    by (cases ca) (auto simp: ProcessMessage_def Let_def ProcessPing_def roster_upd split: if_splits option.splits)
qed

end
