(* ===== verification/Worker_Pool.thy ===== *)
theory Worker_Pool
  imports Thoth_Base
begin

text \<open>
  The worker pool (\<open>pool/pool.go\<close>): a fixed number of workers, each with an unbuffered
  channel, and the choice of the worker by a hash of the client's id.  The hash \<open>fnv1a\<close> belongs
  to another package and is a parameter.  A channel is modelled by the tasks that senders offer on
  it, in the order in which the senders arrived; a nil channel is \<open>None\<close>.
\<close>

section \<open>Definitions\<close>

record 'a WorkerPool =
  maxWorkers :: int
  taskQueue :: "'a list option list"
  cancelled :: bool
  exited :: "nat list"

text \<open>The loop of \<open>dispatch\<close>: it makes the channel of each worker and starts it.\<close>

definition dispatch :: "'a WorkerPool \<Rightarrow> 'a WorkerPool" where
  "dispatch p = fold (\<lambda>i p. p\<lparr>taskQueue := (taskQueue p)[i := Some []]\<rparr>) [0..<nat (maxWorkers p)] p"

definition New :: "int \<Rightarrow> 'a WorkerPool" where
  "New n =
     (let m = (if n < 1 then 1 else n)
      in dispatch \<lparr> maxWorkers = m, taskQueue = replicate (nat m) None, cancelled = False, exited = [] \<rparr>)"

definition Stop :: "'a WorkerPool \<Rightarrow> 'a WorkerPool" where
  "Stop p = p\<lparr>cancelled := True\<rparr>"

text \<open>
  \<open>Submit\<close>: the offered task joins the senders of the chosen channel; on a nil channel the
  sender waits for ever.
\<close>

datatype 'a submitted = Sent "'a WorkerPool" | BlocksForever | SubmitPanic string

definition worker_index :: "(string \<Rightarrow> u64) \<Rightarrow> 'a WorkerPool \<Rightarrow> string \<Rightarrow> nat" where
  "worker_index hash p uid = unat (hash uid mod word_of_int (maxWorkers p))"

definition Submit :: "(string \<Rightarrow> u64) \<Rightarrow> 'a WorkerPool \<Rightarrow> string \<Rightarrow> 'a option \<Rightarrow> 'a submitted" where
  "Submit hash p uid task =
     (if (word_of_int (maxWorkers p) :: u64) = 0 then SubmitPanic ''integer divide by zero''
      else let idx = worker_index hash p uid
           in case task of
                None \<Rightarrow> Sent p
              | Some t \<Rightarrow>
                  if \<not> idx < length (taskQueue p) then SubmitPanic ''index out of range''
                  else case taskQueue p ! idx of
                         None \<Rightarrow> BlocksForever
                       | Some q \<Rightarrow> Sent (p\<lparr>taskQueue := (taskQueue p)[idx := Some (q @ [t])]\<rparr>))"

text \<open>
  One turn of the loop in \<open>startWorker\<close>.  The select takes the first offered task, which the
  worker runs before its next turn, or, once the context is done, ends the worker; when both are
  possible either may be chosen, so that the two cases are two operations.
\<close>

definition worker_turn :: "nat \<Rightarrow> 'a WorkerPool \<Rightarrow> 'a WorkerPool \<times> 'a option" where
  "worker_turn i p =
     (if i < length (taskQueue p) \<and> i \<notin> set (exited p)
      then (case taskQueue p ! i of
              Some (t # q) \<Rightarrow> (p\<lparr>taskQueue := (taskQueue p)[i := Some q]\<rparr>, Some t)
            | _ \<Rightarrow> (p, None))
      else (p, None))"

definition worker_done :: "nat \<Rightarrow> 'a WorkerPool \<Rightarrow> 'a WorkerPool" where
  "worker_done i p =
     (if i < length (taskQueue p) \<and> i \<notin> set (exited p) \<and> cancelled p then p\<lparr>exited := i # exited p\<rparr> else p)"

section \<open>A new pool\<close>

lemma dispatch_loop:
  "fold (\<lambda>i p. p\<lparr>taskQueue := (taskQueue p)[i := Some []]\<rparr>) [0..<k] p =
     p\<lparr>taskQueue := fold (\<lambda>i q. q[i := Some []]) [0..<k] (taskQueue p)\<rparr>"
  by (induction k) simp_all

lemma fill_all: "k \<le> length q \<Longrightarrow> fold (\<lambda>i q. q[i := Some []]) [0..<k] q = replicate k (Some []) @ drop k q"
proof (induction k)
  case (Suc k)
  then have "drop k q = q ! k # drop (Suc k) q" by (simp add: Cons_nth_drop_Suc)
  with Suc show ?case by (simp add: list_update_append replicate_append_same flip: append_Cons)
qed simp

definition pool_ok :: "'a WorkerPool \<Rightarrow> bool" where
  "pool_ok p \<longleftrightarrow> 1 \<le> maxWorkers p \<and> maxWorkers p < 2 ^ 63 \<and> length (taskQueue p) = nat (maxWorkers p) \<and>
     (\<forall>q \<in> set (taskQueue p). q \<noteq> None)"

lemma taskQueue_New: "taskQueue (New n) = replicate (nat (if n < 1 then 1 else n)) (Some [])"
  by (simp add: New_def dispatch_def Let_def dispatch_loop fill_all)

lemma maxWorkers_New: "maxWorkers (New n) = (if n < 1 then 1 else n)"
  by (simp add: New_def dispatch_def Let_def dispatch_loop)

lemma pool_ok_New: "n < 2 ^ 63 \<Longrightarrow> pool_ok (New n)"
  by (auto simp: pool_ok_def taskQueue_New maxWorkers_New)

section \<open>Submitting and running\<close>

lemma unat_max:
  assumes "pool_ok p"
  shows "unat (word_of_int (maxWorkers p) :: u64) = nat (maxWorkers p)"
proof -
  from assms have b: "0 \<le> maxWorkers p" "maxWorkers p < 2 ^ 64" by (auto simp: pool_ok_def)
  then have "uint (word_of_int (maxWorkers p) :: u64) = maxWorkers p"
    by (simp add: uint_word_of_int_eq take_bit_int_eq_self)
  then show ?thesis by (simp add: unat_eq_nat_uint)
qed

lemma worker_index_bound:
  assumes "pool_ok p"
  shows "worker_index hash p uid < length (taskQueue p)"
  using assms unat_max [OF assms] by (simp add: worker_index_def unat_mod pool_ok_def)

lemma Submit_ok:
  assumes "pool_ok p"
  shows "\<exists>q. taskQueue p ! worker_index hash p uid = Some q \<and>
    Submit hash p uid (Some t) = Sent (p\<lparr>taskQueue := (taskQueue p)[worker_index hash p uid := Some (q @ [t])]\<rparr>)"
proof -
  let ?i = "worker_index hash p uid"
  have i: "?i < length (taskQueue p)" by (rule worker_index_bound [OF assms])
  have "unat (word_of_int (maxWorkers p) :: u64) \<noteq> 0" using unat_max [OF assms] assms by (simp add: pool_ok_def)
  then have nz: "(word_of_int (maxWorkers p) :: u64) \<noteq> 0" by (metis unat_0)
  from assms nth_mem [OF i] obtain q where "taskQueue p ! ?i = Some q" by (auto simp: pool_ok_def)
  with i nz show ?thesis by (simp add: Submit_def Let_def)
qed

lemma pool_ok_update:
  "pool_ok p \<Longrightarrow> pool_ok (p\<lparr>taskQueue := (taskQueue p)[i := Some q]\<rparr>)"
  by (auto simp: pool_ok_def dest!: set_update_subset_insert [THEN subsetD])

lemma worker_index_update [simp]:
  "worker_index hash (p\<lparr>taskQueue := q\<rparr>) uid = worker_index hash p uid"
  by (simp add: worker_index_def)

section \<open>Runs of the pool\<close>

datatype 'a pool_event = Submitted string 'a | Ran nat 'a | Cancelled | Exited nat

inductive pool_run :: "(string \<Rightarrow> u64) \<Rightarrow> 'a WorkerPool \<Rightarrow> 'a pool_event list \<Rightarrow> 'a WorkerPool \<Rightarrow> bool"
  for hash where
  start: "pool_run hash p [] p"
| submit: "\<lbrakk> pool_run hash p evs p'; Submit hash p' uid (Some t) = Sent p'' \<rbrakk> \<Longrightarrow>
    pool_run hash p (evs @ [Submitted uid t]) p''"
| run: "\<lbrakk> pool_run hash p evs p'; worker_turn i p' = (p'', Some t) \<rbrakk> \<Longrightarrow>
    pool_run hash p (evs @ [Ran i t]) p''"
| cancel: "pool_run hash p evs p' \<Longrightarrow> pool_run hash p (evs @ [Cancelled]) (Stop p')"
| exit: "pool_run hash p evs p' \<Longrightarrow> pool_run hash p (evs @ [Exited i]) (worker_done i p')"

text \<open>The tasks of one client, given the owner of each task.\<close>

definition sent_by :: "string \<Rightarrow> 'a pool_event list \<Rightarrow> 'a list" where
  "sent_by u evs = concat (map (\<lambda>e. case e of Submitted v t \<Rightarrow> if v = u then [t] else [] | _ \<Rightarrow> []) evs)"

definition ran_for :: "('a \<Rightarrow> string) \<Rightarrow> string \<Rightarrow> 'a pool_event list \<Rightarrow> (nat \<times> 'a) list" where
  "ran_for owner u evs = concat (map (\<lambda>e. case e of Ran i t \<Rightarrow> if owner t = u then [(i, t)] else [] | _ \<Rightarrow> []) evs)"

definition owned :: "('a \<Rightarrow> string) \<Rightarrow> 'a pool_event list \<Rightarrow> bool" where
  "owned owner evs \<longleftrightarrow> (\<forall>u t. Submitted u t \<in> set evs \<longrightarrow> owner t = u)"

lemma worker_turnE:
  assumes "worker_turn i p = (p', Some t)"
  obtains q where "i < length (taskQueue p)" and "i \<notin> set (exited p)" and "taskQueue p ! i = Some (t # q)"
    and "p' = p\<lparr>taskQueue := (taskQueue p)[i := Some q]\<rparr>"
  using assms by (auto simp: worker_turn_def split: if_splits option.splits list.splits)

text \<open>
  Every offered task of a client is on the client's own channel; what the client sent is what
  ran for it followed by what is still offered.
\<close>

definition fifo_ok :: "(string \<Rightarrow> u64) \<Rightarrow> ('a \<Rightarrow> string) \<Rightarrow> 'a pool_event list \<Rightarrow> 'a WorkerPool \<Rightarrow> bool" where
  "fifo_ok hash owner evs p \<longleftrightarrow> pool_ok p \<and>
     (\<forall>i q t. i < length (taskQueue p) \<and> taskQueue p ! i = Some q \<and> t \<in> set q \<longrightarrow>
        i = worker_index hash p (owner t)) \<and>
     (\<forall>u. list_all (\<lambda>(i, t). i = worker_index hash p u) (ran_for owner u evs) \<and>
        sent_by u evs = map snd (ran_for owner u evs) @
          filter (\<lambda>t. owner t = u) (the (taskQueue p ! worker_index hash p u)))"

lemma fifo_submit:
  assumes "fifo_ok hash owner evs p" and "Submit hash p uid (Some t) = Sent p'" and "owner t = uid"
  shows "fifo_ok hash owner (evs @ [Submitted uid t]) p'"
proof -
  let ?i = "worker_index hash p uid"
  have ok: "pool_ok p" using assms(1) by (simp add: fifo_ok_def)
  from Submit_ok [OF ok, of hash uid t] assms(2) obtain q where q: "taskQueue p ! ?i = Some q"
    and p': "p' = p\<lparr>taskQueue := (taskQueue p)[?i := Some (q @ [t])]\<rparr>" by auto
  have i: "?i < length (taskQueue p)" by (rule worker_index_bound [OF ok])
  have other: "owner x \<noteq> u" if "worker_index hash p u \<noteq> ?i" "x \<in> set (q @ [t])" for u x
    using assms(1,3) i q that by (auto simp: fifo_ok_def)
  show ?thesis
    using assms(1,3) i q pool_ok_update [OF ok] other
    by (auto simp: fifo_ok_def p' nth_list_update sent_by_def ran_for_def)
qed

lemma fifo_run:
  assumes "fifo_ok hash owner evs p" and "worker_turn i p = (p', Some t)"
  shows "fifo_ok hash owner (evs @ [Ran i t]) p'"
proof -
  have ok: "pool_ok p" using assms(1) by (simp add: fifo_ok_def)
  from assms(2) obtain q where i: "i < length (taskQueue p)" and q: "taskQueue p ! i = Some (t # q)"
    and p': "p' = p\<lparr>taskQueue := (taskQueue p)[i := Some q]\<rparr>" by (rule worker_turnE)
  have own: "i = worker_index hash p (owner x)" if "x \<in> set (t # q)" for x
    using assms(1) i q that by (fastforce simp: fifo_ok_def)
  show ?thesis
    using assms(1) i q pool_ok_update [OF ok] own
    by (fastforce simp: fifo_ok_def p' nth_list_update sent_by_def ran_for_def)
qed

lemma fifo_stop: "fifo_ok hash owner evs p \<Longrightarrow> fifo_ok hash owner (evs @ [Cancelled]) (Stop p)"
  by (simp add: fifo_ok_def Stop_def pool_ok_def worker_index_def sent_by_def ran_for_def)

lemma fifo_exit: "fifo_ok hash owner evs p \<Longrightarrow> fifo_ok hash owner (evs @ [Exited i]) (worker_done i p)"
  by (simp add: fifo_ok_def worker_done_def pool_ok_def worker_index_def sent_by_def ran_for_def)

lemma fifo_New:
  assumes "n < 2 ^ 63"
  shows "fifo_ok hash owner [] (New n)"
proof -
  have "worker_index hash (New n :: 'a WorkerPool) u < nat (if n < 1 then 1 else n)" for u
    using worker_index_bound [OF pool_ok_New [OF assms], of hash u] by (simp add: taskQueue_New split: if_splits)
  then show ?thesis
    using pool_ok_New [OF assms, where 'a = 'a]
    by (auto simp: fifo_ok_def taskQueue_New sent_by_def ran_for_def split: if_splits)
qed

lemma owned_snoc [simp]:
  "owned owner (evs @ [e]) \<longleftrightarrow> owned owner evs \<and> (\<forall>u t. e = Submitted u t \<longrightarrow> owner t = u)"
  by (auto simp: owned_def)

lemma pool_run_fifo:
  assumes "pool_run hash (New n) evs p" and "n < 2 ^ 63" and "owned owner evs"
  shows "fifo_ok hash owner evs p"
  using assms
proof (induction "New n :: 'a WorkerPool" evs p rule: pool_run.induct)
  case start
  then show ?case by (simp add: fifo_New)
qed (auto intro: fifo_submit fifo_run fifo_stop fifo_exit)

lemma pool_run_ok:
  assumes "pool_run hash p evs p'" and "pool_ok p"
  shows "pool_ok p' \<and> maxWorkers p' = maxWorkers p"
  using assms
proof (induction rule: pool_run.induct)
  case (submit p evs p' uid t p'')
  then show ?case using Submit_ok [of p' hash uid t] by (auto simp: pool_ok_update)
next
  case (run p evs p' i p'' t)
  then show ?case by (auto elim!: worker_turnE simp: pool_ok_update)
qed (auto simp: pool_ok_def Stop_def worker_done_def)

lemma run_without_cancel:
  assumes "pool_run hash p evs p'" and "Cancelled \<notin> set evs" and "\<not> cancelled p" and "exited p = []"
  shows "\<not> cancelled p' \<and> exited p' = []"
  using assms
proof (induction rule: pool_run.induct)
  case (submit p evs p' uid t p'')
  then show ?case by (auto simp: Submit_def Let_def split: if_splits option.splits)
next
  case (run p evs p' i p'' t)
  then show ?case by (auto elim!: worker_turnE)
qed (auto simp: worker_done_def)

lemma New_running [simp]: "\<not> cancelled (New n)" "exited (New n) = []"
  by (simp_all add: New_def dispatch_def Let_def dispatch_loop)

lemma ran_for_append: "ran_for owner u (evs @ fs) = ran_for owner u evs @ ran_for owner u fs"
  by (simp add: ran_for_def)

lemma ran_for_Ran: "map snd (ran_for owner u (map (Ran i) q)) = filter (\<lambda>t. owner t = u) q"
  by (induction q) (simp_all add: ran_for_def)

lemma drain:
  assumes "pool_run hash p0 evs p" and "i < length (taskQueue p)" and "i \<notin> set (exited p)" and "taskQueue p ! i = Some q"
  shows "\<exists>p'. pool_run hash p0 (evs @ map (Ran i) q) p' \<and> taskQueue p' ! i = Some []"
  using assms
proof (induction q arbitrary: evs p)
  case (Cons t q)
  let ?p = "p\<lparr>taskQueue := (taskQueue p)[i := Some q]\<rparr>"
  have "worker_turn i p = (?p, Some t)" using Cons.prems by (simp add: worker_turn_def)
  with Cons.prems(1) have "pool_run hash p0 (evs @ [Ran i t]) ?p" by (rule pool_run.run)
  from Cons.IH [OF this] Cons.prems show ?case by simp
qed auto

section \<open>Properties\<close>

text \<open>
  C17: Whatever worker count is configured (below the range of an int), \<open>New\<close> makes a pool in
  which after any run of submissions, turns and cancellations \<open>Submit\<close> of a task neither panics
  nor waits on a nil channel: the index is in the range of the channels, and the task is offered
  last on exactly that channel.
\<close>

theorem submit_in_range:
  assumes "n < 2 ^ 63" and "pool_run hash (New n) evs p"
  shows "worker_index hash p uid < length (taskQueue p) \<and> length (taskQueue p) = nat (max 1 n) \<and>
    (\<exists>q. taskQueue p ! worker_index hash p uid = Some q \<and>
      Submit hash p uid (Some t) = Sent (p\<lparr>taskQueue := (taskQueue p)[worker_index hash p uid := Some (q @ [t])]\<rparr>))"
proof -
  from pool_run_ok [OF assms(2) pool_ok_New [OF assms(1)]]
  have "pool_ok p" and "maxWorkers p = max 1 n" by (simp_all add: maxWorkers_New)
  then show ?thesis using worker_index_bound [of p hash uid] Submit_ok [of p hash uid t] by (simp add: pool_ok_def)
qed

text \<open>
  C15: Per client order: in every run of a new pool, all tasks of one client are run by one and the
  same worker, and the tasks that were run are, in order, a prefix of the tasks the client's
  reader submitted.
\<close>

theorem client_tasks_in_order:
  assumes "n < 2 ^ 63" and "pool_run hash (New n) evs p" and "owned owner evs"
  shows "(\<exists>w. fst ` set (ran_for owner u evs) \<subseteq> {w}) \<and>
    (\<exists>waiting. sent_by u evs = map snd (ran_for owner u evs) @ waiting)"
proof -
  have ok: "fifo_ok hash owner evs p" by (rule pool_run_fifo [OF assms(2,1,3)])
  then have "list_all (\<lambda>(i, t). i = worker_index hash p u) (ran_for owner u evs)" by (simp add: fifo_ok_def)
  then have "fst ` set (ran_for owner u evs) \<subseteq> {worker_index hash p u}" by (auto simp: list_all_iff)
  with ok show ?thesis unfolding fifo_ok_def by blast
qed

text \<open>
  C16: No task starves in a pool that was not stopped: as many turns of the client's own worker as
  tasks are offered on its channel, and no step of anyone else, are possible, run exactly these
  tasks, and after them every task the client submitted was run, in order and once.
\<close>

theorem client_tasks_finish:
  assumes "n < 2 ^ 63" and "pool_run hash (New n) evs p" and "owned owner evs" and "Cancelled \<notin> set evs"
    and "taskQueue p ! worker_index hash p u = Some q"
  shows "\<exists>p'. pool_run hash (New n) (evs @ map (Ran (worker_index hash p u)) q) p' \<and>
    taskQueue p' ! worker_index hash p u = Some [] \<and>
    map snd (ran_for owner u (evs @ map (Ran (worker_index hash p u)) q)) = sent_by u evs"
proof -
  let ?i = "worker_index hash p u"
  have fifo: "fifo_ok hash owner evs p" by (rule pool_run_fifo [OF assms(2,1,3)])
  then have i: "?i < length (taskQueue p)" by (auto simp: fifo_ok_def intro: worker_index_bound)
  have e: "exited p = []" using run_without_cancel [OF assms(2,4)] by simp
  have "\<exists>p'. pool_run hash (New n) (evs @ map (Ran ?i) q) p' \<and> taskQueue p' ! ?i = Some []"
    using drain [OF assms(2) i _ assms(5)] e by simp
  moreover have "map snd (ran_for owner u (evs @ map (Ran ?i) q)) = sent_by u evs"
    using fifo assms(5) by (simp add: ran_for_append ran_for_Ran fifo_ok_def)
  ultimately show ?thesis by blast
qed

text \<open>A pool of two workers on which a client submits two tasks and one is run.\<close>

definition demo_hash :: "string \<Rightarrow> u64" where
  "demo_hash uid = of_nat (length uid)"

definition demo_events :: "nat pool_event list" where
  "demo_events = [Submitted ''abc'' 7, Submitted ''abc'' 8, Ran 1 7]"

definition demo_pool :: "nat WorkerPool" where
  "demo_pool = \<lparr> maxWorkers = 2, taskQueue = [Some [], Some [8]], cancelled = False, exited = [] \<rparr>"

lemma demo_index: "maxWorkers p = 2 \<Longrightarrow> worker_index demo_hash p ''abc'' = 1"
  by (simp add: worker_index_def demo_hash_def)

lemma demo_run: "pool_run demo_hash (New 2) demo_events demo_pool"
proof -
  have "pool_run demo_hash (New 2) ([] @ [Submitted ''abc'' 7])
      \<lparr> maxWorkers = 2, taskQueue = [Some [], Some [7]], cancelled = False, exited = [] \<rparr>"
    by (rule pool_run.submit [OF pool_run.start])
      (simp add: Submit_def demo_index New_def dispatch_def Let_def numeral_2_eq_2)
  then have "pool_run demo_hash (New 2) (([] @ [Submitted ''abc'' 7]) @ [Submitted ''abc'' 8])
      \<lparr> maxWorkers = 2, taskQueue = [Some [], Some [7, 8]], cancelled = False, exited = [] \<rparr>"
    by (rule pool_run.submit) (simp add: Submit_def demo_index)
  then have "pool_run demo_hash (New 2) ((([] @ [Submitted ''abc'' 7]) @ [Submitted ''abc'' 8]) @ [Ran 1 7]) demo_pool"
    by (rule pool_run.run) (simp add: worker_turn_def demo_pool_def)
  then show ?thesis by (simp add: demo_events_def)
qed

lemma demo_owned: "owned (\<lambda>_. ''abc'') demo_events"
  by (auto simp: owned_def demo_events_def)

theorem submit_in_range_witness:
  "worker_index demo_hash demo_pool ''abc'' < length (taskQueue demo_pool)"
  using submit_in_range [OF _ demo_run, of "''abc''" 9] by simp

theorem client_tasks_in_order_witness:
  "\<exists>waiting. sent_by ''abc'' demo_events = map snd (ran_for (\<lambda>_. ''abc'') ''abc'' demo_events) @ waiting"
  using client_tasks_in_order [OF _ demo_run demo_owned, of "''abc''"] by simp

theorem client_tasks_finish_witness:
  "\<exists>p'. pool_run demo_hash (New 2) (demo_events @ [Ran 1 8]) p' \<and> taskQueue p' ! 1 = Some []"
proof -
  have "worker_index demo_hash demo_pool ''abc'' = 1" by (simp add: demo_index demo_pool_def)
  moreover have "Cancelled \<notin> set demo_events" by (simp add: demo_events_def)
  moreover have "taskQueue demo_pool ! 1 = Some [8]" by (simp add: demo_pool_def)
  ultimately show ?thesis using client_tasks_finish [OF _ demo_run demo_owned, of "''abc''" "[8]"] by auto
qed

end
