(* ===== verification/Machine_Runs.thy ===== *)
theory Machine_Runs
  imports Main
begin

text \<open>
  Runs of a labelled step relation and the contract of an inductive invariant.  The contract is a
  locale: a start predicate, a step relation and an invariant that holds at the start and survives
  every step; what follows for runs is proved once here and used for the broker as a whole.
\<close>

inductive run :: "('s \<Rightarrow> 'l \<Rightarrow> 's \<Rightarrow> bool) \<Rightarrow> 's \<Rightarrow> 'l list \<Rightarrow> 's \<Rightarrow> bool" for step where
  run_start: "run step s [] s"
| run_step: "\<lbrakk> run step s ls s'; step s' l s'' \<rbrakk> \<Longrightarrow> run step s (ls @ [l]) s''"

lemma run_single: "step s l s' \<Longrightarrow> run step s [l] s'"
  using run_step [OF run_start] by fastforce

lemma run_append:
  assumes "run step s' ms s''" and "run step s ls s'"
  shows "run step s (ls @ ms) s''"
  using assms
proof (induction rule: run.induct)
  case (run_step s' ms t l t')
  then have "run step s (ls @ ms) t" by blast
  from run.run_step [OF this run_step.hyps(2)] show ?case by simp
qed simp

locale invariant_machine =
  fixes start :: "'s \<Rightarrow> bool"
    and step :: "'s \<Rightarrow> 'l \<Rightarrow> 's \<Rightarrow> bool"
    and inv :: "'s \<Rightarrow> bool"
  assumes inv_start: "start s \<Longrightarrow> inv s"
    and inv_step: "\<lbrakk> inv s; step s l s' \<rbrakk> \<Longrightarrow> inv s'"
begin

lemma run_keeps:
  assumes "run step s ls s'" and "inv s"
  shows "inv s'"
  using assms by (induction rule: run.induct) (auto intro: inv_step)

lemma run_inv: "start s \<Longrightarrow> run step s ls s' \<Longrightarrow> inv s'"
  using run_keeps inv_start by blast

text \<open>A relation between successive states that every step from an invariant state has.\<close>

lemma run_relates:
  assumes "start s" and "run step s ls s'" and "run step s' ms s''"
    and rel: "\<And>x l y. inv x \<Longrightarrow> step x l y \<Longrightarrow> R x y"
    and refl: "\<And>x. R x x" and trans: "\<And>x y z. R x y \<Longrightarrow> R y z \<Longrightarrow> R x z"
  shows "R s' s''"
proof -
  have i: "inv s'" using run_inv [OF assms(1,2)] .
  from assms(3) i show ?thesis
  proof (induction rule: run.induct)
    case (run_start s)
    show ?case by (rule refl)
  next
    case (run_step s ms t l t')
    from run_keeps [OF run_step.hyps(1) run_step.prems] have "inv t" .
    with rel [OF this run_step.hyps(2)] trans run_step show ?case by blast
  qed
qed

end

end
