(* ===== verification/Net_Address.thy ===== *)
theory Net_Address
  imports Thoth_Base
begin

text \<open>
  The split of a network address into host and port (\<open>net.SplitHostPort\<close> of the standard
  library), which the broker uses to record the addresses of a connection.
\<close>

datatype addr_error = MissingPort | TooManyColons | MissingBracket | UnexpectedOpen | UnexpectedClose

definition index_of :: "char \<Rightarrow> string \<Rightarrow> nat option" where
  "index_of c s = first_index (\<lambda>x. x = c) s"

definition last_index_of :: "char \<Rightarrow> string \<Rightarrow> nat option" where
  "last_index_of c s = map_option (\<lambda>i. length s - 1 - i) (index_of c (rev s))"

definition SplitHostPort :: "string \<Rightarrow> addr_error + (string \<times> string)" where
  "SplitHostPort hostport =
     (case last_index_of (CHR '':'') hostport of
        None \<Rightarrow> Inl MissingPort
      | Some i \<Rightarrow>
          (let r = (if hostport ! 0 = CHR ''['' then
                      (case index_of (CHR '']'') hostport of
                         None \<Rightarrow> Inl MissingBracket
                       | Some e \<Rightarrow>
                           if e + 1 = length hostport then Inl MissingPort
                           else if e + 1 = i then Inr (drop 1 (take e hostport), 1, e + 1)
                           else if hostport ! (e + 1) = CHR '':'' then Inl TooManyColons
                           else Inl MissingPort)
                    else if CHR '':'' \<in> set (take i hostport) then Inl TooManyColons
                    else Inr (take i hostport, 0, 0))
           in case r of
                Inl e \<Rightarrow> Inl e
              | Inr (host, j, k) \<Rightarrow>
                  if CHR ''['' \<in> set (drop j hostport) then Inl UnexpectedOpen
                  else if CHR '']'' \<in> set (drop k hostport) then Inl UnexpectedClose
                  else Inr (host, drop (i + 1) hostport)))"

text \<open>The callers ignore the port and the error; with an error the host is empty.\<close>

definition host_part :: "string \<Rightarrow> string" where
  "host_part s = (case SplitHostPort s of Inl _ \<Rightarrow> [] | Inr (h, p) \<Rightarrow> h)"

section \<open>Addresses of connections\<close>

lemma index_of_append:
  "c \<notin> set xs \<Longrightarrow> index_of c (xs @ c # ys) = Some (length xs)"
  by (induction xs) (auto simp: index_of_def)

lemma last_index_of_append:
  assumes "c \<notin> set ys"
  shows "last_index_of c (xs @ c # ys) = Some (length xs)"
  using index_of_append [of c "rev ys" "rev xs"] assms by (simp add: last_index_of_def)

definition plain :: "string \<Rightarrow> bool" where
  "plain s \<longleftrightarrow> CHR '':'' \<notin> set s \<and> CHR ''['' \<notin> set s \<and> CHR '']'' \<notin> set s"

text \<open>An address \<open>host:port\<close>, and \<open>[host]:port\<close> with a host that contains colons.\<close>

lemma SplitHostPort_plain:
  assumes "plain h" and "plain p"
  shows "SplitHostPort (h @ CHR '':'' # p) = Inr (h, p)"
proof -
  have l: "last_index_of (CHR '':'') (h @ CHR '':'' # p) = Some (length h)"
    using assms(2) by (intro last_index_of_append) (simp add: plain_def)
  have "(h @ CHR '':'' # p) ! 0 \<noteq> CHR ''[''"
    using assms(1) by (cases h) (auto simp: plain_def)
  then show ?thesis using assms by (simp add: SplitHostPort_def l plain_def)
qed

lemma SplitHostPort_bracket:
  assumes "CHR ''['' \<notin> set h" and "CHR '']'' \<notin> set h" and "plain p"
  shows "SplitHostPort (CHR ''['' # h @ CHR '']'' # CHR '':'' # p) = Inr (h, p)"
proof -
  let ?s = "CHR ''['' # h @ CHR '']'' # CHR '':'' # p"
  have l: "last_index_of (CHR '':'') ?s = Some (Suc (Suc (length h)))"
    using last_index_of_append [of "CHR '':''" p "CHR ''['' # h @ [CHR '']'']"] assms(3) by (simp add: plain_def)
  have i: "index_of (CHR '']'') ?s = Some (Suc (length h))"
    using index_of_append [of "CHR '']''" "CHR ''['' # h" "CHR '':'' # p"] assms(2) by simp
  show ?thesis using assms by (simp add: SplitHostPort_def l i plain_def)
qed

lemma SplitHostPort_no_port: "CHR '':'' \<notin> set s \<Longrightarrow> SplitHostPort s = Inl MissingPort"
proof -
  assume "CHR '':'' \<notin> set s"
  then have "index_of (CHR '':'') (rev s) = None" by (auto simp: index_of_def first_index_None)
  then show ?thesis by (simp add: SplitHostPort_def last_index_of_def)
qed

end
