(* ===== verification/Decimal_Text.thy ===== *)
theory Decimal_Text
  imports Config_Load
begin

text \<open>
  The decimal text of an integer as \<open>fmt.Sprintf\<close> and \<open>encoding/json\<close> write it, and its
  relation to \<open>strconv.Atoi\<close>, with which the loader reads integers.
\<close>

fun dec_nat :: "nat \<Rightarrow> string" where
  "dec_nat n = (if n < 10 then [char_of (48 + n)] else dec_nat (n div 10) @ [char_of (48 + n mod 10)])"

declare dec_nat.simps [simp del]

definition dec :: "int \<Rightarrow> string" where
  "dec i = (if i < 0 then CHR ''-'' # dec_nat (nat (- i)) else dec_nat (nat i))"

lemma digit_val_digit: "d < 10 \<Longrightarrow> digit_val (char_of (48 + d)) = Some d"
  by (simp add: digit_val_def)

lemma digits_val_snoc:
  "digits_val acc (s @ [c]) =
     (case digits_val acc s of None \<Rightarrow> None | Some n \<Rightarrow> map_option (\<lambda>d. 10 * n + d) (digit_val c))"
  by (induction s arbitrary: acc) (auto split: option.splits)

lemma digits_val_dec: "digits_val 0 (dec_nat n) = Some n"
proof (induction n rule: dec_nat.induct)
  case (1 n)
  show ?case
  proof (cases "n < 10")
    case True
    then show ?thesis by (simp add: dec_nat.simps [of n] digit_val_digit)
  next
    case False
    moreover have "digit_val (char_of (48 + n mod 10)) = Some (n mod 10)" by (simp add: digit_val_digit)
    ultimately show ?thesis using 1 by (simp add: dec_nat.simps [of n] digits_val_snoc)
  qed
qed

lemma dec_nat_not_Nil [simp]: "dec_nat n \<noteq> []"
  by (simp add: dec_nat.simps [of n])

lemma dec_nat_digits: "c \<in> set (dec_nat n) \<Longrightarrow> 48 \<le> (of_char c :: nat) \<and> (of_char c :: nat) \<le> 57"
proof (induction n rule: dec_nat.induct)
  case (1 n)
  have "(48 + n mod 10) mod 256 = 48 + n mod 10" by simp
  with 1 show ?case by (subst (asm) (2) dec_nat.simps) (auto split: if_splits)
qed

lemma dec_nat_no_sign: "CHR ''-'' \<notin> set (dec_nat n)" "CHR ''+'' \<notin> set (dec_nat n)"
  using dec_nat_digits [of "CHR ''-''" n] dec_nat_digits [of "CHR ''+''" n] by auto

text \<open>Reading a written integer gives it back.\<close>

lemma Atoi_dec:
  assumes "- (2 ^ 63) \<le> i" and "i < 2 ^ 63"
  shows "Atoi (dec i) = Some i"
proof (cases "i < 0")
  case True
  then show ?thesis using assms by (simp add: Atoi_def dec_def unsigned_val_def digits_val_dec)
next
  case False
  obtain c cs where d: "dec_nat (nat i) = c # cs" using dec_nat_not_Nil by (meson neq_Nil_conv)
  then have "c \<noteq> CHR ''-''" "c \<noteq> CHR ''+''" using dec_nat_no_sign [of "nat i"] by auto
  with d False assms show ?thesis
    using digits_val_dec [of "nat i"] by (simp add: Atoi_def dec_def unsigned_val_def)
qed

end
