(* ===== verification/Auth_Client.thy ===== *)
theory Auth_Client
  imports Decimal_Text
begin

text \<open>
  The authentication of a connecting client (\<open>auth/auth.go\<close>, \<open>broker/auth.go\<close> and the two
  functions of \<open>heimdallr/heimdallr.pb.go\<close> it calls).  The RPC library is a parameter: \<open>dial\<close>
  gives a handle or fails, and \<open>invoke\<close> performs one call on a handle with the outgoing
  metadata, the method name and the request, and gives the response or fails.
\<close>

record AuthRequest =
  ar_ClientId :: string
  ar_JwtToken :: string

record ResultResponse =
  rr_Success :: bool

record grpc =
  dial :: "string \<Rightarrow> nat option"
  invoke :: "nat \<Rightarrow> (string \<times> string) list \<Rightarrow> string \<Rightarrow> AuthRequest \<Rightarrow> ResultResponse option"

definition GetSuccess :: "ResultResponse option \<Rightarrow> bool" where
  "GetSuccess x = (case x of Some r \<Rightarrow> rr_Success r | None \<Rightarrow> False)"

definition Authenticate ::
  "grpc \<Rightarrow> nat \<Rightarrow> (string \<times> string) list \<Rightarrow> AuthRequest \<Rightarrow> ResultResponse option" where
  "Authenticate G cc ctx req = invoke G cc ctx ''/heimdallr.HeimdallrService/Authenticate'' req"

text \<open>
  \<open>CheckConnect\<close> returns the verdict and the connections that are open afterwards, given those
  that were open before.
\<close>

definition CheckConnect ::
  "grpc \<Rightarrow> Configuration \<Rightarrow> string \<Rightarrow> string \<Rightarrow> nat list \<Rightarrow> bool \<times> nat list" where
  "CheckConnect G cfg uname pass open =
     (let heimdallrAddr = HeimdallrHost cfg @ '':'' @ dec (HeimdallrPort cfg)
      in case dial G heimdallrAddr of
           None \<Rightarrow> (False, open)
         | Some cc \<Rightarrow>
             (let opened = cc # open;
                  md = [(''authorization'', HeimdallrAPIKey cfg)];
                  req = \<lparr> ar_ClientId = uname, ar_JwtToken = pass \<rparr>
              in case Authenticate G cc md req of
                   None \<Rightarrow> (False, remove1 cc opened)
                 | Some res \<Rightarrow> (GetSuccess (Some res), remove1 cc opened)))"

text \<open>\<open>AuthenticateClient\<close>: a broker without an authenticator accepts everybody.\<close>

definition AuthenticateClient :: "(string \<Rightarrow> string \<Rightarrow> bool) option \<Rightarrow> string \<Rightarrow> string \<Rightarrow> bool" where
  "AuthenticateClient auth uname pass = (case auth of Some check \<Rightarrow> check uname pass | None \<Rightarrow> True)"

text \<open>\<open>NewAuth\<close> never fails; the authenticator is \<open>CheckConnect\<close>.\<close>

definition NewAuth :: "grpc \<Rightarrow> Configuration \<Rightarrow> string + (string \<Rightarrow> string \<Rightarrow> bool)" where
  "NewAuth G cfg = Inr (\<lambda>uname pass. fst (CheckConnect G cfg uname pass []))"

section \<open>Properties\<close>

text \<open>
  C31: \<open>CheckConnect\<close> fails closed: it accepts exactly if the service could be dialled at the
  configured host and port, the call with the configured key, the user name as client id and the
  password as token succeeded, and the answer says so.  Whatever the outcome, no connection is
  left open.
\<close>

theorem auth_fails_closed:
  "(fst (CheckConnect G cfg uname pass open) \<longleftrightarrow>
     (\<exists>cc r. dial G (HeimdallrHost cfg @ '':'' @ dec (HeimdallrPort cfg)) = Some cc \<and>
        invoke G cc [(''authorization'', HeimdallrAPIKey cfg)] ''/heimdallr.HeimdallrService/Authenticate''
          \<lparr> ar_ClientId = uname, ar_JwtToken = pass \<rparr> = Some r \<and> rr_Success r)) \<and>
   snd (CheckConnect G cfg uname pass open) = open"
  by (auto simp: CheckConnect_def Authenticate_def GetSuccess_def Let_def split: option.splits)

end
