(* ===== verification/Broker_Core.thy ===== *)
theory Broker_Core
  imports Message_Dispatch Net_Address Auth_Client
begin

text \<open>
  Connections (\<open>broker/broker.go\<close>, \<open>broker/session.go\<close> and \<open>init\<close> of
  \<open>broker/client.go\<close>): the first packet of a connection, its CONNACK, the client object and its
  session, the online notification, and the construction of the broker.
\<close>

section \<open>Notifications\<close>

text \<open>\<open>PublishMessage\<close> writes directly to every subscriber, without regard to its QoS.\<close>

definition PublishMessage :: "env \<Rightarrow> publish_packet \<Rightarrow> world \<Rightarrow> world" where
  "PublishMessage E packet w =
     (case Manager_Subscribers (topicsMgr w) (p_TopicName packet) (p_Qos packet) ([], []) of
        (found, Some _) \<Rightarrow> w
      | (found, None) \<Rightarrow>
          fold (\<lambda>sub w. case sub of
                  ISub s \<Rightarrow> fst (WritePacket E (sub_client (sub_at w s)) (PublishPacket packet) w)
                | _ \<Rightarrow> w) (fst found) w)"

definition OnlineOfflineNotification :: "env \<Rightarrow> string \<Rightarrow> bool \<Rightarrow> world \<Rightarrow> world" where
  "OnlineOfflineNotification E cid online w =
     PublishMessage E ((newPublish E)\<lparr>p_TopicName := ''/'' @ cid, p_Qos := 0,
        p_Payload := ''{\"clientId\": \"'' @ cid @ ''\", \"online\": '' @ (if online then ''true'' else ''false'') @
          '', \"timestamp\": \"'' @ rfc3339 E @ ''\"''\<rparr>) w"

text \<open>The first remote with the given URL, in the order in which the map is visited, is told its id.\<close>

fun remote_exist_loop :: "string \<Rightarrow> string \<Rightarrow> (string \<times> addr) list \<Rightarrow> world \<Rightarrow> world \<times> bool" where
  "remote_exist_loop rid url [] w = (w, False)"
| "remote_exist_loop rid url ((k, v) # rest) w =
     (if remoteUrl (route (client_at w v)) = url
      then (upd_client v (\<lambda>c. c\<lparr>route := (route c)\<lparr>remoteID := rid\<rparr>\<rparr>) w, True)
      else remote_exist_loop rid url rest w)"

definition CheckRemoteExist :: "string \<Rightarrow> string \<Rightarrow> world \<Rightarrow> world \<times> bool" where
  "CheckRemoteExist rid url w = remote_exist_loop rid url (remotes w) w"

section \<open>The client object\<close>

text \<open>What the broker asks of a connection: its two addresses.\<close>

record connection =
  local_addr :: string
  remote_network :: string
  remote_addr :: string
  ws_remote_addr :: string

text \<open>The struct literal of \<open>handleConnection\<close>; the connection already has some output.\<close>

definition new_client :: "client_type \<Rightarrow> info \<Rightarrow> control_packet list \<Rightarrow> client" where
  "new_client t i out = \<lparr> ctyp = t, broker = True, conn = True, conn_closed = False, wrote = out,
     info = i, status = NotStarted, qoss = [], csubs = [], subMap = [], rmsgs = [],
     route = \<lparr> remoteID = [], remoteUrl = [] \<rparr>, routeSubMap = [], awaitingRel = [],
     maxAwaitingRel = 0, ctxDone = False, inflight = [], retryTimer = False, session = None \<rparr>"

definition init :: "connection \<Rightarrow> client \<Rightarrow> client" where
  "init con c = c\<lparr>status := Connected,
     info := (info c)\<lparr>localIP := host_part (local_addr con),
       remoteIP := (if remote_network con \<noteq> ''websocket'' then host_part (remote_addr con)
                    else host_part (ws_remote_addr con))\<rparr>,
     ctxDone := False, subMap := [], routeSubMap := [], awaitingRel := [], inflight := []\<rparr>"

section \<open>Sessions\<close>

text \<open>
  \<open>getSession\<close> for the client at address \<open>a\<close>.  The result has the CONNACK packet, which
  the caller has sent before.
\<close>

definition find_session ::
  "addr \<Rightarrow> connect_packet \<Rightarrow> connack_packet \<Rightarrow> world \<Rightarrow> world \<times> connack_packet \<times> session_error option" where
  "find_session a req resp w =
     (if c_CleanSession req then (w, resp, None)
      else case sess_Manager_Get (sessionMgr w) (c_ClientIdentifier req) of
             Inl _ \<Rightarrow> (upd_client a (\<lambda>c. c\<lparr>session := None\<rparr>) w, resp, None)
           | Inr s \<Rightarrow>
               (let (sess, err) = Session_Update (sess_at (sessionMgr w) s) req
                in ((upd_client a (\<lambda>c. c\<lparr>session := Some s\<rparr>) w)\<lparr>sessionMgr := sess_put (sessionMgr w) s sess\<rparr>,
                    resp\<lparr>ca_SessionPresent := True\<rparr>, err)))"

definition make_session ::
  "env \<Rightarrow> addr \<Rightarrow> connect_packet \<Rightarrow> connack_packet \<Rightarrow> world \<Rightarrow> world \<times> connack_packet \<times> session_error option" where
  "make_session E a req resp w =
     (let (m, s) = sess_Manager_New (sess_rnd E) (sessionMgr w) (c_ClientIdentifier req);
          (sess, err) = Session_Init (newPublish E) (sess_at m s) req
      in ((upd_client a (\<lambda>c. c\<lparr>session := Some s\<rparr>) w)\<lparr>sessionMgr := sess_put m s sess\<rparr>,
          resp\<lparr>ca_SessionPresent := False\<rparr>, err))"

definition getSession ::
  "env \<Rightarrow> addr \<Rightarrow> connect_packet \<Rightarrow> connack_packet \<Rightarrow> world \<Rightarrow> world \<times> connack_packet \<times> session_error option" where
  "getSession E a req resp w =
     (let req' = (if length (c_ClientIdentifier req) = 0 then req\<lparr>c_CleanSession := True\<rparr> else req)
      in case find_session a req' resp w of
           (w1, resp1, Some err) \<Rightarrow> (w1, resp1, Some err)
         | (w1, resp1, None) \<Rightarrow>
             if session (client_at w1 a) = None then make_session E a req' resp1 w1
             else (w1, resp1, None))"

section \<open>Connections\<close>

definition Accepted :: u8 where "Accepted = 0"
definition ErrRefusedBadUsernameOrPassword :: u8 where "ErrRefusedBadUsernameOrPassword = 4"

lemmas connack_codes [simp] = Accepted_def ErrRefusedBadUsernameOrPassword_def

text \<open>What \<open>packets.ReadPacket\<close> returns: an error, a nil packet or a packet.\<close>

datatype read_result = ReadFailed | NilPacket | Got control_packet

text \<open>
  How \<open>handleConnection\<close> goes on: it returned and leaves the connection with what was written
  on it, or the client at an address enters its read loop.
\<close>

datatype handshake = Returned "control_packet list" world | Reading addr world

text \<open>The will and the info of the client.\<close>

definition will_message :: "env \<Rightarrow> connect_packet \<Rightarrow> publish_packet option" where
  "will_message E msg =
     (if c_WillFlag msg
      then Some ((newPublish E)\<lparr>p_Qos := c_WillQos msg, p_TopicName := c_WillTopic msg,
             p_Retain := c_WillRetain msg, p_Payload := c_WillMessage msg, p_Dup := c_Dup msg\<rparr>)
      else None)"

definition connect_info :: "env \<Rightarrow> connect_packet \<Rightarrow> info" where
  "connect_info E msg =
     \<lparr> clientId = c_ClientIdentifier msg, username = c_Username msg, password = c_Password msg,
       keepalive = c_Keepalive msg, willMsg = will_message E msg, localIP = [], remoteIP = [] \<rparr>"

text \<open>The end of \<open>handleConnection\<close>: an older client of the same id is closed, the new one announced.\<close>

definition close_old :: "(string, addr) gomap \<Rightarrow> string \<Rightarrow> world \<Rightarrow> world" where
  "close_old table cid w = (case gm_get table cid of Some ol \<Rightarrow> Close ol w | None \<Rightarrow> w)"

definition enter :: "env \<Rightarrow> client_type \<Rightarrow> addr \<Rightarrow> world \<Rightarrow> world" where
  "enter E typ a w =
     (let cid = clientId (info (client_at w a))
      in case typ of
           CLIENT \<Rightarrow> OnlineOfflineNotification E cid True (close_old (clients w) cid w)
         | ROUTER \<Rightarrow> (let w1 = close_old (routes w) cid w in w1\<lparr>routes := gm_put cid a (routes w1)\<rparr>)
         | _ \<Rightarrow> w)"

definition start_client ::
  "env \<Rightarrow> client_type \<Rightarrow> connection \<Rightarrow> connect_packet \<Rightarrow> connack_packet \<Rightarrow> world \<Rightarrow> handshake" where
  "start_client E typ con msg connack w =
     (let a = client_next w;
          c = init con (new_client typ (connect_info E msg) [ConnackPacket connack]);
          w1 = w\<lparr>client_at := (client_at w)(a := c), client_next := Suc a\<rparr>
      in case getSession E a msg connack w1 of
           (w2, _, Some _) \<Rightarrow> Returned [ConnackPacket connack] w2
         | (w2, _, None) \<Rightarrow> Reading a (enter E typ a w2))"

text \<open>
  The handshake: \<open>handleConnection\<close> up to its last statement, the call of
  \<open>readLoop\<close>.  \<open>Reading a w\<close> says that this call follows for the client at address
  \<open>a\<close>; its turns are the functions \<open>read_start\<close>, \<open>read_top\<close> and
  \<open>read_packet\<close>, and a panic in one of them unwinds through the goroutine of the connection and
  ends the process.  The connection is named by the address of the client it will belong to, the
  next free one.
\<close>

definition handleConnection ::
  "env \<Rightarrow> client_type \<Rightarrow> connection \<Rightarrow> read_result \<Rightarrow> world \<Rightarrow> handshake outcome" where
  "handleConnection E typ con first w =
     (case first of
        ReadFailed \<Rightarrow> Exit ''read connect packet error''
      | NilPacket \<Rightarrow> Ret (Returned [] w)
      | Got (ConnectPacket msg) \<Rightarrow>
          (let a = client_next w;
               connack = \<lparr> ca_SessionPresent = c_CleanSession msg, ca_ReturnCode = validate E msg \<rparr>
           in if ca_ReturnCode connack \<noteq> Accepted then
                (if \<not> write_ok E a (ConnackPacket connack) then Exit ''send connack error''
                 else Ret (Returned [ConnackPacket connack] w))
              else if typ = CLIENT \<and> \<not> checkConnect E (c_Username msg) (c_Password msg) then
                (let connack' = connack\<lparr>ca_ReturnCode := ErrRefusedBadUsernameOrPassword\<rparr>
                 in if \<not> write_ok E a (ConnackPacket connack') then Ret (Returned [] w)
                    else Ret (Returned [ConnackPacket connack'] w))
              else if \<not> write_ok E a (ConnackPacket connack) then Exit ''send connack error''
              else Ret (start_client E typ con msg connack w))
      | Got _ \<Rightarrow> Exit ''received message that was not connect'')"

section \<open>Who is notified\<close>

definition notified :: "env \<Rightarrow> world \<Rightarrow> control_packet \<Rightarrow> addr \<Rightarrow> nat \<Rightarrow> control_packet list" where
  "notified E w pkt b n = (if can_write E b pkt (client_at w b) then replicate n pkt else [])"

definition notify :: "env \<Rightarrow> control_packet \<Rightarrow> iface \<Rightarrow> world \<Rightarrow> world" where
  "notify E pkt sub w =
     (case sub of ISub s \<Rightarrow> fst (WritePacket E (sub_client (sub_at w s)) pkt w) | _ \<Rightarrow> w)"

lemma keeps_notify [simp]: "keeps w (notify E pkt sub w)"
  by (simp add: notify_def split: iface.split)

lemma notify_client:
  assumes "subs_started w [x]"
  shows "client_at (notify E pkt x w) b = (client_at w b)\<lparr>wrote := wrote (client_at w b) @
      notified E w pkt b (if of_client w b x then 1 else 0)\<rparr>"
proof (cases x)
  case (ISub s)
  with assms have "started w (sub_client (sub_at w s))" by (simp add: subs_started_def)
  with ISub show ?thesis
    by (auto simp: notify_def notified_def of_client_def started_def WritePacket_client)
qed (simp_all add: notify_def notified_def of_client_def)

lemma notify_same [simp]: "same_but_clients w (notify E pkt x w)"
  by (simp add: notify_def split: iface.split)

lemma subs_started_Cons: "subs_started w (x # xs) \<longleftrightarrow> subs_started w [x] \<and> subs_started w xs"
  by (auto simp: subs_started_def)

lemma notify_preds:
  assumes "subs_started w [x]"
  shows "of_client (notify E pkt x w) b y = of_client w b y"
    and "subs_started (notify E pkt x w) ys = subs_started w ys"
    and "notified E (notify E pkt x w) pkt' b n = notified E w pkt' b n"
  using same_but_clientsD [of w "notify E pkt x w", OF notify_same]
  by (simp_all add: of_client_def subs_started_def started_def notified_def can_write_def client_ok_def
      notify_client [OF assms] split: iface.split)

lemma notify_fold:
  "subs_started w fs \<Longrightarrow>
   client_at (fold (notify E pkt) fs w) b = (client_at w b)\<lparr>wrote := wrote (client_at w b) @
     notified E w pkt b (length (filter (of_client w b) fs))\<rparr>"
proof (induction fs arbitrary: w)
  case Nil
  show ?case by (simp add: notified_def)
next
  case (Cons x fs)
  from Cons.prems have x: "subs_started w [x]" and fs: "subs_started w fs"
    using subs_started_Cons by blast+
  have "subs_started (notify E pkt x w) fs" using fs by (simp add: notify_preds [OF x])
  from Cons.IH [OF this] show ?case
    by (simp add: notify_preds [OF x] notify_client [OF x]) (simp add: notified_def)
qed

lemma keeps_PublishMessage [simp]: "keeps w (PublishMessage E p w)"
proof -
  have "keeps w (fold (notify E (PublishPacket p)) fs w)" for fs by (rule keeps_fold) simp
  then show ?thesis by (simp add: PublishMessage_def notify_def [abs_def] split: prod.splits option.splits)
qed

lemma keeps_Notification [simp]: "keeps w (OnlineOfflineNotification E cid online w)"
  by (simp add: OnlineOfflineNotification_def)

text \<open>
  Every client gets one copy for each of its subscriptions that match the topic, shared ones
  included, and no other field of it changes.
\<close>

lemma PublishMessage_clients:
  assumes "winv w" and "ValidQos (p_Qos p)" and "levels (p_TopicName p) = Inr ls"
  shows "client_at (PublishMessage E p w) b = (client_at w b)\<lparr>wrote := wrote (client_at w b) @
    notified E w (PublishPacket p) b (card {s \<in> matching w ls. sub_client (sub_at w s) = b})\<rparr>"
proof -
  let ?p = "p\<lparr>p_Retain := False\<rparr>"
  from found_matching [OF assms(1), of ?p ls "([], [])"] assms(2,3) obtain fs qs where
    found: "Manager_Subscribers (topicsMgr w) (p_TopicName p) (p_Qos p) ([], []) = ((fs, qs), None)"
    and fs: "distinct fs" "set fs = ISub ` matching w ls"
    by (auto simp: retain_world_def)
  have st: "subs_started w fs"
    using found_subs_started [OF assms(1), of ?p] found by (simp add: retain_world_def)
  have "PublishMessage E p w = fold (notify E (PublishPacket p)) fs w"
    by (simp add: PublishMessage_def found notify_def [abs_def])
  moreover have "set (filter (of_client w b) fs) = ISub ` {s \<in> matching w ls. sub_client (sub_at w s) = b}"
    unfolding set_filter fs(2) by (auto simp: of_client_def)
  then have "length (filter (of_client w b) fs) = card (ISub ` {s \<in> matching w ls. sub_client (sub_at w s) = b})"
    using distinct_card [OF distinct_filter [OF fs(1)], of "of_client w b"] by simp
  then have "length (filter (of_client w b) fs) = card {s \<in> matching w ls. sub_client (sub_at w s) = b}"
    by (simp add: card_image inj_on_def)
  ultimately show ?thesis using notify_fold [OF st] by simp
qed

section \<open>The session of a new client\<close>

definition resumed :: "world \<Rightarrow> connect_packet \<Rightarrow> addr option" where
  "resumed w msg =
     (if c_CleanSession msg \<or> c_ClientIdentifier msg = [] then None
      else gm_get (st (sessionMgr w)) (c_ClientIdentifier msg))"

definition session_key :: "env \<Rightarrow> connect_packet \<Rightarrow> string" where
  "session_key E msg = (if c_ClientIdentifier msg = [] then sessionId (sess_rnd E) else c_ClientIdentifier msg)"

definition clean_if_anonymous :: "connect_packet \<Rightarrow> connect_packet" where
  "clean_if_anonymous msg = (if c_ClientIdentifier msg = [] then msg\<lparr>c_CleanSession := True\<rparr> else msg)"

definition session_after :: "env \<Rightarrow> connect_packet \<Rightarrow> world \<Rightarrow> session_store \<times> addr" where
  "session_after E msg w =
     (case resumed w msg of
        Some s \<Rightarrow> (sess_put (sessionMgr w) s ((sess_at (sessionMgr w) s)\<lparr>cmsg := Some msg\<rparr>), s)
      | None \<Rightarrow>
          (sess_put (fst (sess_New (sessionMgr w) (session_key E msg))) (sess_next (sessionMgr w))
             (fst (Session_Init (newPublish E) (newSession (session_key E msg)) (clean_if_anonymous msg))),
           sess_next (sessionMgr w)))"

lemma Init_new [simp]: "snd (Session_Init np (newSession i) msg) = None"
  by (simp add: Session_Init_def newSession_def Let_def)

lemma upd_client_twice [simp]: "upd_client a f (upd_client a g w) = upd_client a (\<lambda>c. f (g c)) w"
  by (simp add: upd_client_def)

lemma getSession_conv:
  assumes "session (client_at w a) = None"
  shows "\<exists>resp'. getSession E a msg resp w =
    ((upd_client a (\<lambda>c. c\<lparr>session := Some (snd (session_after E msg w))\<rparr>) w)
       \<lparr>sessionMgr := fst (session_after E msg w)\<rparr>, resp', None)"
proof (cases "resumed w msg")
  case (Some s)
  then have id: "c_ClientIdentifier msg \<noteq> []" "\<not> c_CleanSession msg"
    and "gm_get (st (sessionMgr w)) (c_ClientIdentifier msg) = Some s"
    by (auto simp: resumed_def split: if_splits)
  then have "find_session a msg resp w = ((upd_client a (\<lambda>c. c\<lparr>session := Some s\<rparr>) w)
      \<lparr>sessionMgr := sess_put (sessionMgr w) s ((sess_at (sessionMgr w) s)\<lparr>cmsg := Some msg\<rparr>)\<rparr>,
      resp\<lparr>ca_SessionPresent := True\<rparr>, None)"
    by (simp add: find_session_def sess_Manager_Get_def sess_Get_def Session_Update_def)
  with Some id show ?thesis by (simp add: getSession_def session_after_def)
next
  case None
  let ?msg = "clean_if_anonymous msg"
  have key: "c_ClientIdentifier ?msg = c_ClientIdentifier msg" by (simp add: clean_if_anonymous_def)
  obtain v where v: "find_session a ?msg resp w = (v, resp, None)" and "v = w \<or> v = upd_client a (\<lambda>c. c\<lparr>session := None\<rparr>) w"
    using None
    by (auto simp: find_session_def resumed_def clean_if_anonymous_def sess_Manager_Get_def sess_Get_def
        split: if_splits option.splits)
  moreover have "make_session E a ?msg resp v =
      ((upd_client a (\<lambda>c. c\<lparr>session := Some (snd (session_after E msg w))\<rparr>) w)
         \<lparr>sessionMgr := fst (session_after E msg w)\<rparr>, resp\<lparr>ca_SessionPresent := False\<rparr>, None)"
    if "v = w \<or> v = upd_client a (\<lambda>c. c\<lparr>session := None\<rparr>) w" for v
    using that None
    by (auto simp: make_session_def sess_Manager_New_def sess_New_def session_after_def session_key_def key
        Let_def split_beta)
  ultimately show ?thesis
    using assms by (auto simp: getSession_def clean_if_anonymous_def)
qed

lemma session_after_ok:
  assumes "store_inv (sessionMgr w)" and "\<forall>i < sess_next (sessionMgr w). initted (sess_at (sessionMgr w) i)"
  shows "store_inv (fst (session_after E msg w))"
    and "snd (session_after E msg w) < sess_next (fst (session_after E msg w))"
    and "i < sess_next (fst (session_after E msg w)) \<Longrightarrow> initted (sess_at (fst (session_after E msg w)) i)"
    and "sess_next (sessionMgr w) \<le> sess_next (fst (session_after E msg w))"
proof -
  let ?m = "sessionMgr w" and ?k = "session_key E msg"
  let ?new = "fst (Session_Init (newPublish E) (newSession ?k) (clean_if_anonymous msg))"
  have new: "sess_ok ?new" by (rule sess_ok_ops) simp
  have old: "sess_ok ((sess_at ?m s)\<lparr>cmsg := Some msg\<rparr>)" for s
    using sess_ok_ops(2) [of "sess_at ?m s" msg] assms(1) by (simp add: store_inv_def Session_Update_def)
  have bound: "s < sess_next ?m" if "resumed w msg = Some s" for s
    using that assms(1) by (auto simp: resumed_def store_inv_def split: if_splits dest!: gm_getD)
  show "store_inv (fst (session_after E msg w))"
    using store_inv_put [OF assms(1) old] store_inv_put [OF store_inv_New [OF assms(1)] new]
    by (simp add: session_after_def split: option.split)
  show "snd (session_after E msg w) < sess_next (fst (session_after E msg w))"
    using bound by (auto simp: session_after_def sess_put_def sess_New_def Let_def split: option.split)
  show "initted (sess_at (fst (session_after E msg w)) i)"
    if "i < sess_next (fst (session_after E msg w))"
    using that assms(2)
    by (auto simp: session_after_def sess_put_def sess_New_def Let_def less_Suc_eq split: option.splits)
  show "sess_next (sessionMgr w) \<le> sess_next (fst (session_after E msg w))"
    by (auto simp: session_after_def sess_put_def sess_New_def Let_def split: option.split)
qed

section \<open>The invariant\<close>

definition add_client :: "client \<Rightarrow> session_store \<Rightarrow> world \<Rightarrow> world" where
  "add_client c m w = w\<lparr>client_at := (client_at w)(client_next w := c), client_next := Suc (client_next w),
     sessionMgr := m\<rparr>"

lemma add_client_frame [simp]:
  "client_at (add_client c m w) = (client_at w)(client_next w := c)"
  "client_next (add_client c m w) = Suc (client_next w)" "sessionMgr (add_client c m w) = m"
  "topicsMgr (add_client c m w) = topicsMgr w" "sub_at (add_client c m w) = sub_at w"
  "sub_next (add_client c m w) = sub_next w" "timers (add_client c m w) = timers w"
  "clients (add_client c m w) = clients w" "routes (add_client c m w) = routes w"
  "remotes (add_client c m w) = remotes w"
  by (simp_all add: add_client_def)

lemma winv_add_client:
  assumes "winv w" and c: "client_ok c" "status c = Connected" "subMap c = []" "inflight c = []" "\<not> retryTimer c"
    and m: "store_inv m" "\<And>i. i < sess_next m \<Longrightarrow> initted (sess_at m i)" "sess_next (sessionMgr w) \<le> sess_next m"
    and s: "session c = Some s" "s < sess_next m"
  shows "winv (add_client c m w)" (is "winv ?w")
proof (rule winvI)
  let ?n = "client_next w"
  note i = winvD(1) [OF assms(1), unfolded sinv_def]
  have l: "live ?w x = live w x" for x by (simp add: live_def)
  have owner: "sub_client (sub_at w x) < ?n" if "live w x" for x
  proof -
    from that obtain p q where "mem_granted (topicsMgr w) p (ISub x) = Some q" by (auto simp: live_def)
    with i show ?thesis by (auto simp: tree_ok_def)
  qed
  have "tree_ok ?w" using i by (fastforce simp: tree_ok_def)
  moreover have "maps_ok ?w" unfolding maps_ok_def l using i c(3) by (auto simp: maps_ok_def less_Suc_eq)
  moreover have "tracked_ok ?w" unfolding tracked_ok_def l using i owner by (fastforce simp: tracked_ok_def)
  moreover have "store_ok ?w"
    using i m s by (auto simp: store_ok_def less_Suc_eq)
  moreover have "tables_ok ?w" using i by (fastforce simp: tables_ok_def)
  ultimately show "sinv ?w" by (simp add: sinv_def)
  show "fresh ?w" using winvD(5) [OF assms(1)] by (simp add: fresh_def retry_pending_def)
  show "cinv ?w a" if "a < client_next ?w" for a
  proof (cases "a = ?n")
    case True
    then show ?thesis
      using c winvD(5) [OF assms(1)]
      by (simp add: cinv_def started_def inflight_ok_def fresh_def retry_pending_def)
  next
    case False
    with that have "cinv w a" using winvD(2) [OF assms(1)] by simp
    with False show ?thesis by (simp add: cinv_def started_def retry_pending_def)
  qed
qed

definition connected_client :: "env \<Rightarrow> client_type \<Rightarrow> connection \<Rightarrow> connect_packet \<Rightarrow> connack_packet \<Rightarrow> addr \<Rightarrow> client" where
  "connected_client E typ con msg connack s =
     (init con (new_client typ (connect_info E msg) [ConnackPacket connack]))\<lparr>session := Some s\<rparr>"

lemma connected_client_ok:
  "client_ok (connected_client E typ con msg connack s)"
  "status (connected_client E typ con msg connack s) = Connected"
  "subMap (connected_client E typ con msg connack s) = []"
  "inflight (connected_client E typ con msg connack s) = []"
  "\<not> retryTimer (connected_client E typ con msg connack s)"
  "session (connected_client E typ con msg connack s) = Some s"
  "ctyp (connected_client E typ con msg connack s) = typ"
  "clientId (info (connected_client E typ con msg connack s)) = c_ClientIdentifier msg"
  "wrote (connected_client E typ con msg connack s) = [ConnackPacket connack]"
  by (simp_all add: connected_client_def init_def new_client_def connect_info_def client_ok_def)

text \<open>The state in which the new client is entered: it has its session.\<close>

definition joined :: "env \<Rightarrow> client_type \<Rightarrow> connection \<Rightarrow> connect_packet \<Rightarrow> connack_packet \<Rightarrow> world \<Rightarrow> world" where
  "joined E typ con msg connack w =
     add_client (connected_client E typ con msg connack (snd (session_after E msg w)))
       (fst (session_after E msg w)) w"

lemma start_client_conv:
  "start_client E typ con msg connack w =
     Reading (client_next w) (enter E typ (client_next w) (joined E typ con msg connack w))"
proof -
  let ?c = "init con (new_client typ (connect_info E msg) [ConnackPacket connack])"
  let ?w1 = "w\<lparr>client_at := (client_at w)(client_next w := ?c), client_next := Suc (client_next w)\<rparr>"
  have "session_after E msg ?w1 = session_after E msg w"
    by (simp add: session_after_def resumed_def split: option.split)
  moreover have "session (client_at ?w1 (client_next w)) = None" by (simp add: init_def new_client_def)
  ultimately obtain resp' where "getSession E (client_next w) msg connack ?w1 =
      ((upd_client (client_next w) (\<lambda>c. c\<lparr>session := Some (snd (session_after E msg w))\<rparr>) ?w1)
         \<lparr>sessionMgr := fst (session_after E msg w)\<rparr>, resp', None)"
    using getSession_conv [of ?w1 "client_next w" E msg connack] by auto
  moreover have "(upd_client (client_next w) (\<lambda>c. c\<lparr>session := Some (snd (session_after E msg w))\<rparr>) ?w1)
         \<lparr>sessionMgr := fst (session_after E msg w)\<rparr> = joined E typ con msg connack w"
    by (simp add: joined_def add_client_def connected_client_def upd_client_def)
  ultimately show ?thesis by (simp add: start_client_def Let_def)
qed

lemma winv_joined:
  assumes "winv w"
  shows "winv (joined E typ con msg connack w)"
proof -
  have st: "store_inv (sessionMgr w)" "\<forall>i < sess_next (sessionMgr w). initted (sess_at (sessionMgr w) i)"
    using winvD(1) [OF assms] by (simp_all add: sinv_def store_ok_def)
  note s = session_after_ok [OF st, where E = E and msg = msg]
  show ?thesis unfolding joined_def
    using s by (intro winv_add_client [OF assms]) (simp_all add: connected_client_ok)
qed

lemma joined_frame [simp]:
  "client_next (joined E typ con msg connack w) = Suc (client_next w)"
  "clients (joined E typ con msg connack w) = clients w" "routes (joined E typ con msg connack w) = routes w"
  "topicsMgr (joined E typ con msg connack w) = topicsMgr w" "sub_at (joined E typ con msg connack w) = sub_at w"
  "client_at (joined E typ con msg connack w) b =
     (if b = client_next w then connected_client E typ con msg connack (snd (session_after E msg w)) else client_at w b)"
  "sessionMgr (joined E typ con msg connack w) = fst (session_after E msg w)"
  by (simp_all add: joined_def)

lemma keeps_close_old [simp]: "keeps w (close_old table cid w)"
  by (simp add: close_old_def split: option.split)

lemma winv_route:
  assumes "winv w" and "a < client_next w" and "ctyp (client_at w a) = ROUTER"
  shows "winv (w\<lparr>routes := gm_put cid a (routes w)\<rparr>)" (is "winv ?w")
proof -
  have l: "live ?w x = live w x" for x by (simp add: live_def)
  have "sinv ?w"
    using winvD(1) [OF assms(1)] assms(2,3)
    unfolding sinv_def tree_ok_def maps_ok_def tracked_ok_def store_ok_def tables_ok_def l
    by (auto dest!: gm_put_mem)
  with assms(1) show ?thesis by (simp add: winv_def fresh_def cinv_def started_def retry_pending_def)
qed

lemma winv_enter:
  assumes "winv w" and "a < client_next w" and "ctyp (client_at w a) = typ"
  shows "winv (enter E typ a w) \<and> client_next (enter E typ a w) = client_next w"
proof -
  let ?cid = "clientId (info (client_at w a))"
  let ?c = "close_old (clients w) ?cid w" and ?r = "close_old (routes w) ?cid w"
  have "keeps w (OnlineOfflineNotification E ?cid True ?c)" by (rule keeps_trans [of _ ?c]) simp_all
  moreover have r: "keeps w ?r" by simp
  then have "winv ?r" "a < client_next ?r" "ctyp (client_at ?r a) = typ"
    using keeps_winv assms by (auto simp: keeps_def same_struct_def)
  then have "typ = ROUTER \<Longrightarrow> winv (?r\<lparr>routes := gm_put ?cid a (routes ?r)\<rparr>)" using winv_route by blast
  ultimately show ?thesis using assms(1) keeps_winv r
    by (cases "typ") (auto simp: enter_def Let_def keeps_def same_struct_def)
qed

lemma handleConnection_winv:
  assumes "winv w" and "handleConnection E typ con first w = Ret h"
  shows "(\<exists>out. h = Returned out w) \<or>
    (\<exists>w'. h = Reading (client_next w) w' \<and> winv w' \<and> client_next w' = Suc (client_next w))"
proof -
  have "winv (enter E typ (client_next w) (joined E typ con msg connack w)) \<and>
    client_next (enter E typ (client_next w) (joined E typ con msg connack w)) = Suc (client_next w)" for msg connack
    using winv_enter [OF winv_joined [OF assms(1)], where a = "client_next w"]
    by (simp add: connected_client_ok)
  with assms(2) show ?thesis
    by (auto simp: handleConnection_def start_client_conv Let_def split: read_result.splits control_packet.splits if_splits)
qed

section \<open>An accepted connection\<close>

lemma live_owner:
  assumes "winv w" and "live w s"
  shows "sub_client (sub_at w s) < client_next w"
proof -
  from assms(2) obtain p q where "mem_granted (topicsMgr w) p (ISub s) = Some q" by (auto simp: live_def)
  with winvD(1) [OF assms(1)] show ?thesis by (auto simp: sinv_def tree_ok_def)
qed

lemma PublishMessage_writes:
  assumes "winv w"
  obtains out where "client_at (PublishMessage E p w) b = (client_at w b)\<lparr>wrote := wrote (client_at w b) @ out\<rparr>"
    and "(\<And>s. live w s \<Longrightarrow> sub_client (sub_at w s) \<noteq> b) \<Longrightarrow> out = []"
proof (cases "Manager_Subscribers (topicsMgr w) (p_TopicName p) (p_Qos p) ([], [])")
  case (Pair f err)
  show ?thesis
  proof (cases err)
    case None
    let ?p = "p\<lparr>p_Retain := False\<rparr>"
    obtain fs qs where "f = (fs, qs)" by (cases f)
    with Pair None have found: "Manager_Subscribers (topicsMgr (retain_world ?p w)) (p_TopicName p) (p_Qos p) ([], []) =
        ((fs, qs), None)" by (simp add: retain_world_def)
    have "PublishMessage E p w = fold (notify E (PublishPacket p)) fs w"
      using found by (simp add: PublishMessage_def notify_def [abs_def] retain_world_def)
    moreover have "filter (of_client w b) fs = []" if "\<And>s. live w s \<Longrightarrow> sub_client (sub_at w s) \<noteq> b"
      using found_subs [OF assms found] that by (metis (mono_tags, lifting) filter_False of_client_ISub)
    ultimately show ?thesis
      using notify_fold [OF found_subs_started [OF assms found], of E "PublishPacket p" b]
      by (intro that [of "notified E w (PublishPacket p) b (length (filter (of_client w b) fs))"])
        (simp_all add: notified_def)
  next
    case (Some e)
    with Pair have "PublishMessage E p w = w" by (simp add: PublishMessage_def)
    then show ?thesis by (intro that [of "[]"]) simp_all
  qed
qed

definition online_packet :: "env \<Rightarrow> string \<Rightarrow> publish_packet" where
  "online_packet E cid = (newPublish E)\<lparr>p_TopicName := ''/'' @ cid, p_Qos := 0,
     p_Payload := ''{\"clientId\": \"'' @ cid @ ''\", \"online\": true, \"timestamp\": \"'' @ rfc3339 E @ ''\"''\<rparr>"

lemma enter_client:
  assumes "winv w"
  shows "enter E CLIENT a w = PublishMessage E (online_packet E (clientId (info (client_at w a)))) w"
proof -
  have "clients w = []" using winvD(1) [OF assms] by (simp add: sinv_def tables_ok_def)
  then show ?thesis
    by (simp add: enter_def close_old_def OnlineOfflineNotification_def online_packet_def Let_def)
qed

definition accepts :: "env \<Rightarrow> connect_packet \<Rightarrow> world \<Rightarrow> bool" where
  "accepts E msg w \<longleftrightarrow> validate E msg = Accepted \<and> checkConnect E (c_Username msg) (c_Password msg) \<and>
     write_ok E (client_next w) (ConnackPacket \<lparr> ca_SessionPresent = c_CleanSession msg, ca_ReturnCode = Accepted \<rparr>)"

abbreviation joined_client :: "env \<Rightarrow> connection \<Rightarrow> connect_packet \<Rightarrow> world \<Rightarrow> world" where
  "joined_client E con msg w \<equiv>
     joined E CLIENT con msg \<lparr> ca_SessionPresent = c_CleanSession msg, ca_ReturnCode = Accepted \<rparr> w"

lemma accepted_conv:
  assumes "winv w" and "accepts E msg w"
  shows "handleConnection E CLIENT con (Got (ConnectPacket msg)) w =
    Ret (Reading (client_next w) (PublishMessage E (online_packet E (c_ClientIdentifier msg)) (joined_client E con msg w)))"
  using assms(2) enter_client [OF winv_joined [OF assms(1)]]
  by (simp add: handleConnection_def accepts_def start_client_conv connected_client_ok)

lemma PublishMessage_frame: "same_but_clients w (PublishMessage E p w)"
proof -
  have "same_but_clients w (fold (notify E pkt) fs w)" for fs pkt
  proof (induction fs arbitrary: w)
    case (Cons x fs)
    then show ?case using same_but_clients_trans notify_same by fastforce
  qed simp
  then show ?thesis by (simp add: PublishMessage_def notify_def [abs_def] split: prod.splits option.splits)
qed

text \<open>The new client itself is not notified: it has no subscription yet.\<close>

lemma accepted_self:
  assumes "winv w"
  shows "client_at (PublishMessage E' p (joined E CLIENT con msg connack w)) (client_next w) =
    connected_client E CLIENT con msg connack (snd (session_after E msg w))"
proof -
  let ?v = "joined E CLIENT con msg connack w"
  have "live ?v s = live w s" for s by (simp add: live_def)
  then have "sub_client (sub_at ?v s) \<noteq> client_next w" if "live ?v s" for s
    using live_owner [OF assms, of s] that by simp
  then have none: "\<And>s. live ?v s \<Longrightarrow> sub_client (sub_at ?v s) \<noteq> client_next w" .
  show ?thesis
    by (rule PublishMessage_writes [OF winv_joined [OF assms], of E' p E CLIENT con msg connack "client_next w"])
      (use none in simp)
qed

lemma accepted_other:
  assumes "winv w" and "b < client_next w"
  shows "\<exists>out. client_at (PublishMessage E' p (joined E CLIENT con msg connack w)) b =
    (client_at w b)\<lparr>wrote := wrote (client_at w b) @ out\<rparr>"
  by (rule PublishMessage_writes [OF winv_joined [OF assms(1)], of E' p E CLIENT con msg connack b])
    (use assms(2) in auto)

section \<open>Properties\<close>

text \<open>
  C13: a CONNECT that passes validation and authentication, and whose CONNACK can be written, adds
  one client to a well-formed state and keeps it well-formed.  The client is connected, holds no
  subscription, and its connection has carried exactly one packet, a CONNACK whose session-present
  flag is the clean-session flag of the request.  Every other client, also one with the same
  identifier, stays as it was, apart from packets written to it: no older connection is taken over.
\<close>

theorem connect_accepted:
  assumes "winv w" and "accepts E msg w"
  shows "\<exists>w' s. handleConnection E CLIENT con (Got (ConnectPacket msg)) w = Ret (Reading (client_next w) w') \<and>
    winv w' \<and> client_next w' = Suc (client_next w) \<and>
    client_at w' (client_next w) =
      connected_client E CLIENT con msg \<lparr> ca_SessionPresent = c_CleanSession msg, ca_ReturnCode = Accepted \<rparr> s \<and>
    (\<forall>b < client_next w. \<exists>out. client_at w' b = (client_at w b)\<lparr>wrote := wrote (client_at w b) @ out\<rparr>)"
proof -
  let ?v = "joined_client E con msg w"
  let ?w = "PublishMessage E (online_packet E (c_ClientIdentifier msg)) ?v"
  have "keeps ?v ?w" by simp
  from keeps_winv [OF this winv_joined [OF assms(1)]] have "winv ?w" .
  moreover have "client_next ?w = Suc (client_next w)" using same_but_clientsD(7) [OF PublishMessage_frame] by simp
  moreover have "client_at ?w (client_next w) =
      connected_client E CLIENT con msg \<lparr> ca_SessionPresent = c_CleanSession msg, ca_ReturnCode = Accepted \<rparr>
        (snd (session_after E msg w))"
    by (rule accepted_self [OF assms(1)])
  moreover have "\<exists>out. client_at ?w b = (client_at w b)\<lparr>wrote := wrote (client_at w b) @ out\<rparr>"
    if "b < client_next w" for b
    using accepted_other [OF assms(1) that] .
  ultimately show ?thesis using accepted_conv [OF assms] by blast
qed

text \<open>
  C14: the session of an accepted client: without the clean-session flag, an identifier that the
  store knows resumes the stored session with its topics; otherwise a new session without topics
  is made and stored under the identifier, or under a generated one if the client has none, and
  every other session object stays as it was.
\<close>

theorem connect_session:
  assumes "winv w" and "accepts E msg w"
  shows "\<exists>w' s. handleConnection E CLIENT con (Got (ConnectPacket msg)) w = Ret (Reading (client_next w) w') \<and>
    session (client_at w' (client_next w)) = Some s \<and> initted (sess_at (sessionMgr w') s) \<and>
    (case resumed w msg of
       Some s' \<Rightarrow> s = s' \<and> sess_topics (sess_at (sessionMgr w') s) = sess_topics (sess_at (sessionMgr w) s) \<and>
         st (sessionMgr w') = st (sessionMgr w)
     | None \<Rightarrow> s = sess_next (sessionMgr w) \<and> sess_topics (sess_at (sessionMgr w') s) = Some [] \<and>
         gm_get (st (sessionMgr w')) = (gm_get (st (sessionMgr w)))(session_key E msg \<mapsto> s)) \<and>
    (\<forall>i. i \<noteq> s \<longrightarrow> sess_at (sessionMgr w') i = sess_at (sessionMgr w) i)"
proof -
  let ?v = "joined_client E con msg w"
  let ?w = "PublishMessage E (online_packet E (c_ClientIdentifier msg)) ?v" and ?s = "snd (session_after E msg w)"
  have m: "sessionMgr ?w = fst (session_after E msg w)" using same_but_clientsD(5) [OF PublishMessage_frame] by simp
  have st: "store_inv (sessionMgr w)" "\<forall>i < sess_next (sessionMgr w). initted (sess_at (sessionMgr w) i)"
    using winvD(1) [OF assms(1)] by (simp_all add: sinv_def store_ok_def)
  have "session (client_at ?w (client_next w)) = Some ?s"
    by (simp only: accepted_self [OF assms(1)] connected_client_ok)
  moreover have "initted (sess_at (sessionMgr ?w) ?s)" using session_after_ok(2,3) [OF st] m by simp
  moreover have "case resumed w msg of
       Some s' \<Rightarrow> ?s = s' \<and> sess_topics (sess_at (sessionMgr ?w) ?s) = sess_topics (sess_at (sessionMgr w) ?s) \<and>
         st (sessionMgr ?w) = st (sessionMgr w)
     | None \<Rightarrow> ?s = sess_next (sessionMgr w) \<and> sess_topics (sess_at (sessionMgr ?w) ?s) = Some [] \<and>
         gm_get (st (sessionMgr ?w)) = (gm_get (st (sessionMgr w)))(session_key E msg \<mapsto> ?s)"
    unfolding m
    by (auto simp: session_after_def sess_put_def sess_New_def Let_def Session_Init_def newSession_def
        fun_eq_iff split: option.split)
  moreover have "\<forall>i. i \<noteq> ?s \<longrightarrow> sess_at (sessionMgr ?w) i = sess_at (sessionMgr w) i"
    unfolding m by (auto simp: session_after_def sess_put_def sess_New_def Let_def split: option.split)
  ultimately show ?thesis using accepted_conv [OF assms] by blast
qed

text \<open>
  When the handshake ends the whole broker process: the first packet cannot be read or is no
  CONNECT, or the CONNACK cannot be written and the request was not refused by the authentication
  service.  What happens in the read loop afterwards is not part of the handshake.
\<close>

lemma handshake_exit_iff:
  "handleConnection E typ con first w = Exit cause \<longleftrightarrow>
     first = ReadFailed \<and> cause = ''read connect packet error'' \<or>
     (\<exists>q. first = Got q \<and> (\<forall>msg. q \<noteq> ConnectPacket msg) \<and> cause = ''received message that was not connect'') \<or>
     (\<exists>msg. first = Got (ConnectPacket msg) \<and>
        (validate E msg \<noteq> Accepted \<or> typ \<noteq> CLIENT \<or> checkConnect E (c_Username msg) (c_Password msg)) \<and>
        \<not> write_ok E (client_next w)
            (ConnackPacket \<lparr> ca_SessionPresent = c_CleanSession msg, ca_ReturnCode = validate E msg \<rparr>) \<and>
        cause = ''send connack error'')"
  by (cases first) (auto simp: handleConnection_def Let_def split: control_packet.splits)

lemma handshake_no_panic: "handleConnection E ty con first w \<noteq> Panic m"
  by (simp add: handleConnection_def Let_def split: read_result.split control_packet.split)

text \<open>
  A refused CONNECT leaves the state as it was, and the peer gets one CONNACK with the
  validation code, or with code 4 if the authentication service refused; the latter also when the
  CONNACK cannot be written, which is only logged.
\<close>

lemma connect_refused:
  assumes "validate E msg \<noteq> Accepted \<or> \<not> checkConnect E (c_Username msg) (c_Password msg)"
    and "code = (if validate E msg \<noteq> Accepted then validate E msg else ErrRefusedBadUsernameOrPassword)"
    and "answer = ConnackPacket \<lparr> ca_SessionPresent = c_CleanSession msg, ca_ReturnCode = code \<rparr>"
  shows "handleConnection E CLIENT con (Got (ConnectPacket msg)) w =
    (if write_ok E (client_next w) answer then Ret (Returned [answer] w)
     else if validate E msg \<noteq> Accepted then Exit ''send connack error'' else Ret (Returned [] w))"
  using assms by (auto simp: handleConnection_def Let_def)

text \<open>
  C36: when a client connects, every client that was there gets the online message for the topic
  \<open>/\<close> followed by the new client's identifier once for each of its matching subscriptions, if
  the packet can be written to it; the subscriptions of a shared group are all served.
\<close>

theorem online_notification:
  assumes "winv w" and "accepts E msg w" and "levels (''/'' @ c_ClientIdentifier msg) = Inr ls"
    and "b < client_next w"
  shows "\<exists>w'. handleConnection E CLIENT con (Got (ConnectPacket msg)) w = Ret (Reading (client_next w) w') \<and>
    wrote (client_at w' b) = wrote (client_at w b) @
      (if can_write E b (PublishPacket (online_packet E (c_ClientIdentifier msg))) (client_at w b)
       then replicate (card {s \<in> matching w ls. sub_client (sub_at w s) = b})
              (PublishPacket (online_packet E (c_ClientIdentifier msg)))
       else [])"
proof -
  let ?v = "joined_client E con msg w" and ?p = "online_packet E (c_ClientIdentifier msg)"
  have "matching ?v ls = matching w ls" by (simp add: matching_def live_def)
  moreover have "ValidQos (p_Qos ?p)" "levels (p_TopicName ?p) = Inr ls"
    using assms(3) by (simp_all add: online_packet_def ValidQos_def)
  ultimately show ?thesis
    using accepted_conv [OF assms(1,2)] PublishMessage_clients [OF winv_joined [OF assms(1)], of ?p ls _ _ _ _ _ _ b] assms(4)
    by (auto simp: notified_def)
qed

section \<open>Instances\<close>

definition demo_con :: connection where
  "demo_con = \<lparr> local_addr = ''10.0.0.1:1883'', remote_network = ''tcp'', remote_addr = ''10.0.0.2:50000'',
     ws_remote_addr = [] \<rparr>"

lemma demo_accepts: "accepts demo_env demo_connect demo_world"
  by (simp add: accepts_def demo_env_def)

theorem connect_accepted_witness:
  "\<exists>w' s. handleConnection demo_env CLIENT demo_con (Got (ConnectPacket demo_connect)) demo_world = Ret (Reading 2 w') \<and>
    winv w' \<and> client_next w' = 3 \<and>
    client_at w' 2 = connected_client demo_env CLIENT demo_con demo_connect
      \<lparr> ca_SessionPresent = True, ca_ReturnCode = 0 \<rparr> s"
  using connect_accepted [OF demo_winv demo_accepts, of demo_con] by (auto simp: demo_connect_def)

theorem connect_session_witness:
  "\<exists>w'. handleConnection demo_env CLIENT demo_con (Got (ConnectPacket demo_connect)) demo_world = Ret (Reading 2 w') \<and>
    session (client_at w' 2) = Some 2 \<and> sess_topics (sess_at (sessionMgr w') 2) = Some []"
proof -
  have "resumed demo_world demo_connect = None" by (simp add: resumed_def demo_connect_def)
  moreover have "sess_next (sessionMgr demo_world) = 2" by (simp add: demo_store_def)
  ultimately show ?thesis using connect_session [OF demo_winv demo_accepts, of demo_con] by auto
qed

theorem online_notification_witness:
  "\<exists>w' ls. handleConnection demo_env CLIENT demo_con (Got (ConnectPacket demo_connect)) demo_world =
      Ret (Reading 2 w') \<and>
    wrote (client_at w' 1) = wrote (client_at demo_world 1) @
      replicate (card {s \<in> matching demo_world ls. sub_client (sub_at demo_world s) = 1})
        (PublishPacket (online_packet demo_env ''c2''))"
proof -
  have l: "levels ''/c2'' = Inr [''+'', ''c2'']" by code_simp
  have "can_write demo_env 1 (PublishPacket (online_packet demo_env ''c2'')) (client_at demo_world 1)"
    by (simp add: can_write_def demo_client_def demo_env_def)
  then show ?thesis
    using online_notification [OF demo_winv demo_accepts, of "[''+'', ''c2'']" 1 demo_con] l
    by (auto simp: demo_connect_def)
qed

end
