(* ===== verification/Accept_Loop.thy ===== *)
theory Accept_Loop
  imports Broker_Core
begin

text \<open>
  The listener (\<open>StartClientListening\<close> of \<open>broker/broker.go\<close>): it listens on the
  configured port and then accepts connections in a loop, sleeping after temporary errors.
\<close>

section \<open>The loop\<close>

definition ACCEPT_MIN_SLEEP :: int where "ACCEPT_MIN_SLEEP = 100 * 1000000"
definition ACCEPT_MAX_SLEEP :: int where "ACCEPT_MAX_SLEEP = 10 * 1000000000"

text \<open>What \<open>Accept\<close> returns: a temporary error, another error, or a connection.\<close>

datatype accept_event = TemporaryError | OtherError | Accepted_conn connection

record accept_state =
  tmpDelay :: int
  slept :: "int list"
  accepted_conns :: "connection list"

text \<open>One turn of the loop, with the times slept and the connections handed to \<open>handleConnection\<close>.\<close>

definition accept_turn :: "accept_event \<Rightarrow> accept_state \<Rightarrow> accept_state" where
  "accept_turn ev s =
     (case ev of
        TemporaryError \<Rightarrow>
          (let s1 = s\<lparr>slept := slept s @ [tmpDelay s], tmpDelay := wrap64 (tmpDelay s * 2)\<rparr>
           in if tmpDelay s1 > ACCEPT_MAX_SLEEP then s1\<lparr>tmpDelay := ACCEPT_MAX_SLEEP\<rparr> else s1)
      | OtherError \<Rightarrow> s
      | Accepted_conn con \<Rightarrow> s\<lparr>tmpDelay := ACCEPT_MIN_SLEEP, accepted_conns := accepted_conns s @ [con]\<rparr>)"

definition accept_loop :: "accept_event list \<Rightarrow> accept_state" where
  "accept_loop evs = fold accept_turn evs
     \<lparr> tmpDelay = wrap64 (10 * ACCEPT_MIN_SLEEP), slept = [], accepted_conns = [] \<rparr>"

text \<open>\<open>StartClientListening\<close>: \<open>listen\<close> says whether listening on an address succeeds.\<close>

definition StartClientListening ::
  "(string \<Rightarrow> bool) \<Rightarrow> Configuration \<Rightarrow> accept_event list \<Rightarrow> accept_state outcome" where
  "StartClientListening listen cfg evs =
     (if \<not> listen ('':'' @ dec (Port cfg)) then Exit ''Error initializating broker'' else Ret (accept_loop evs))"

section \<open>The delay\<close>

text \<open>
  The reference: the delay after a history of events.  It starts at one second, or at a tenth of a
  second once a connection was accepted, and doubles with every temporary error since then, up to
  ten seconds.
\<close>

definition is_accept :: "accept_event \<Rightarrow> bool" where
  "is_accept ev = (case ev of Accepted_conn _ \<Rightarrow> True | _ \<Rightarrow> False)"

definition since_accept :: "accept_event list \<Rightarrow> accept_event list" where
  "since_accept evs = takeWhile (\<lambda>ev. \<not> is_accept ev) (rev evs)"

definition delay_after :: "accept_event list \<Rightarrow> int" where
  "delay_after evs =
     min (2 ^ count_list (since_accept evs) TemporaryError * (if list_ex is_accept evs then 100000000 else 1000000000))
       10000000000"

lemma delay_after_snoc [simp]:
  "delay_after [] = 1000000000"
  "delay_after (evs @ [TemporaryError]) = min (2 * delay_after evs) 10000000000"
  "delay_after (evs @ [OtherError]) = delay_after evs"
  "delay_after (evs @ [Accepted_conn con]) = 100000000"
  by (auto simp: delay_after_def since_accept_def is_accept_def)

lemma delay_after_range: "100000000 \<le> delay_after evs" "delay_after evs \<le> 10000000000"
proof -
  have one: "(1 :: int) \<le> 2 ^ count_list (since_accept evs) TemporaryError" by simp
  then have "(1 :: int) \<le> 10 * 2 ^ count_list (since_accept evs) TemporaryError" by linarith
  with one show "100000000 \<le> delay_after evs" by (simp add: delay_after_def)
qed (simp add: delay_after_def)

lemma accept_loop_snoc: "accept_loop (evs @ [ev]) = accept_turn ev (accept_loop evs)"
  by (simp add: accept_loop_def)

lemma tmpDelay_loop: "tmpDelay (accept_loop evs) = delay_after evs"
proof (induction evs rule: rev_induct)
  case Nil
  show ?case by (simp add: accept_loop_def wrap64_def ACCEPT_MIN_SLEEP_def)
next
  case (snoc ev evs)
  have "wrap64 (delay_after evs * 2) = delay_after evs * 2"
    using delay_after_range [of evs] by (simp add: wrap64_def)
  with snoc show ?case
    by (cases ev) (auto simp: accept_loop_snoc accept_turn_def Let_def ACCEPT_MIN_SLEEP_def ACCEPT_MAX_SLEEP_def)
qed

text \<open>The histories before the temporary errors of a list of events.\<close>

definition before_errors :: "accept_event list \<Rightarrow> accept_event list list" where
  "before_errors evs = map (\<lambda>i. take i evs) (filter (\<lambda>i. evs ! i = TemporaryError) [0..<length evs])"

lemma before_errors_snoc [simp]:
  "before_errors [] = []"
  "before_errors (evs @ [ev]) = before_errors evs @ (if ev = TemporaryError then [evs] else [])"
proof -
  have "map (\<lambda>i. take i (evs @ [ev])) (filter (\<lambda>i. (evs @ [ev]) ! i = TemporaryError) [0..<length evs]) =
      before_errors evs"
    unfolding before_errors_def by (auto simp: nth_append intro!: map_cong filter_cong)
  then show "before_errors (evs @ [ev]) = before_errors evs @ (if ev = TemporaryError then [evs] else [])"
    by (simp add: before_errors_def)
qed (simp add: before_errors_def)

lemma slept_loop: "slept (accept_loop evs) = map delay_after (before_errors evs)"
proof (induction evs rule: rev_induct)
  case Nil
  show ?case by (simp add: accept_loop_def)
next
  case (snoc ev evs)
  then show ?case
    by (cases ev) (simp_all add: accept_loop_snoc accept_turn_def Let_def tmpDelay_loop)
qed

lemma conns_loop: "accepted_conns (accept_loop evs) = [con. Accepted_conn con \<leftarrow> evs]"
proof (induction evs rule: rev_induct)
  case Nil
  show ?case by (simp add: accept_loop_def)
next
  case (snoc ev evs)
  then show ?case by (cases ev) (simp_all add: accept_loop_snoc accept_turn_def Let_def)
qed

section \<open>Properties\<close>

text \<open>
  C38: the accept loop, whatever \<open>Accept\<close> returns and in whatever order: the loop sleeps exactly
  at the temporary errors, each time for a delay that is a function of the history: one second at
  first, a tenth of a second after an accepted connection, doubled by every temporary error since
  then and at most ten seconds.  The delay does not overflow, and every accepted connection is
  handed on exactly once and in order.
\<close>

theorem accept_delay_bounds:
  "slept (accept_loop evs) =
     map (\<lambda>i. min (2 ^ count_list (takeWhile (\<lambda>ev. \<not> is_accept ev) (rev (take i evs))) TemporaryError *
                     (if list_ex is_accept (take i evs) then 100000000 else 1000000000)) 10000000000)
       (filter (\<lambda>i. evs ! i = TemporaryError) [0..<length evs]) \<and>
   (\<forall>d \<in> set (slept (accept_loop evs)). 100000000 \<le> d \<and> d \<le> 10000000000) \<and>
   accepted_conns (accept_loop evs) = [con. Accepted_conn con \<leftarrow> evs]"
proof -
  have "slept (accept_loop evs) =
     map (\<lambda>i. delay_after (take i evs)) (filter (\<lambda>i. evs ! i = TemporaryError) [0..<length evs])"
    by (simp add: slept_loop before_errors_def)
  moreover have "\<forall>d \<in> set (slept (accept_loop evs)). 100000000 \<le> d \<and> d \<le> 10000000000"
    using delay_after_range by (auto simp: slept_loop)
  ultimately show ?thesis by (simp add: conns_loop delay_after_def since_accept_def)
qed

theorem accept_delay_bounds_witness:
  "slept (accept_loop [TemporaryError, TemporaryError, Accepted_conn demo_con, TemporaryError, TemporaryError]) =
     [1000000000, 2000000000, 100000000, 200000000]"
proof -
  have "[0..<5] = [0, 1, 2, 3, 4 :: nat]" by (simp add: upt_rec)
  then show ?thesis
    using accept_delay_bounds [of "[TemporaryError, TemporaryError, Accepted_conn demo_con, TemporaryError, TemporaryError]",
        THEN conjunct1]
    by (simp add: is_accept_def)
qed

end
