(* ===== verification/Bridge_Producer.thy ===== *)
theory Bridge_Producer
  imports Publish_Handlers Utf8_Text Decimal_Text
begin

text \<open>
  The producer of the RabbitMQ bridge (\<open>rabbitmq/rabbitmq.go\<close>): it takes messages from the
  channel, writes each as JSON and publishes it.  The JSON texts are those of \<open>encoding/json\<close>:
  strings with the escapes of the Go version the module asks for, invalid bytes replaced by the
  escaped replacement character.  The AMQP library is a parameter: whether dialling, opening a
  channel and publishing succeed.
\<close>

section \<open>JSON strings\<close>

text \<open>\<open>utf8.DecodeRune\<close>: the length of the well-formed sequence at the head, 0 if there is none.\<close>

definition utf8_len :: "nat list \<Rightarrow> nat" where
  "utf8_len bs =
     (case bs of
        [] \<Rightarrow> 0
      | b0 # r \<Rightarrow>
          if b0 < 0x80 then 1
          else if 0xC2 \<le> b0 \<and> b0 \<le> 0xDF then (case r of b1 # _ \<Rightarrow> if cont_byte b1 then 2 else 0 | _ \<Rightarrow> 0)
          else if 0xE0 \<le> b0 \<and> b0 \<le> 0xEF then
            (case r of
               b1 # b2 # _ \<Rightarrow>
                 if (if b0 = 0xE0 then 0xA0 else 0x80) \<le> b1 \<and> b1 \<le> (if b0 = 0xED then 0x9F else 0xBF) \<and> cont_byte b2
                 then 3 else 0
             | _ \<Rightarrow> 0)
          else if 0xF0 \<le> b0 \<and> b0 \<le> 0xF4 then
            (case r of
               b1 # b2 # b3 # _ \<Rightarrow>
                 if (if b0 = 0xF0 then 0x90 else 0x80) \<le> b1 \<and> b1 \<le> (if b0 = 0xF4 then 0x8F else 0xBF) \<and>
                    cont_byte b2 \<and> cont_byte b3
                 then 4 else 0
             | _ \<Rightarrow> 0)
          else 0)"

definition hex_digit :: "nat \<Rightarrow> nat" where
  "hex_digit n = (if n < 10 then 48 + n else 87 + n)"

text \<open>
  One byte below 0x80: quote and backslash, newline, return and tab have short escapes; the other
  control characters and the three that are unsafe in HTML are written in hexadecimal.
\<close>

definition esc_ascii :: "nat \<Rightarrow> nat list" where
  "esc_ascii b =
     (if b = 34 \<or> b = 92 then [92, b]
      else if b = 10 then [92, 110]
      else if b = 13 then [92, 114]
      else if b = 9 then [92, 116]
      else if b < 32 \<or> b = 60 \<or> b = 62 \<or> b = 38 then [92, 117, 48, 48, hex_digit (b div 16), hex_digit (b mod 16)]
      else [b])"

function json_esc :: "nat list \<Rightarrow> nat list" where
  "json_esc [] = []"
| "json_esc (b # bs) =
     (if b < 0x80 then esc_ascii b @ json_esc bs
      else let n = utf8_len (b # bs)
           in if n = 0 then [92, 117, 102, 102, 102, 100] @ json_esc bs
              else if take n (b # bs) = [0xE2, 0x80, 0xA8] then [92, 117, 50, 48, 50, 56] @ json_esc (drop n (b # bs))
              else if take n (b # bs) = [0xE2, 0x80, 0xA9] then [92, 117, 50, 48, 50, 57] @ json_esc (drop n (b # bs))
              else take n (b # bs) @ json_esc (drop n (b # bs)))"
  by pat_completeness auto
termination
  by (relation "measure length") auto

definition json_text :: "string \<Rightarrow> string" where
  "json_text s = map char_of (json_esc (map of_char s))"

text \<open>\<open>json.Marshal\<close> of a queue message: its fields in order, under their own names.\<close>

definition Marshal :: "QueueMessage \<Rightarrow> string" where
  "Marshal m =
     ''{\"ClientId\":\"'' @ json_text (qm_ClientId m) @ ''\",\"Topic\":\"'' @ json_text (qm_Topic m) @
     ''\",\"Payload\":\"'' @ json_text (qm_Payload m) @ ''\",\"Timestamp\":'' @ dec (qm_Timestamp m) @ ''}''"

section \<open>The producer\<close>

record Publishing =
  exchange :: string
  routing_key :: string
  body :: string

definition consumer :: string where "consumer = ''consumer''"

text \<open>
  One turn of the producer's loop on the channel: the first message is published; a failure to
  publish it is only logged.  Without a message the turn waits.
\<close>

definition producer_turn :: "(Publishing \<Rightarrow> bool) \<Rightarrow> QueueMessage list \<times> Publishing list \<Rightarrow> QueueMessage list \<times> Publishing list" where
  "producer_turn publish_ok pst =
     (case pst of
        ([], out) \<Rightarrow> ([], out)
      | (msg # rest, out) \<Rightarrow>
          (let message = \<lparr> exchange = [], routing_key = consumer, body = Marshal msg \<rparr>
           in (rest, if publish_ok message then out @ [message] else out)))"

fun producer_loop :: "(Publishing \<Rightarrow> bool) list \<Rightarrow> QueueMessage list \<times> Publishing list \<Rightarrow> QueueMessage list \<times> Publishing list" where
  "producer_loop [] pst = pst"
| "producer_loop (ok # oks) pst = producer_loop oks (producer_turn ok pst)"

text \<open>\<open>InitProducer\<close> for as many turns as there are answers of the AMQP server.\<close>

definition InitProducer ::
  "bool \<Rightarrow> bool \<Rightarrow> (Publishing \<Rightarrow> bool) list \<Rightarrow> world \<Rightarrow> (world \<times> Publishing list) outcome" where
  "InitProducer dial_ok channel_ok oks w =
     (if \<not> dial_ok then Exit ''ERROR: fail init RabbitMQ producer''
      else if \<not> channel_ok then Exit ''failed to open a channel''
      else let (q, out) = producer_loop oks (pchan w, []) in Ret (w\<lparr>pchan := q\<rparr>, out))"

section \<open>Reading JSON strings\<close>

definition hex_val :: "nat \<Rightarrow> nat option" where
  "hex_val c = (if 48 \<le> c \<and> c \<le> 57 then Some (c - 48) else if 97 \<le> c \<and> c \<le> 102 then Some (c - 87)
     else if 65 \<le> c \<and> c \<le> 70 then Some (c - 55) else None)"

definition hex4 :: "nat \<Rightarrow> nat \<Rightarrow> nat \<Rightarrow> nat \<Rightarrow> nat option" where
  "hex4 a b c d =
     (case (hex_val a, hex_val b, hex_val c, hex_val d) of
        (Some w, Some x, Some y, Some z) \<Rightarrow> Some (((w * 16 + x) * 16 + y) * 16 + z)
      | _ \<Rightarrow> None)"

definition short_escape :: "nat \<Rightarrow> nat option" where
  "short_escape c = map_of [(34, 34), (92, 92), (47, 47), (98, 8), (102, 12), (110, 10), (114, 13), (116, 9)] c"

text \<open>
  A reader of JSON strings, from behind the opening quote to the closing one: the text and what
  follows.  It does not combine surrogates, which the writer never produces.
\<close>

fun read_string :: "nat list \<Rightarrow> (nat list \<times> nat list) option" where
  "read_string [] = None"
| "read_string (b # r) =
     (if b = 34 then Some ([], r)
      else if b = 92 then
        (case r of
           [] \<Rightarrow> None
         | c # r1 \<Rightarrow>
             if c = 117 then
               (case r1 of
                  h1 # h2 # h3 # h4 # r2 \<Rightarrow>
                    (case hex4 h1 h2 h3 h4 of
                       Some n \<Rightarrow> if scalar n then map_option (apfst ((@) (encode n))) (read_string r2) else None
                     | None \<Rightarrow> None)
                | _ \<Rightarrow> None)
             else (case short_escape c of
                     Some d \<Rightarrow> map_option (apfst ((#) d)) (read_string r1)
                   | None \<Rightarrow> None))
      else if b < 32 then None
      else map_option (apfst ((#) b)) (read_string r))"

lemma append_single [simp]: "(@) [b] = (#) b"
  by (rule ext) simp

lemma read_ascii:
  assumes "b < 0x80"
  shows "read_string (esc_ascii b @ r) = map_option (apfst ((#) b)) (read_string r)"
proof -
  have "b div 16 < 10" and "b mod 16 \<le> 15" using assms by simp_all
  then show ?thesis
    by (simp add: esc_ascii_def hex_digit_def hex4_def hex_val_def short_escape_def scalar_def encode_def)
qed

lemma read_raw:
  "\<forall>x \<in> set xs. 0x80 \<le> x \<Longrightarrow> read_string (xs @ r) = map_option (apfst ((@) xs)) (read_string r)"
proof (induction xs)
  case Nil
  show ?case by (simp add: apfst_def map_prod_def option.map_ident)
next
  case (Cons x xs)
  then show ?case by (cases "read_string r") (auto simp: apfst_def map_prod_def)
qed

lemma read_line:
  "read_string ([92, 117, 50, 48, 50, 56] @ r) = map_option (apfst ((@) [0xE2, 0x80, 0xA8])) (read_string r)"
  "read_string ([92, 117, 50, 48, 50, 57] @ r) = map_option (apfst ((@) [0xE2, 0x80, 0xA9])) (read_string r)"
  by (simp_all add: hex4_def hex_val_def scalar_def encode_def)

lemma utf8_len_valid:
  "valid_utf8 (b # bs) \<Longrightarrow> utf8_len (b # bs) \<noteq> 0 \<and> valid_utf8 (drop (utf8_len (b # bs)) (b # bs))"
  by (auto simp: utf8_len_def split: if_splits list.splits)

lemma utf8_len_high:
  "0x80 \<le> b \<Longrightarrow> x \<in> set (take (utf8_len (b # bs)) (b # bs)) \<Longrightarrow> 0x80 \<le> x"
  by (auto simp: utf8_len_def cont_byte_def split: if_splits list.splits)

text \<open>One round of the writer: what was escaped is read back, and the rest follows.\<close>

lemma json_esc_step:
  assumes "valid_utf8 (b # bs)"
  obtains c d where "b # bs = c @ d" and "c \<noteq> []" and "valid_utf8 d"
    and "\<And>r. read_string (json_esc (b # bs) @ r) = map_option (apfst ((@) c)) (read_string (json_esc d @ r))"
proof (cases "b < 0x80")
  case True
  then show ?thesis using assms by (intro that [of "[b]" bs]) (simp_all add: read_ascii)
next
  case False
  let ?n = "utf8_len (b # bs)"
  let ?c = "take ?n (b # bs)" and ?d = "drop ?n (b # bs)"
  from utf8_len_valid [OF assms] have n: "?n \<noteq> 0" and v: "valid_utf8 ?d" by blast+
  have raw: "read_string (?c @ r) = map_option (apfst ((@) ?c)) (read_string r)" for r
    using False by (intro read_raw ballI) (rule utf8_len_high, simp_all)
  have "read_string (json_esc (b # bs) @ r) = map_option (apfst ((@) ?c)) (read_string (json_esc ?d @ r))" for r
  proof -
    consider "?c = [0xE2, 0x80, 0xA8]" | "?c = [0xE2, 0x80, 0xA9]"
      | "?c \<noteq> [0xE2, 0x80, 0xA8]" "?c \<noteq> [0xE2, 0x80, 0xA9]" by blast
    then show ?thesis
    proof cases
      case 1
      then have "json_esc (b # bs) = [92, 117, 50, 48, 50, 56] @ json_esc ?d"
        using False n by (simp add: Let_def del: append.simps)
      then show ?thesis by (simp only: read_line 1 append_assoc)
    next
      case 2
      then have "json_esc (b # bs) = [92, 117, 50, 48, 50, 57] @ json_esc ?d"
        using False n by (simp add: Let_def del: append.simps)
      then show ?thesis by (simp only: read_line 2 append_assoc)
    next
      case 3
      then have "json_esc (b # bs) = ?c @ json_esc ?d" using False n by (simp add: Let_def del: append.simps)
      then show ?thesis by (simp only: raw append_assoc)
    qed
  qed
  moreover have "?c \<noteq> []" using n by simp
  ultimately show ?thesis using v by (intro that [of ?c ?d]) simp_all
qed

lemma read_esc: "valid_utf8 bs \<Longrightarrow> read_string (json_esc bs @ 34 # r) = Some (bs, r)"
proof (induction bs rule: length_induct)
  case (1 bs)
  show ?case
  proof (cases bs)
    case (Cons b bs')
    with "1.prems" have "valid_utf8 (b # bs')" by simp
    from json_esc_step [OF this] obtain c d where "bs = c @ d" "c \<noteq> []" "valid_utf8 d"
      and "read_string (json_esc bs @ 34 # r) = map_option (apfst ((@) c)) (read_string (json_esc d @ 34 # r))"
      unfolding Cons by metis
    moreover from this "1.IH" have "read_string (json_esc d @ 34 # r) = Some (d, r)" by simp
    ultimately show ?thesis by simp
  qed simp
qed

section \<open>Reading messages\<close>

definition read_lit :: "string \<Rightarrow> nat list \<Rightarrow> nat list option" where
  "read_lit lit bs = (let l = map of_char lit in if take (length l) bs = l then Some (drop (length l) bs) else None)"

text \<open>A reader of the objects that the producer writes.\<close>

definition read_field :: "string \<Rightarrow> nat list \<Rightarrow> (string \<times> nat list) option" where
  "read_field lit bs = map_option (apfst (map char_of)) (Option.bind (read_lit lit bs) read_string)"

definition read_message :: "string \<Rightarrow> QueueMessage option" where
  "read_message s =
     Option.bind (read_field ''{\"ClientId\":\"'' (map of_char s)) (\<lambda>(cid, r1).
     Option.bind (read_field '',\"Topic\":\"'' r1) (\<lambda>(topic, r2).
     Option.bind (read_field '',\"Payload\":\"'' r2) (\<lambda>(payload, r3).
     Option.bind (read_lit '',\"Timestamp\":'' r3) (\<lambda>r4.
     if r4 \<noteq> [] \<and> last r4 = 125
     then map_option (\<lambda>ts. \<lparr> qm_ClientId = cid, qm_Topic = topic, qm_Payload = payload, qm_Timestamp = ts \<rparr>)
            (Atoi (map char_of (butlast r4)))
     else None))))"

lemma read_lit_append: "read_lit lit (map of_char lit @ r) = Some r"
  by (simp add: read_lit_def Let_def)

lemma esc_ascii_byte: "b < 128 \<Longrightarrow> x \<in> set (esc_ascii b) \<Longrightarrow> x < 256"
  by (auto simp: esc_ascii_def hex_digit_def split: if_splits)

lemma json_esc_bytes: "\<forall>x \<in> set bs. x < 256 \<Longrightarrow> x \<in> set (json_esc bs) \<Longrightarrow> x < 256"
proof (induction bs arbitrary: x rule: json_esc.induct)
  case (2 b bs)
  let ?n = "utf8_len (b # bs)"
  have d: "\<forall>x \<in> set (drop ?n (b # bs)). x < 256" "\<forall>x \<in> set (take ?n (b # bs)). x < 256"
    using "2.prems"(1) by (meson in_set_dropD in_set_takeD)+
  show ?case
    using 2 d by (auto simp: Let_def dest: esc_ascii_byte split: if_splits)
qed simp

lemma of_char_json: "map of_char (json_text s) = json_esc (map of_char s)"
proof -
  have "of_char (char_of x :: char) = x" if "x \<in> set (json_esc (map of_char s))" for x :: nat
    using json_esc_bytes [of "map of_char s" x] that by simp
  then show ?thesis by (simp add: json_text_def map_idI)
qed

lemma read_field_text:
  assumes "ValidString s"
  shows "read_field lit (map of_char (lit @ json_text s) @ 34 # r) = Some (s, r)"
  using assms read_esc [of "map of_char s" r]
  by (simp add: read_field_def read_lit_append of_char_json ValidString_def comp_def)

section \<open>Properties\<close>

text \<open>
  C29: a message whose texts are valid UTF-8 survives the bridge: a JSON reader of the published
  body gets back the client id, the topic, the payload and the timestamp.
\<close>

theorem bridge_roundtrip:
  assumes "ValidString (qm_ClientId m)" and "ValidString (qm_Topic m)" and "ValidString (qm_Payload m)"
    and "- (2 ^ 63) \<le> qm_Timestamp m" and "qm_Timestamp m < 2 ^ 63"
  shows "read_message (Marshal m) = Some m"
proof -
  let ?f3 = "'',\"Timestamp\":'' @ dec (qm_Timestamp m) @ ''}''"
  let ?f2 = "'',\"Payload\":\"'' @ json_text (qm_Payload m)"
  let ?f1 = "'',\"Topic\":\"'' @ json_text (qm_Topic m)"
  let ?f0 = "''{\"ClientId\":\"'' @ json_text (qm_ClientId m)"
  define r3 :: "nat list" where "r3 = map of_char ?f3"
  define r2 where "r2 = map of_char ?f2 @ 34 # r3"
  define r1 where "r1 = map of_char ?f1 @ 34 # r2"
  have m: "map of_char (Marshal m) = map of_char ?f0 @ 34 # r1"
    by (simp add: Marshal_def r1_def r2_def r3_def)
  have 1: "read_field ''{\"ClientId\":\"'' (map of_char (Marshal m)) = Some (qm_ClientId m, r1)"
    unfolding m by (rule read_field_text [OF assms(1)])
  have 2: "read_field '',\"Topic\":\"'' r1 = Some (qm_Topic m, r2)"
    unfolding r1_def by (rule read_field_text [OF assms(2)])
  have 3: "read_field '',\"Payload\":\"'' r2 = Some (qm_Payload m, r3)"
    unfolding r2_def by (rule read_field_text [OF assms(3)])
  have 4: "read_lit '',\"Timestamp\":'' r3 = Some (map of_char (dec (qm_Timestamp m)) @ [125])"
    using read_lit_append [of "'',\"Timestamp\":''" "map of_char (dec (qm_Timestamp m)) @ [125]"] by (simp add: r3_def)
  have "map char_of (map of_char (dec (qm_Timestamp m)) :: nat list) = dec (qm_Timestamp m)" by (simp add: comp_def)
  then show ?thesis unfolding read_message_def 1 2 3 4 Option.bind.simps prod.case
    using Atoi_dec [OF assms(4,5)] by (simp add: comp_def del: map_map)
qed

theorem bridge_roundtrip_witness:
  "read_message (Marshal \<lparr> qm_ClientId = ''c1'', qm_Topic = ''a/b'', qm_Payload = [CHR 0x22, CHR 0x0A, CHR 0xC3, CHR 0xA9], qm_Timestamp = -5 \<rparr>) =
     Some \<lparr> qm_ClientId = ''c1'', qm_Topic = ''a/b'', qm_Payload = [CHR 0x22, CHR 0x0A, CHR 0xC3, CHR 0xA9], qm_Timestamp = -5 \<rparr>"
  by (rule bridge_roundtrip) (simp_all add: ValidString_def cont_byte_def)

text \<open>
  A payload that is not valid UTF-8 does not survive the bridge: every invalid byte is written
  as the replacement character, so that different payloads give the same body.
\<close>

lemma bridge_loses_bytes:
  "Marshal (m\<lparr>qm_Payload := [CHR 0xFF]\<rparr>) = Marshal (m\<lparr>qm_Payload := [CHR 0xFE]\<rparr>)"
  by (simp add: Marshal_def json_text_def utf8_len_def)

definition message_for :: "QueueMessage \<Rightarrow> Publishing" where
  "message_for m = \<lparr> exchange = [], routing_key = consumer, body = Marshal m \<rparr>"

lemma producer_loop_conv:
  "producer_loop oks (q, out) =
     (drop (length oks) q, out @ map message_for (map snd (filter (\<lambda>(ok, m). ok (message_for m)) (zip oks q))))"
proof (induction oks arbitrary: q out)
  case (Cons ok oks)
  then show ?case by (cases q) (simp_all add: producer_turn_def message_for_def)
qed simp

text \<open>
  C30: the producer takes the messages in the order in which they were sent, one per turn, and
  publishes each at most once, to the queue \<open>consumer\<close> of the default exchange; a message whose
  publication fails is dropped.
\<close>

theorem producer_in_order:
  "InitProducer True True oks w =
     Ret (w\<lparr>pchan := drop (length oks) (pchan w)\<rparr>,
       map message_for (map snd (filter (\<lambda>(ok, m). ok (message_for m)) (zip oks (pchan w)))))"
  by (simp add: InitProducer_def producer_loop_conv)

end
