(* ===== verification/Broker_Process.thy ===== *)
theory Broker_Process
  imports Handler_Frames Worker_Pool Machine_Runs Accept_Loop Bridge_Producer
begin

text \<open>
  The broker process: its construction (\<open>main\<close>, \<open>NewBroker\<close>, \<open>Start\<close>), the
  read loops of the connections (\<open>readLoop\<close>), the submission of work to the pool
  (\<open>SubmitWork\<close>), and the steps in which the listener, connections, readers, workers, timers and
  the producer of the bridge interleave.
\<close>

section \<open>The state\<close>

text \<open>
  The read loop of a client: at the top of its loop, waiting in \<open>ReadPacket\<close>, ended, or
  waiting for ever on a channel nobody receives from.  The goroutines of the listener and of the
  producer: not started, started, or in their loops.
\<close>

datatype reader_state = NoReader | AtTop | InRead | Ended | Stuck

datatype goroutine = NotRunning | Starting | Serving

text \<open>
  Beside the broker's objects: the accept loop, the connections whose handshake has not been
  completed, and what the producer has published.
\<close>

record system =
  sworld :: world
  wpool :: "Message WorkerPool option"
  reader :: "addr \<Rightarrow> reader_state"
  listener :: goroutine
  accepting :: accept_state
  handshakes :: "connection list"
  producer :: goroutine
  published :: "Publishing list"

section \<open>Construction\<close>

definition MessagePoolNum :: nat where "MessagePoolNum = 1024"
definition MessagePoolMessageNum :: nat where "MessagePoolMessageNum = 1024"

text \<open>A buffered channel is its capacity and its content.\<close>

definition newMessagePool :: "(nat \<times> Message list) list" where
  "newMessagePool = fold (\<lambda>_ pool. pool @ [(MessagePoolMessageNum, [])]) [0..<MessagePoolNum] []"

text \<open>
  \<open>NewBroker\<close>, with the generated id, the registered providers and the result of
  \<open>NewAuth\<close>.  Addresses that are not in use hold an arbitrary object.
\<close>

definition empty_world :: "string \<Rightarrow> Configuration \<Rightarrow> memTopics \<Rightarrow> session_store \<Rightarrow> world" where
  "empty_world uid cfg tm sm =
     \<lparr> broker_id = uid, config = cfg, clients = [], routes = [], remotes = [], nodes = [], clusterPool = [],
       sessionMgr = sm, topicsMgr = tm,
       client_at = (\<lambda>_. new_client CLIENT \<lparr> clientId = [], username = [], password = [], keepalive = 0,
                           willMsg = None, localIP = [], remoteIP = [] \<rparr> []),
       client_next = 0,
       sub_at = (\<lambda>_. \<lparr> sub_client = 0, sub_topic = [], sub_qos = 0, share = False, groupName = [] \<rparr>),
       sub_next = 0, timers = [], pchan = [] \<rparr>"

definition NewBroker ::
  "string \<Rightarrow> Configuration \<Rightarrow> (string, memTopics) gomap \<Rightarrow> (string, session_store) gomap \<Rightarrow>
   string + (string \<Rightarrow> string \<Rightarrow> bool) \<Rightarrow> string + system" where
  "NewBroker uid cfg tproviders sproviders auth =
     (case topics_NewManager ''mem'' tproviders of
        Inl e \<Rightarrow> Inl e
      | Inr tm \<Rightarrow>
          (case sessions_NewManager ''mem'' sproviders of
             Inl e \<Rightarrow> Inl e
           | Inr sm \<Rightarrow>
               (case auth of
                  Inl e \<Rightarrow> Inl e
                | Inr _ \<Rightarrow> Inr \<lparr> sworld = empty_world uid cfg tm sm, wpool = Some (New (Worker cfg)),
                                 reader = (\<lambda>_. NoReader), listener = NotRunning, accepting = accept_loop [],
                                 handshakes = [], producer = NotRunning, published = [] \<rparr>)))"

definition Broker_Stop :: "system \<Rightarrow> system outcome" where
  "Broker_Stop s =
     (case wpool s of None \<Rightarrow> Panic ''nil pointer'' | Some p \<Rightarrow> Ret (s\<lparr>wpool := Some (Stop p)\<rparr>))"

text \<open>\<open>Start\<close> starts the listener.\<close>

definition Start :: "system option \<Rightarrow> system outcome" where
  "Start b = (case b of None \<Rightarrow> Exit ''No Broker'' | Some s \<Rightarrow> Ret (s\<lparr>listener := Starting\<rparr>))"

text \<open>
  \<open>main\<close> up to the wait for a signal: the configuration, the broker, and the goroutines of the
  producer and the listener; and the deferred stop when the signal has come.
\<close>

definition main_start ::
  "environment \<Rightarrow> string \<Rightarrow> (string, memTopics) gomap \<Rightarrow> (string, session_store) gomap \<Rightarrow> grpc \<Rightarrow> system outcome" where
  "main_start env uid tps sps G =
     and_then (GetConfig env None)
       (\<lambda>(_, cfg).
          case NewBroker uid cfg tps sps (NewAuth G cfg) of
            Inl _ \<Rightarrow> Exit ''New broker error''
          | Inr b \<Rightarrow> Start (Some (if BridgeEnabled cfg then b\<lparr>producer := Starting\<rparr> else b)))"

definition main_end :: "system \<Rightarrow> system outcome" where
  "main_end b = Broker_Stop b"

section \<open>Submitting work\<close>

text \<open>
  \<open>SubmitWork\<close> offers the message on a channel; the caller goes on when it has been received.
  \<open>None\<close> is a call that waits for ever on a nil channel.
\<close>

definition SubmitWork :: "(string \<Rightarrow> u64) \<Rightarrow> string \<Rightarrow> Message \<Rightarrow> system \<Rightarrow> system outcome option" where
  "SubmitWork hash cid msg s =
     (let p = (case wpool s of None \<Rightarrow> New (Worker (config (sworld s))) | Some p \<Rightarrow> p);
          s1 = s\<lparr>wpool := Some p\<rparr>
      in if ctyp (client_at (sworld s) (msg_client msg)) = CLUSTER
         then Some (Ret (s1\<lparr>sworld := (sworld s1)\<lparr>clusterPool := clusterPool (sworld s1) @ [msg]\<rparr>\<rparr>))
         else (case Submit hash p cid (Some msg) of
                 Sent p' \<Rightarrow> Some (Ret (s1\<lparr>wpool := Some p'\<rparr>))
               | BlocksForever \<Rightarrow> None
               | SubmitPanic m \<Rightarrow> Some (Panic m)))"

section \<open>The read loop\<close>

definition keep_alive :: "info \<Rightarrow> int" where
  "keep_alive i = wrap64 (1000000000 * uint (keepalive i))"

definition time_out :: "info \<Rightarrow> int" where
  "time_out i = wrap64 (keep_alive i + half64 (keep_alive i))"

definition set_reader :: "addr \<Rightarrow> reader_state \<Rightarrow> system \<Rightarrow> system" where
  "set_reader a r s = s\<lparr>reader := (reader s)(a := r)\<rparr>"

text \<open>The start of the loop, its top up to the call of \<open>ReadPacket\<close>, and what follows the call.\<close>

definition read_start :: "addr \<Rightarrow> system \<Rightarrow> system" where
  "read_start a s =
     (let c = client_at (sworld s) a
      in set_reader a (if \<not> conn c \<or> \<not> broker c then Ended else AtTop) s)"

text \<open>
  Setting a deadline fails on a connection that the broker has closed, and may fail for reasons of
  the network (\<open>ok = False\<close>).
\<close>

definition read_top :: "addr \<Rightarrow> bool \<Rightarrow> system \<Rightarrow> system outcome" where
  "read_top a ok s =
     (let c = client_at (sworld s) a
      in if ctxDone c then Ret (set_reader a Ended s)
         else if keep_alive (info c) > 0 \<and> \<not> (ok \<and> \<not> conn_closed c) then Panic ''set read timeout error''
         else Ret (set_reader a InRead s))"

definition send_on :: "(string \<Rightarrow> u64) \<Rightarrow> addr \<Rightarrow> control_packet option \<Rightarrow> reader_state \<Rightarrow> system \<Rightarrow> system outcome" where
  "send_on hash a packet r s =
     (case SubmitWork hash (clientId (info (client_at (sworld s) a))) \<lparr> msg_client = a, msg_packet = packet \<rparr> s of
        None \<Rightarrow> Ret (set_reader a Stuck s)
      | Some res \<Rightarrow> and_then res (\<lambda>s'. Ret (set_reader a r s')))"

text \<open>
  A read fails on a connection that the broker has closed and when the deadline passes before the
  packet is there (\<open>elapsed\<close> nanoseconds after the deadline was set).
\<close>

definition read_packet :: "(string \<Rightarrow> u64) \<Rightarrow> addr \<Rightarrow> int \<Rightarrow> read_result \<Rightarrow> system \<Rightarrow> system outcome" where
  "read_packet hash a elapsed r s =
     (let c = client_at (sworld s) a;
          r' = (if conn_closed c \<or> (keep_alive (info c) > 0 \<and> elapsed \<ge> time_out (info c)) then ReadFailed else r)
      in case r' of
           ReadFailed \<Rightarrow> send_on hash a (Some DisconnectPacket) Ended s
         | NilPacket \<Rightarrow> send_on hash a None AtTop s
         | Got packet \<Rightarrow>
             (let s1 = (if packet = DisconnectPacket
                        then s\<lparr>sworld := upd_client a (\<lambda>c. c\<lparr>info := (info c)\<lparr>willMsg := None\<rparr>, ctxDone := True\<rparr>) (sworld s)\<rparr>
                        else s)
              in send_on hash a (Some packet) AtTop s1))"

lemma keep_alive_range: "0 \<le> uint (keepalive i)" "uint (keepalive i) < 65536"
  using uint_lt2p [of "keepalive i"] by simp_all

lemma keep_alive_conv: "keep_alive i = 1000000000 * uint (keepalive i)"
  using keep_alive_range [of i] by (simp add: keep_alive_def wrap64_def)

lemma time_out_conv: "time_out i = 1500000000 * uint (keepalive i)"
  using keep_alive_range [of i] by (simp add: time_out_def keep_alive_conv half64_def wrap64_def)

lemma keep_alive_pos: "keep_alive i > 0 \<longleftrightarrow> keepalive i \<noteq> 0"
  using keep_alive_range(1) [of i] by (auto simp: keep_alive_conv uint_0_iff order.strict_iff_order)

section \<open>Steps\<close>

text \<open>
  The listener: it listens, then accepts.  Each accepted connection is given to a goroutine of its
  own, whose handshake is a step of its own; after it the connection enters the read loop.
\<close>

definition listen_step :: "(string \<Rightarrow> bool) \<Rightarrow> system \<Rightarrow> system outcome" where
  "listen_step listen s =
     and_then (StartClientListening listen (config (sworld s)) [])
       (\<lambda>acc. Ret (s\<lparr>listener := Serving, accepting := acc\<rparr>))"

definition accept_step :: "accept_event \<Rightarrow> system \<Rightarrow> system" where
  "accept_step ev s =
     s\<lparr>accepting := accept_turn ev (accepting s),
       handshakes := handshakes s @ (case ev of Accepted_conn con \<Rightarrow> [con] | _ \<Rightarrow> [])\<rparr>"

definition connect_step :: "env \<Rightarrow> nat \<Rightarrow> read_result \<Rightarrow> system \<Rightarrow> system outcome" where
  "connect_step E k first s =
     (let s1 = s\<lparr>handshakes := take k (handshakes s) @ drop (Suc k) (handshakes s)\<rparr>
      in and_then (handleConnection E CLIENT (handshakes s ! k) first (sworld s))
           (\<lambda>h. case h of
                  Returned out w \<Rightarrow> Ret (s1\<lparr>sworld := w\<rparr>)
                | Reading a w \<Rightarrow> Ret (read_start a (s1\<lparr>sworld := w\<rparr>))))"

text \<open>The producer of the bridge: it connects, then publishes one message at a time.\<close>

definition dial_step :: "bool \<Rightarrow> bool \<Rightarrow> system \<Rightarrow> system outcome" where
  "dial_step dial_ok channel_ok s =
     and_then (InitProducer dial_ok channel_ok [] (sworld s)) (\<lambda>(w, _). Ret (s\<lparr>sworld := w, producer := Serving\<rparr>))"

definition produce_step :: "(Publishing \<Rightarrow> bool) \<Rightarrow> system \<Rightarrow> system" where
  "produce_step publish_ok s =
     (let (q, out) = producer_turn publish_ok (pchan (sworld s), published s)
      in s\<lparr>sworld := (sworld s)\<lparr>pchan := q\<rparr>, published := out\<rparr>)"

text \<open>A turn of a worker, and a timer that fires.\<close>

definition work :: "env \<Rightarrow> nat \<Rightarrow> system \<Rightarrow> system outcome" where
  "work E i s =
     (case wpool s of
        None \<Rightarrow> Ret s
      | Some p \<Rightarrow>
          (case worker_turn i p of
             (p', None) \<Rightarrow> Ret s
           | (p', Some msg) \<Rightarrow>
               and_then (ProcessMessage E msg (sworld s)) (\<lambda>w. Ret (s\<lparr>sworld := w, wpool := Some p'\<rparr>))))"

definition run_timer :: "env \<Rightarrow> timer_task \<Rightarrow> world \<Rightarrow> world" where
  "run_timer E t w = (case t of ExpireAwaitingRel a \<Rightarrow> expireAwaitingRel E a w | RetryDelivery a \<Rightarrow> retryDelivery E a w)"

definition fire :: "env \<Rightarrow> nat \<Rightarrow> system \<Rightarrow> system" where
  "fire E k s =
     (let w = sworld s
      in s\<lparr>sworld := run_timer E (snd (timers w ! k)) (w\<lparr>timers := take k (timers w) @ drop (Suc k) (timers w)\<rparr>)\<rparr>)"

text \<open>The messages that readers offer on the channels, and those of one client.\<close>

definition tasks :: "'a WorkerPool \<Rightarrow> 'a list" where
  "tasks p = concat (map (\<lambda>q. case q of None \<Rightarrow> [] | Some l \<Rightarrow> l) (taskQueue p))"

definition offered :: "system \<Rightarrow> Message list" where
  "offered s = clusterPool (sworld s) @ (case wpool s of None \<Rightarrow> [] | Some p \<Rightarrow> tasks p)"

definition backlog :: "system \<Rightarrow> addr \<Rightarrow> nat" where
  "backlog s a = length (filter (\<lambda>m. msg_client m = a) (offered s))"

datatype bstate = Up system | Down string

fun settle :: "system outcome \<Rightarrow> bstate" where
  "settle (Ret s) = Up s"
| "settle (Panic m) = Down m"
| "settle (Exit m) = Down m"

datatype label =
    LListen "string \<Rightarrow> bool"
  | LAccept accept_event
  | LConnect env nat read_result
  | LTop addr bool
  | LRead addr int read_result
  | LWork nat env
  | LTimer nat env
  | LDial bool bool
  | LProduce "Publishing \<Rightarrow> bool"
  | LStop
  | LDone nat

text \<open>
  The steps.  A reader that has offered a message goes on when it was received; packets come from
  the parser; a panic or a fatal error in any goroutine ends the process.
\<close>

inductive sys_step :: "(string \<Rightarrow> u64) \<Rightarrow> bstate \<Rightarrow> label \<Rightarrow> bstate \<Rightarrow> bool" for hash where
  Listen: "listener s = Starting \<Longrightarrow> sys_step hash (Up s) (LListen listen) (settle (listen_step listen s))"
| Accept: "listener s = Serving \<Longrightarrow> sys_step hash (Up s) (LAccept ev) (Up (accept_step ev s))"
| Connect: "k < length (handshakes s) \<Longrightarrow>
    sys_step hash (Up s) (LConnect E k first) (settle (connect_step E k first s))"
| Top: "\<lbrakk> reader s a = AtTop; backlog s a = 0 \<rbrakk> \<Longrightarrow>
    sys_step hash (Up s) (LTop a ok) (settle (read_top a ok s))"
| Read: "\<lbrakk> reader s a = InRead; \<And>p. r = Got p \<Longrightarrow> parsed p \<rbrakk> \<Longrightarrow>
    sys_step hash (Up s) (LRead a elapsed r) (settle (read_packet hash a elapsed r s))"
| Work: "sys_step hash (Up s) (LWork i E) (settle (work E i s))"
| Timer: "\<lbrakk> k < length (timers (sworld s)); fst (timers (sworld s) ! k) \<le> now E \<rbrakk> \<Longrightarrow>
    sys_step hash (Up s) (LTimer k E) (Up (fire E k s))"
| Dial: "producer s = Starting \<Longrightarrow>
    sys_step hash (Up s) (LDial dial_ok channel_ok) (settle (dial_step dial_ok channel_ok s))"
| Produce: "producer s = Serving \<Longrightarrow> sys_step hash (Up s) (LProduce publish_ok) (Up (produce_step publish_ok s))"
| Stop: "sys_step hash (Up s) LStop (settle (main_end s))"
| Done: "wpool s = Some p \<Longrightarrow> sys_step hash (Up s) (LDone i) (Up (s\<lparr>wpool := Some (worker_done i p)\<rparr>))"

text \<open>The start of the process: \<open>main\<close>, with the providers registered.\<close>

definition broker_start :: "bstate \<Rightarrow> bool" where
  "broker_start b \<longleftrightarrow> (\<exists>env uid G tps sps. topics_init = Ret tps \<and> sessions_init = Ret sps \<and>
     b = settle (main_start env uid tps sps G))"

section \<open>The steps as a function\<close>

text \<open>
  The step relation is deterministic given its label: the outcome of a label, or nothing when the
  label is not enabled.  Runs can be evaluated with it.
\<close>

fun exec :: "(string \<Rightarrow> u64) \<Rightarrow> label \<Rightarrow> system \<Rightarrow> system outcome option" where
  "exec hash (LListen listen) s = (if listener s = Starting then Some (listen_step listen s) else None)"
| "exec hash (LAccept ev) s = (if listener s = Serving then Some (Ret (accept_step ev s)) else None)"
| "exec hash (LConnect E k first) s = (if k < length (handshakes s) then Some (connect_step E k first s) else None)"
| "exec hash (LTop a ok) s = (if reader s a = AtTop \<and> backlog s a = 0 then Some (read_top a ok s) else None)"
| "exec hash (LRead a elapsed r) s =
     (if reader s a = InRead \<and> (case r of Got p \<Rightarrow> parsed p | _ \<Rightarrow> True)
      then Some (read_packet hash a elapsed r s) else None)"
| "exec hash (LWork i E) s = Some (work E i s)"
| "exec hash (LTimer k E) s =
     (if k < length (timers (sworld s)) \<and> fst (timers (sworld s) ! k) \<le> now E then Some (Ret (fire E k s)) else None)"
| "exec hash (LDial dial_ok channel_ok) s =
     (if producer s = Starting then Some (dial_step dial_ok channel_ok s) else None)"
| "exec hash (LProduce publish_ok) s = (if producer s = Serving then Some (Ret (produce_step publish_ok s)) else None)"
| "exec hash LStop s = Some (main_end s)"
| "exec hash (LDone i) s = map_option (\<lambda>p. Ret (s\<lparr>wpool := Some (worker_done i p)\<rparr>)) (wpool s)"

fun exec_run :: "(string \<Rightarrow> u64) \<Rightarrow> label list \<Rightarrow> system \<Rightarrow> system outcome option" where
  "exec_run hash [] s = Some (Ret s)"
| "exec_run hash (l # ls) s =
     (case exec hash l s of
        None \<Rightarrow> None
      | Some (Ret s') \<Rightarrow> exec_run hash ls s'
      | Some r \<Rightarrow> if ls = [] then Some r else None)"

lemma exec_step: "exec hash l s = Some r \<Longrightarrow> sys_step hash (Up s) l (settle r)"
  using Timer [of _ s _ hash]
  by (cases l) (auto split: if_splits read_result.splits intro: sys_step.intros)

lemma step_exec:
  assumes "sys_step hash (Up s) l b"
  shows "\<exists>r. exec hash l s = Some r \<and> b = settle r"
  using assms by cases (auto split: read_result.split)

lemma exec_run_sound:
  "exec_run hash ls s = Some r \<Longrightarrow> run (sys_step hash) (Up s) ls (settle r)"
proof (induction ls arbitrary: s)
  case Nil
  then show ?case by (auto intro: run_start)
next
  case (Cons l ls)
  then obtain q where q: "exec hash l s = Some q" by (auto split: option.splits)
  then have step: "run (sys_step hash) (Up s) [l] (settle q)" by (intro run_single exec_step)
  show ?case
  proof (cases q)
    case (Ret s')
    with Cons q have "run (sys_step hash) (Up s') ls (settle r)" by simp
    from run_append [OF this, of "Up s" "[l]"] step Ret show ?thesis by simp
  qed (use Cons.prems q step in \<open>auto split: if_splits\<close>)
qed

end
