(* ===== verification/Broker_System.thy ===== *)
theory Broker_System
  imports Broker_Process
begin

text \<open>
  The running broker process: the invariant of the steps of \<open>Broker_Process\<close>, kept by every
  interleaving of the listener, connections, readers, workers, timers and the producer, and what
  follows for reachable states.
\<close>

section \<open>Channels\<close>

lemma mset_concat_update:
  assumes "i < length xs"
  shows "mset (concat (map f (xs[i := y]))) + mset (f (xs ! i)) = mset (concat (map f xs)) + mset (f y)"
proof -
  have "xs = take i xs @ xs ! i # drop (Suc i) xs" using assms by (rule id_take_nth_drop)
  then have "concat (map f xs) = concat (map f (take i xs)) @ f (xs ! i) @ concat (map f (drop (Suc i) xs))"
    by (metis concat.simps(2) concat_append list.simps(9) map_append)
  moreover have "concat (map f (xs[i := y])) = concat (map f (take i xs)) @ f y @ concat (map f (drop (Suc i) xs))"
    using assms by (simp add: upd_conv_take_nth_drop)
  ultimately show ?thesis by simp
qed

lemma tasks_sent:
  assumes "pool_ok p"
  obtains p' where "Submit hash p uid (Some t) = Sent p'" and "pool_ok p'" and "maxWorkers p' = maxWorkers p"
    and "mset (tasks p') = add_mset t (mset (tasks p))"
proof -
  let ?i = "worker_index hash p uid" and ?f = "\<lambda>q. case q of None \<Rightarrow> [] | Some l \<Rightarrow> l"
  from Submit_ok [OF assms, of hash uid t] obtain q where q: "taskQueue p ! ?i = Some q"
    and sent: "Submit hash p uid (Some t) = Sent (p\<lparr>taskQueue := (taskQueue p)[?i := Some (q @ [t])]\<rparr>)" by blast
  have "mset (concat (map ?f ((taskQueue p)[?i := Some (q @ [t])]))) + mset q = mset (tasks p) + mset (q @ [t])"
    using mset_concat_update [OF worker_index_bound [OF assms], where f = ?f and hash1 = hash and uid1 = uid] q
    by (simp add: tasks_def)
  then have "mset (tasks (p\<lparr>taskQueue := (taskQueue p)[?i := Some (q @ [t])]\<rparr>)) = add_mset t (mset (tasks p))"
    by (simp add: tasks_def)
  with sent pool_ok_update [OF assms] show ?thesis by (intro that) simp_all
qed

lemma tasks_taken:
  assumes "worker_turn i p = (p', Some t)"
  shows "mset (tasks p) = add_mset t (mset (tasks p'))" and "pool_ok p \<Longrightarrow> pool_ok p'"
proof -
  let ?f = "\<lambda>q. case q of None \<Rightarrow> [] | Some l \<Rightarrow> l"
  from assms obtain q where i: "i < length (taskQueue p)" and q: "taskQueue p ! i = Some (t # q)"
    and p': "p' = p\<lparr>taskQueue := (taskQueue p)[i := Some q]\<rparr>" by (rule worker_turnE)
  have "mset (tasks p') + mset (t # q) = mset (tasks p) + mset q"
    using mset_concat_update [OF i, where f = ?f and y = "Some q"] q by (simp add: tasks_def p')
  then show "mset (tasks p) = add_mset t (mset (tasks p'))" by simp
  show "pool_ok p \<Longrightarrow> pool_ok p'" by (simp add: p' pool_ok_update)
qed

lemma backlog_mset: "backlog s a = size (filter_mset (\<lambda>m. msg_client m = a) (mset (offered s)))"
  by (simp add: backlog_def flip: mset_filter)

section \<open>Timers\<close>

lemma retry_element_pending:
  "b \<noteq> a \<Longrightarrow> retry_pending (retry_element E a ie w) b = retry_pending w b"
proof -
  assume b: "b \<noteq> a"
  obtain m e where "ie = (m, e)" by (cases ie)
  moreover have "retry_pending (store_inflight a m e' (fst (WritePacket E a p w))) b = retry_pending w b" for e' p
    by (simp add: retry_pending_def store_inflight_def write_frame)
  ultimately show ?thesis using b by (simp add: retry_element_conv ensureRetryTimer_pending)
qed

lemma retryDelivery_pending:
  assumes "b \<noteq> a"
  shows "retry_pending (retryDelivery E a w) b = retry_pending w b"
proof -
  have f: "retry_pending (fold (retry_element E a) ies v) b = retry_pending v b" for ies v
    using assms by (induction ies arbitrary: v) (simp_all add: retry_element_pending)
  have "retry_pending (resetRetryTimer a w) b = retry_pending w b"
    by (simp add: resetRetryTimer_def retry_pending_def)
  with f assms show ?thesis by (simp add: retryDelivery_def Let_def ensureRetryTimer_pending)
qed

definition without_timer :: "nat \<Rightarrow> world \<Rightarrow> world" where
  "without_timer k w = w\<lparr>timers := take k (timers w) @ drop (Suc k) (timers w)\<rparr>"

lemma without_timer_pending:
  assumes "k < length (timers w)"
  shows "retry_pending w b = retry_pending (without_timer k w) b + (if snd (timers w ! k) = RetryDelivery b then 1 else 0)"
proof -
  have "timers w = take k (timers w) @ timers w ! k # drop (Suc k) (timers w)" using assms by (rule id_take_nth_drop)
  then have "retry_pending w b = length (filter (\<lambda>e. snd e = RetryDelivery b)
      (take k (timers w) @ timers w ! k # drop (Suc k) (timers w)))"
    unfolding retry_pending_def by (rule arg_cong)
  then show ?thesis by (simp add: retry_pending_def without_timer_def)
qed

lemma same_struct_without [simp]: "same_struct w (without_timer k w)"
  by (simp add: same_struct_def without_timer_def)

lemma timer_winv:
  assumes "winv w" and "k < length (timers w)"
  shows "winv (run_timer E (snd (timers w ! k)) (without_timer k w))"
proof -
  let ?w = "without_timer k w"
  have c: "client_at ?w = client_at w" "client_next ?w = client_next w" by (simp_all add: without_timer_def)
  note pend = without_timer_pending [OF assms(2)]
  have s: "sinv ?w" using sinv_cong [OF same_struct_without] winvD(1) [OF assms(1)] by blast
  have fr: "fresh ?w" using winvD(5) [OF assms(1)] pend by (auto simp: fresh_def c)
  have ci: "cinv ?w b" if "snd (timers w ! k) \<noteq> RetryDelivery b" "b < client_next w" for b
    using winvD(2) [OF assms(1) that(2)] pend [of b] that(1) by (simp add: cinv_def started_def c)
  show ?thesis
  proof (cases "snd (timers w ! k)")
    case (ExpireAwaitingRel a)
    then have "winv ?w" using s fr ci by (intro winvI) (simp_all add: c)
    from keeps_winv [OF keeps_expire this] ExpireAwaitingRel show ?thesis by (simp add: run_timer_def)
  next
    case (RetryDelivery a)
    have "retry_pending w a \<noteq> 0" using pend [of a] RetryDelivery by simp
    then have a: "a < client_next w" using winvD(5) [OF assms(1)] unfolding fresh_def by (meson not_less)
    have fired: "cinv_fired ?w a"
      using winvD(2) [OF assms(1) a] pend [of a] RetryDelivery
      by (auto simp: cinv_fired_def cinv_def started_def c split: if_splits)
    let ?v = "retryDelivery E a ?w"
    have next_v: "client_next ?v = client_next w"
      using same_struct_retryDelivery [of ?w E a] by (simp add: same_struct_def c)
    have "sinv ?v" using sinv_cong [OF same_struct_retryDelivery] s by blast
    moreover have "fresh ?v" using fr a by (auto simp: fresh_def next_v c retryDelivery_pending)
    moreover have "cinv ?v b" if "b < client_next ?v" for b
      using retryDelivery_cinv [OF fired] retryDelivery_other [of b a ?w E] ci [of b] RetryDelivery that next_v
      by (cases "b = a") simp_all
    ultimately show ?thesis using RetryDelivery by (simp add: run_timer_def winvI)
  qed
qed

section \<open>The invariant of the running broker\<close>

text \<open>
  The broker's state is well-formed; the pool has its channels; every offered message is a parsed
  packet of a known client, at most one per client and none of a client whose reader waits for the
  network; all clients are end users, and nothing is in the tables of routers and clusters.
\<close>

definition msg_ok :: "world \<Rightarrow> Message \<Rightarrow> bool" where
  "msg_ok w m \<longleftrightarrow> msg_client m < client_next w \<and> (\<forall>ca. msg_packet m = Some ca \<longrightarrow> parsed ca)"

definition roster_ok :: "world \<Rightarrow> bool" where
  "roster_ok w \<longleftrightarrow> routes w = [] \<and> clusterPool w = [] \<and> (\<forall>a < client_next w. ctyp (client_at w a) = CLIENT)"

definition flow_ok :: "system \<Rightarrow> bool" where
  "flow_ok s \<longleftrightarrow> (\<forall>m \<in> set (offered s). msg_ok (sworld s) m) \<and>
     (\<forall>a. reader s a \<noteq> NoReader \<longrightarrow> a < client_next (sworld s)) \<and>
     (\<forall>a. backlog s a \<le> 1 \<and> (reader s a = InRead \<longrightarrow> backlog s a = 0))"

fun sys_inv :: "bstate \<Rightarrow> bool" where
  "sys_inv (Up s) = (winv (sworld s) \<and> roster_ok (sworld s) \<and> flow_ok s \<and> (\<exists>p. wpool s = Some p \<and> pool_ok p))"
| "sys_inv (Down m) = True"

lemma roster_ok_frame: "roster_frame w w' \<Longrightarrow> roster_ok w \<Longrightarrow> roster_ok w'"
  by (simp add: roster_frame_def roster_ok_def)

lemma offered_pool:
  "roster_ok (sworld s) \<Longrightarrow> wpool s = Some p \<Longrightarrow> offered s = tasks p"
  by (simp add: offered_def roster_ok_def)

text \<open>A step that leaves channels and readers alone and only adds clients.\<close>

lemma flow_ok_world:
  assumes "flow_ok s" and "client_next (sworld s) \<le> client_next w" and "clusterPool w = clusterPool (sworld s)"
  shows "flow_ok (s\<lparr>sworld := w\<rparr>)"
proof -
  have "offered (s\<lparr>sworld := w\<rparr>) = offered s" using assms(3) by (simp add: offered_def cong: option.case_cong)
  with assms(1,2) show ?thesis by (fastforce simp: flow_ok_def backlog_def msg_ok_def)
qed

lemma flow_ok_reader:
  assumes "flow_ok s" and "a < client_next (sworld s)" and "r = InRead \<Longrightarrow> backlog s a = 0"
  shows "flow_ok (set_reader a r s)"
proof -
  have "offered (set_reader a r s) = offered s" by (simp add: offered_def set_reader_def cong: option.case_cong)
  with assms show ?thesis by (auto simp: flow_ok_def backlog_def set_reader_def)
qed

section \<open>Every step keeps the invariant\<close>

lemma main_start_conv:
  assumes "topics_init = Ret tps" and "sessions_init = Ret sps"
  shows "main_start env uid tps sps G = Ret
    \<lparr> sworld = empty_world uid (configured env) NewMemProvider NewSessProvider,
      wpool = Some (New (Worker (configured env))), reader = (\<lambda>_. NoReader), listener = Starting,
      accepting = accept_loop [], handshakes = [],
      producer = (if BridgeEnabled (configured env) then Starting else NotRunning), published = [] \<rparr>"
proof -
  have "tps = [(''mem'', NewMemProvider)]" "sps = [(''mem'', NewSessProvider)]"
    using assms by (simp_all add: topics_init_def topics_Register_def sessions_init_def sessions_Register_def)
  then show ?thesis
    by (simp add: main_start_def GetConfig_def Setup_conv Start_def NewBroker_def topics_NewManager_def
        sessions_NewManager_def NewAuth_def)
qed

lemma start_inv:
  assumes "broker_start b"
  shows "sys_inv b"
proof -
  from assms obtain env uid G tps sps where i: "topics_init = Ret tps" "sessions_init = Ret sps"
    and b: "b = settle (main_start env uid tps sps G)"
    by (auto simp: broker_start_def)
  let ?w = "empty_world uid (configured env) NewMemProvider NewSessProvider"
  obtain s where s: "main_start env uid tps sps G = Ret s" "sworld s = ?w"
    "wpool s = Some (New (Worker (configured env)))" "reader s = (\<lambda>_. NoReader)"
    using main_start_conv [OF i] by simp
  have "Worker (configured env) < 2 ^ 63"
    by (auto simp: configured_def Atoi_def Let_def split: option.split if_splits prod.splits)
  then have p: "pool_ok (New (Worker (configured env)))" by (rule pool_ok_New)
  have none: "mem_granted NewMemProvider q x = None" for q x by (simp add: mem_granted_def NewMemProvider_def)
  have "sinv ?w"
    by (simp add: sinv_defs empty_world_def none live_def mem_inv_new store_inv_new_provider)
      (simp add: NewSessProvider_def)
  then have "winv ?w" by (rule winvI) (simp_all add: fresh_def retry_pending_def empty_world_def)
  moreover have "offered s = []"
    by (simp add: s offered_def empty_world_def tasks_def taskQueue_New)
  then have "flow_ok s" by (simp add: flow_ok_def backlog_def) (simp add: s)
  ultimately show ?thesis using p by (simp add: b s roster_ok_def empty_world_def)
qed

text \<open>Fields that the invariant does not read.\<close>

lemma sys_inv_other [simp]:
  "sys_inv (Up (s\<lparr>listener := l\<rparr>)) = sys_inv (Up s)"
  "sys_inv (Up (s\<lparr>accepting := acc\<rparr>)) = sys_inv (Up s)"
  "sys_inv (Up (s\<lparr>handshakes := hs\<rparr>)) = sys_inv (Up s)"
  "sys_inv (Up (s\<lparr>producer := g\<rparr>)) = sys_inv (Up s)"
  "sys_inv (Up (s\<lparr>published := out\<rparr>)) = sys_inv (Up s)"
  by (simp_all add: flow_ok_def offered_def backlog_def cong: option.case_cong)

lemma pchan_inv:
  assumes "sys_inv (Up s)"
  shows "sys_inv (Up (s\<lparr>sworld := (sworld s)\<lparr>pchan := q\<rparr>\<rparr>))"
proof -
  have "same_struct (sworld s) ((sworld s)\<lparr>pchan := q\<rparr>)" by (simp add: same_struct_def)
  from sinv_cong [OF this] have "winv ((sworld s)\<lparr>pchan := q\<rparr>) = winv (sworld s)"
    by (simp add: winv_def cinv_def started_def retry_pending_def fresh_def)
  with assms flow_ok_world [of s "(sworld s)\<lparr>pchan := q\<rparr>"] show ?thesis by (simp add: roster_ok_def)
qed

lemma produce_inv:
  assumes "sys_inv (Up s)"
  shows "sys_inv (Up (produce_step publish_ok s))"
proof -
  obtain q out where "producer_turn publish_ok (pchan (sworld s), published s) = (q, out)" by fastforce
  then have "produce_step publish_ok s = s\<lparr>sworld := (sworld s)\<lparr>pchan := q\<rparr>\<rparr>\<lparr>published := out\<rparr>"
    by (simp add: produce_step_def)
  then show ?thesis using pchan_inv [OF assms] by (simp del: sys_inv.simps(1))
qed

lemma dial_conv:
  "dial_step dial_ok channel_ok s =
     (if \<not> dial_ok then Exit ''ERROR: fail init RabbitMQ producer''
      else if \<not> channel_ok then Exit ''failed to open a channel'' else Ret (s\<lparr>producer := Serving\<rparr>))"
  by (simp add: dial_step_def InitProducer_def)

lemma listen_conv:
  "listen_step listen s =
     (if \<not> listen ('':'' @ dec (Port (config (sworld s)))) then Exit ''Error initializating broker''
      else Ret (s\<lparr>listener := Serving, accepting := accept_loop []\<rparr>))"
  by (simp add: listen_step_def StartClientListening_def)

lemma connect_inv:
  assumes "sys_inv (Up s0)"
  shows "sys_inv (settle (connect_step E k first s0))"
proof (cases "handleConnection E CLIENT (handshakes s0 ! k) first (sworld s0)")
  case (Ret h)
  let ?con = "handshakes s0 ! k"
  define s where "s = s0\<lparr>handshakes := take k (handshakes s0) @ drop (Suc k) (handshakes s0)\<rparr>"
  have inv: "sys_inv (Up s)" and ws: "sworld s0 = sworld s"
    using assms by (simp_all add: s_def del: sys_inv.simps)
  let ?w = "sworld s" and ?n = "client_next (sworld s)"
  from inv have w: "winv ?w" and r: "roster_ok ?w" and f: "flow_ok s" and p: "\<exists>p. wpool s = Some p \<and> pool_ok p"
    by simp_all
  from Ret [unfolded ws] consider out where "h = Returned out ?w"
    | msg connack where "h = Reading ?n (enter E CLIENT ?n (joined E CLIENT ?con msg connack ?w))"
    by (auto simp: handleConnection_def start_client_conv Let_def
        split: read_result.splits control_packet.splits if_splits)
  then show ?thesis
  proof cases
    case 1
    with Ret inv show ?thesis by (simp add: connect_step_def ws s_def [symmetric])
  next
    case (2 msg connack)
    let ?v = "joined E CLIENT ?con msg connack ?w"
    have v: "winv ?v" using w by (rule winv_joined)
    obtain q where q: "enter E CLIENT ?n ?v = PublishMessage E q ?v" using enter_client [OF v] by blast
    let ?u = "PublishMessage E q ?v"
    have k: "keeps ?v ?u" by simp
    have cl: "clusterPool ?u = clusterPool ?w"
      using same_but_clientsD(13) [OF PublishMessage_frame] by (simp add: joined_def add_client_def)
    have nx: "client_next ?u = Suc ?n" and ty: "\<And>b. ctyp (client_at ?u b) = ctyp (client_at ?v b)"
      and rt: "routes ?u = routes ?w"
      using k by (simp_all add: keeps_def same_struct_def)
    have "winv ?u" using keeps_winv [OF k v] .
    moreover have "roster_ok ?u" using r by (auto simp: roster_ok_def cl rt nx ty connected_client_ok less_Suc_eq)
    moreover have "flow_ok (s\<lparr>sworld := ?u\<rparr>)" using f by (rule flow_ok_world) (simp_all add: nx cl)
    then have "flow_ok (read_start ?n (s\<lparr>sworld := ?u\<rparr>))"
      unfolding read_start_def Let_def by (rule flow_ok_reader) (simp_all add: nx split: if_splits)
    ultimately show ?thesis
      using Ret 2 p q by (simp add: connect_step_def ws s_def [symmetric] read_start_def set_reader_def Let_def)
  qed
qed (simp_all add: connect_step_def)

lemma set_reader_simps [simp]:
  "sworld (set_reader a r s) = sworld s" "wpool (set_reader a r s) = wpool s"
  "reader (set_reader a r s) = (reader s)(a := r)"
  by (simp_all add: set_reader_def)

lemma top_inv:
  assumes "sys_inv (Up s)" and "reader s a = AtTop" and "backlog s a = 0"
  shows "sys_inv (settle (read_top a ok s))"
proof -
  have "a < client_next (sworld s)" using assms(1,2) by (auto simp: flow_ok_def)
  then have "flow_ok (set_reader a r s)" for r using assms by (intro flow_ok_reader) simp_all
  with assms(1) show ?thesis by (simp add: read_top_def Let_def)
qed

lemma send_conv:
  assumes "sys_inv (Up s)" and "a < client_next (sworld s)"
  obtains p' where "send_on hash a packet r s = Ret (set_reader a r (s\<lparr>wpool := Some p'\<rparr>))" and "pool_ok p'"
    and "mset (offered (set_reader a r (s\<lparr>wpool := Some p'\<rparr>))) =
      add_mset \<lparr> msg_client = a, msg_packet = packet \<rparr> (mset (offered s))"
proof -
  let ?m = "\<lparr> msg_client = a, msg_packet = packet \<rparr>"
  from assms(1) obtain p where p: "wpool s = Some p" "pool_ok p" and r: "roster_ok (sworld s)" by auto
  from tasks_sent [OF p(2)] obtain p' where
    sent: "Submit hash p (clientId (info (client_at (sworld s) a))) (Some ?m) = Sent p'"
    and p': "pool_ok p'" "mset (tasks p') = add_mset ?m (mset (tasks p))" by metis
  have "ctyp (client_at (sworld s) a) \<noteq> CLUSTER" using r assms(2) by (simp add: roster_ok_def)
  then have send: "send_on hash a packet r s = Ret (set_reader a r (s\<lparr>wpool := Some p'\<rparr>))"
    using p sent by (simp add: send_on_def SubmitWork_def Let_def)
  have "offered (set_reader a r (s\<lparr>wpool := Some p'\<rparr>)) = tasks p'" "offered s = tasks p"
    using r p(1) by (simp_all add: offered_pool)
  with p'(2) have "mset (offered (set_reader a r (s\<lparr>wpool := Some p'\<rparr>))) = add_mset ?m (mset (offered s))" by simp
  with send p'(1) show ?thesis by (rule that)
qed

lemma send_inv:
  assumes "sys_inv (Up s)" and "a < client_next (sworld s)" and "backlog s a = 0" and "r \<noteq> InRead"
    and "\<And>ca. packet = Some ca \<Longrightarrow> parsed ca"
  shows "\<exists>p'. send_on hash a packet r s = Ret (set_reader a r (s\<lparr>wpool := Some p'\<rparr>)) \<and>
    sys_inv (Up (set_reader a r (s\<lparr>wpool := Some p'\<rparr>)))"
proof -
  let ?m = "\<lparr> msg_client = a, msg_packet = packet \<rparr>"
  obtain p' where send: "send_on hash a packet r s = Ret (set_reader a r (s\<lparr>wpool := Some p'\<rparr>))" "pool_ok p'"
    and off: "mset (offered (set_reader a r (s\<lparr>wpool := Some p'\<rparr>))) = add_mset ?m (mset (offered s))"
    by (rule send_conv [OF assms(1,2)])
  let ?s = "set_reader a r (s\<lparr>wpool := Some p'\<rparr>)"
  have "set (offered ?s) = insert ?m (set (offered s))"
    using off by (metis set_mset_add_mset_insert set_mset_mset)
  moreover have "backlog ?s b = backlog s b + (if b = a then 1 else 0)" for b
    by (simp add: backlog_mset off)
  ultimately have "flow_ok ?s"
    using assms by (auto simp: flow_ok_def msg_ok_def)
  with send assms(1) show ?thesis by auto
qed

lemma keeps_disconnecting:
  "keeps w (upd_client a (\<lambda>c. c\<lparr>info := (info c)\<lparr>willMsg := None\<rparr>, ctxDone := True\<rparr>) w)"
  by (rule keeps_upd) (simp add: soft_def client_ok_def inflight_ok_def)

lemma read_inv:
  assumes "sys_inv (Up s)" and "reader s a = InRead" and "\<And>p. r = Got p \<Longrightarrow> parsed p"
  shows "sys_inv (settle (read_packet hash a elapsed r s)) \<and> (\<exists>s'. read_packet hash a elapsed r s = Ret s')"
proof -
  let ?c = "client_at (sworld s) a"
  let ?r = "if conn_closed ?c \<or> (keep_alive (info ?c) > 0 \<and> elapsed \<ge> time_out (info ?c)) then ReadFailed else r"
  let ?w = "upd_client a (\<lambda>c. c\<lparr>info := (info c)\<lparr>willMsg := None\<rparr>, ctxDone := True\<rparr>) (sworld s)"
  have a: "a < client_next (sworld s)" and b: "backlog s a = 0" and f: "flow_ok s"
    using assms(1,2) by (auto simp: flow_ok_def)
  note send = send_inv [OF assms(1) a b]
  have "winv ?w" using keeps_winv [OF keeps_disconnecting] assms(1) by simp
  moreover have "roster_ok ?w" using assms(1) by (simp add: roster_ok_def)
  moreover have "flow_ok (s\<lparr>sworld := ?w\<rparr>)" using f by (rule flow_ok_world) simp_all
  ultimately have "sys_inv (Up (s\<lparr>sworld := ?w\<rparr>))" using assms(1) by simp
  moreover have "backlog (s\<lparr>sworld := ?w\<rparr>) a = 0"
    using b by (simp add: backlog_def offered_def cong: option.case_cong)
  ultimately have disc: "\<exists>p'. send_on hash a (Some DisconnectPacket) AtTop (s\<lparr>sworld := ?w\<rparr>) =
      Ret (set_reader a AtTop (s\<lparr>sworld := ?w, wpool := Some p'\<rparr>)) \<and>
    sys_inv (Up (set_reader a AtTop (s\<lparr>sworld := ?w, wpool := Some p'\<rparr>)))"
    using send_inv [of "s\<lparr>sworld := ?w\<rparr>" a AtTop "Some DisconnectPacket" hash] a by (simp add: parsed_def)
  show ?thesis
  proof (cases ?r)
    case ReadFailed
    then show ?thesis using send [of Ended "Some DisconnectPacket" hash] by (auto simp: read_packet_def Let_def parsed_def)
  next
    case NilPacket
    then show ?thesis using send [of AtTop None hash] by (auto simp: read_packet_def Let_def)
  next
    case (Got q)
    then have "r = Got q" by (auto split: if_splits)
    then have "parsed q" by (rule assms(3))
    then show ?thesis using Got disc send [of AtTop "Some q" hash]
      by (cases "q = DisconnectPacket") (auto simp: read_packet_def Let_def)
  qed
qed

lemma work_inv:
  assumes "sys_inv (Up s)"
  shows "sys_inv (settle (work E i s))"
proof -
  from assms obtain p where p: "wpool s = Some p" "pool_ok p" and r: "roster_ok (sworld s)"
    and w: "winv (sworld s)" and f: "flow_ok s" by auto
  obtain p' t where t: "worker_turn i p = (p', t)" by fastforce
  show ?thesis
  proof (cases t)
    case None
    with p t assms show ?thesis by (simp add: work_def)
  next
    case (Some msg)
    note taken = tasks_taken [OF t [unfolded Some]]
    have "msg \<in> set (offered s)"
      using taken(1) r p(1) by (metis offered_pool set_mset_mset union_single_eq_member)
    with f have m: "msg_ok (sworld s) msg" by (simp add: flow_ok_def)
    show ?thesis
    proof (cases "ProcessMessage E msg (sworld s)")
      case (Ret v)
      let ?s = "s\<lparr>sworld := v, wpool := Some p'\<rparr>"
      have fr: "roster_frame (sworld s) v" using Ret by (rule roster_ProcessMessage)
      have "validatePacketFields ca \<or> conn (client_at (sworld s) (msg_client msg))" if "msg_packet msg = Some ca" for ca
        using Ret that by (auto simp: ProcessMessage_def Let_def split: if_splits)
      with m have "winv v" using ProcessMessage_winv [OF w, of msg E] Ret by (auto simp: msg_ok_def)
      moreover have rv: "roster_ok v" using roster_ok_frame [OF fr r] .
      moreover have "flow_ok ?s"
      proof -
        have off: "mset (offered s) = add_mset msg (mset (offered ?s))"
          using taken(1) offered_pool [OF r p(1)] offered_pool [of ?s p'] rv by simp
        then have sub: "set (offered ?s) \<subseteq> set (offered s)"
          by (metis set_mset_mset set_mset_add_mset_insert subset_insertI)
        have bl: "backlog ?s a \<le> backlog s a" for a by (simp add: backlog_mset off)
        have nx: "client_next v = client_next (sworld s)" using fr by (simp add: roster_frame_def)
        have "backlog ?s a \<le> 1 \<and> (reader ?s a = InRead \<longrightarrow> backlog ?s a = 0)" for a
        proof -
          have "backlog s a \<le> 1" and "reader s a = InRead \<longrightarrow> backlog s a = 0" using f by (simp_all add: flow_ok_def)
          with bl [of a] show ?thesis by auto
        qed
        with f sub show ?thesis by (auto simp: flow_ok_def msg_ok_def nx)
      qed
      ultimately show ?thesis using p t Some Ret taken(2) by (simp add: work_def)
    qed (use p t Some in \<open>simp_all add: work_def\<close>)
  qed
qed

lemma fire_inv:
  assumes "sys_inv (Up s)" and "k < length (timers (sworld s))"
  shows "sys_inv (Up (fire E k s))"
proof -
  let ?t = "snd (timers (sworld s) ! k)" and ?w = "without_timer k (sworld s)"
  let ?v = "run_timer E ?t ?w"
  have v: "sworld (fire E k s) = ?v" by (simp add: fire_def without_timer_def Let_def)
  have "roster_frame ?w ?v" by (simp add: run_timer_def split: timer_task.split)
  then have fr: "roster_frame (sworld s) ?v" by (simp add: roster_frame_def without_timer_def)
  have "flow_ok (fire E k s)"
    using flow_ok_world [of s ?v] assms(1) fr v by (simp add: roster_frame_def fire_def without_timer_def Let_def)
  then show ?thesis
    using assms timer_winv [of "sworld s" k E] roster_ok_frame [OF fr] v by (simp add: fire_def Let_def)
qed

lemma pool_inv:
  assumes "sys_inv (Up s)" and "wpool s = Some p" and "taskQueue p' = taskQueue p" and "maxWorkers p' = maxWorkers p"
  shows "sys_inv (Up (s\<lparr>wpool := Some p'\<rparr>))"
proof -
  have "offered (s\<lparr>wpool := Some p'\<rparr>) = offered s" using assms(2,3) by (simp add: offered_def tasks_def)
  then have "flow_ok (s\<lparr>wpool := Some p'\<rparr>)" using assms(1) by (simp add: flow_ok_def backlog_def)
  with assms show ?thesis by (simp add: pool_ok_def)
qed

lemma step_inv:
  assumes "sys_inv b" and "sys_step hash b l b'"
  shows "sys_inv b'"
  using assms(2,1)
proof cases
  case (Listen s listen)
  then show ?thesis using assms(1) by (simp add: listen_conv del: sys_inv.simps(1))
next
  case (Accept s ev)
  then show ?thesis using assms(1) by (simp add: accept_step_def del: sys_inv.simps(1))
next
  case (Connect k s E first)
  then show ?thesis using assms(1) connect_inv by blast
next
  case (Top s a ok)
  then show ?thesis using assms(1) top_inv by blast
next
  case (Read s a r elapsed)
  then show ?thesis using assms(1) read_inv by blast
next
  case (Work s i E)
  then show ?thesis using assms(1) work_inv by blast
next
  case (Timer k s E)
  then show ?thesis using assms(1) fire_inv by blast
next
  case (Dial s dial_ok channel_ok)
  then show ?thesis using assms(1) by (simp add: dial_conv del: sys_inv.simps(1))
next
  case (Produce s publish_ok)
  then show ?thesis using assms(1) produce_inv by blast
next
  case (Stop s)
  then show ?thesis using assms(1) pool_inv [of s] by (fastforce simp: main_end_def Broker_Stop_def Worker_Pool.Stop_def)
next
  case (Done s p i)
  then show ?thesis using assms(1) pool_inv [of s p "worker_done i p"] by (simp add: worker_done_def)
qed

interpretation br: invariant_machine broker_start "sys_step hash" sys_inv for hash
  by unfold_locales (auto intro: start_inv step_inv)

section \<open>Consequences for reachable states\<close>

definition reached :: "(string \<Rightarrow> u64) \<Rightarrow> system \<Rightarrow> bool" where
  "reached hash s \<longleftrightarrow> (\<exists>b ls. broker_start b \<and> run (sys_step hash) b ls (Up s))"

lemma reached_inv: "reached hash s \<Longrightarrow> sys_inv (Up s)"
  unfolding reached_def using br.run_inv by blast

lemma settle_Down [simp]: "settle r = Down c \<longleftrightarrow> r = Panic c \<or> r = Exit c"
  by (cases r) auto

lemma step_iff: "sys_step hash (Up s) l b \<longleftrightarrow> (\<exists>r. exec hash l s = Some r \<and> b = settle r)"
  using exec_step step_exec by blast

text \<open>The turns that end the process.\<close>

lemma work_down_iff:
  assumes "sys_inv (Up s)"
  shows "settle (work E i s) = Down cause \<longleftrightarrow>
    (\<exists>p msg ca. wpool s = Some p \<and> snd (worker_turn i p) = Some msg \<and> msg_packet msg = Some ca \<and>
       \<not> validatePacketFields ca \<and> \<not> conn (client_at (sworld s) (msg_client msg)) \<and> cause = ''nil pointer'')"
proof -
  from assms obtain p where p: "wpool s = Some p" and r: "roster_ok (sworld s)"
    and w: "winv (sworld s)" and f: "flow_ok s" by auto
  obtain p' t where t: "worker_turn i p = (p', t)" by fastforce
  show ?thesis
  proof (cases t)
    case None
    with p t show ?thesis by (simp add: work_def)
  next
    case (Some msg)
    have "msg \<in> set (offered s)"
      using tasks_taken(1) [OF t [unfolded Some]] r p by (metis offered_pool set_mset_mset union_single_eq_member)
    with f have m: "msg_ok (sworld s) msg" by (simp add: flow_ok_def)
    show ?thesis
    proof (cases "\<exists>ca. msg_packet msg = Some ca \<and> \<not> validatePacketFields ca \<and> \<not> conn (client_at (sworld s) (msg_client msg))")
      case True
      with p t Some show ?thesis by (auto simp: work_def ProcessMessage_def)
    next
      case False
      with ProcessMessage_winv [OF w, of msg E] m obtain v where "ProcessMessage E msg (sworld s) = Ret v"
        by (auto simp: msg_ok_def)
      with False p t Some show ?thesis by (auto simp: work_def)
    qed
  qed
qed

lemma connect_down_iff:
  "settle (connect_step E k first s) = Down cause \<longleftrightarrow>
     handleConnection E CLIENT (handshakes s ! k) first (sworld s) = Exit cause"
  using handshake_no_panic [of E CLIENT "handshakes s ! k" first "sworld s"]
  by (cases "handleConnection E CLIENT (handshakes s ! k) first (sworld s)")
    (auto simp: connect_step_def Let_def split: handshake.splits)

text \<open>The worker of a client is running and has nothing to do.\<close>

definition idle :: "(string \<Rightarrow> u64) \<Rightarrow> system \<Rightarrow> addr \<Rightarrow> bool" where
  "idle hash s a \<longleftrightarrow> (\<exists>p. wpool s = Some p \<and> pool_ok p \<and>
     (let i = worker_index hash p (clientId (info (client_at (sworld s) a)))
      in taskQueue p ! i = Some [] \<and> i \<notin> set (exited p)))"

text \<open>A message is then handed over in two steps, after which the pool is as before.\<close>

lemma hand_over:
  assumes "idle hash s a" and "ctyp (client_at (sworld s) a) \<noteq> CLUSTER"
  obtains p p' i where "wpool s = Some p"
    and "send_on hash a packet r s = Ret (set_reader a r (s\<lparr>wpool := Some p'\<rparr>))"
    and "worker_turn i p' = (p, Some \<lparr> msg_client = a, msg_packet = packet \<rparr>)"
proof -
  let ?m = "\<lparr> msg_client = a, msg_packet = packet \<rparr>"
  let ?u = "clientId (info (client_at (sworld s) a))"
  from assms(1) obtain p where p: "wpool s = Some p" "pool_ok p"
    and q: "taskQueue p ! worker_index hash p ?u = Some []" "worker_index hash p ?u \<notin> set (exited p)"
    by (auto simp: idle_def Let_def)
  let ?i = "worker_index hash p ?u"
  let ?p = "p\<lparr>taskQueue := (taskQueue p)[?i := Some [?m]]\<rparr>"
  have i: "?i < length (taskQueue p)" using worker_index_bound [OF p(2)] .
  have "Submit hash p ?u (Some ?m) = Sent ?p" using Submit_ok [OF p(2), of hash ?u ?m] q(1) by simp
  then have "send_on hash a packet r s = Ret (set_reader a r (s\<lparr>wpool := Some ?p\<rparr>))"
    using assms(2) p(1) by (simp add: send_on_def SubmitWork_def Let_def)
  moreover have "worker_turn ?i ?p = (p, Some ?m)"
    using i q(2) list_update_id [of "taskQueue p" ?i, unfolded q(1)] by (simp add: worker_turn_def)
  ultimately show ?thesis using p(1) by (intro that)
qed

section \<open>Properties\<close>

text \<open>
  C1: in every state that the broker reaches from its start, by any interleaving of the listener,
  connections, readers, workers, timers and the producer, the invariant holds: tree, maps, sessions and timers agree.  All
  clients are end users, no router is known, and each client has at most one message on its way to
  a worker, none while its reader waits for the network.
\<close>

theorem reachable_well_formed:
  assumes "reached hash s"
  shows "winv (sworld s) \<and> routes (sworld s) = [] \<and> clients (sworld s) = [] \<and>
    (\<forall>a < client_next (sworld s). ctyp (client_at (sworld s) a) = CLIENT) \<and>
    (\<forall>a. backlog s a \<le> 1) \<and> (\<forall>a. reader s a = InRead \<longrightarrow> backlog s a = 0)"
  using reached_inv [OF assms] by (auto simp: roster_ok_def flow_ok_def winv_def sinv_def tables_ok_def)

text \<open>
  C8: unacknowledged packets are never forgotten while the client has its connection: in every
  reachable state a client with packets in flight has exactly one pending retry timer.
\<close>

theorem retry_always_armed:
  assumes "reached hash s" and "a < client_next (sworld s)" and "conn (client_at (sworld s) a)"
    and "inflight (client_at (sworld s) a) \<noteq> []"
  shows "length (filter (\<lambda>e. snd e = RetryDelivery a) (timers (sworld s))) = 1"
proof -
  have "winv (sworld s)" using reached_inv [OF assms(1)] by simp
  from winvD(2) [OF this assms(2)] assms(3,4) show ?thesis by (simp add: cinv_def retry_pending_def)
qed

text \<open>
  C2: which steps bring the broker process down, with the handlers, the handshakes and the turns of
  the loops taken as single steps: in every reachable state exactly these.  The listener cannot
  listen; the producer of the bridge cannot connect or open its channel; the first packet of a
  connection cannot be read, is no CONNECT, or its CONNACK cannot be written and the request was not
  refused by the authentication service; a reader whose client has a keep-alive sets its deadline on a
  connection that is closed or fails; a worker takes a malformed PUBLISH or UNSUBSCRIBE of a client
  whose connection pointer is nil.  No other step of a handler, reader, timer or goroutine does.
  (The orderly end after a signal, and the Go runtime's abort when two goroutines use one map at
  once, are not steps of the model.)
\<close>

theorem crash_causes:
  assumes "reached hash s"
  shows "sys_step hash (Up s) l (Down cause) \<longleftrightarrow>
    (\<exists>listen. l = LListen listen \<and> listener s = Starting \<and>
       \<not> listen ('':'' @ dec (Port (config (sworld s)))) \<and> cause = ''Error initializating broker'') \<or>
    (\<exists>dial_ok channel_ok. l = LDial dial_ok channel_ok \<and> producer s = Starting \<and>
       (\<not> dial_ok \<and> cause = ''ERROR: fail init RabbitMQ producer'' \<or>
        dial_ok \<and> \<not> channel_ok \<and> cause = ''failed to open a channel'')) \<or>
    (\<exists>E k first. l = LConnect E k first \<and> k < length (handshakes s) \<and>
       (first = ReadFailed \<and> cause = ''read connect packet error'' \<or>
        (\<exists>q. first = Got q \<and> (\<forall>msg. q \<noteq> ConnectPacket msg) \<and> cause = ''received message that was not connect'') \<or>
        (\<exists>msg. first = Got (ConnectPacket msg) \<and>
           (validate E msg \<noteq> Accepted \<or> checkConnect E (c_Username msg) (c_Password msg)) \<and>
           \<not> write_ok E (client_next (sworld s))
               (ConnackPacket \<lparr> ca_SessionPresent = c_CleanSession msg, ca_ReturnCode = validate E msg \<rparr>) \<and>
           cause = ''send connack error''))) \<or>
    (\<exists>a ok. l = LTop a ok \<and> reader s a = AtTop \<and> backlog s a = 0 \<and> \<not> ctxDone (client_at (sworld s) a) \<and>
       keepalive (info (client_at (sworld s) a)) \<noteq> 0 \<and> (\<not> ok \<or> conn_closed (client_at (sworld s) a)) \<and>
       cause = ''set read timeout error'') \<or>
    (\<exists>i E p msg ca. l = LWork i E \<and> wpool s = Some p \<and> snd (worker_turn i p) = Some msg \<and>
       msg_packet msg = Some ca \<and> \<not> validatePacketFields ca \<and>
       \<not> conn (client_at (sworld s) (msg_client msg)) \<and> cause = ''nil pointer'')"
proof (cases l)
  case (LListen listen)
  then show ?thesis by (auto simp: step_iff listen_conv eq_commute [of "Down _"])
next
  case (LAccept ev)
  then show ?thesis by (auto simp: step_iff)
next
  case (LConnect E k first)
  have "sys_step hash (Up s) l (Down cause) \<longleftrightarrow> k < length (handshakes s) \<and>
      handleConnection E CLIENT (handshakes s ! k) first (sworld s) = Exit cause"
    by (auto simp: LConnect step_iff eq_commute [of "Down _"] connect_down_iff simp del: settle_Down)
  then show ?thesis unfolding handshake_exit_iff by (auto simp: LConnect)
next
  case (LTop a ok)
  then show ?thesis
    by (auto simp: step_iff read_top_def Let_def keep_alive_pos eq_commute [of "Down _"] split: if_splits)
next
  case (LRead a elapsed r)
  have "\<exists>s'. read_packet hash a elapsed r s = Ret s'" if "reader s a = InRead" "case r of Got p \<Rightarrow> parsed p | _ \<Rightarrow> True"
  proof -
    have "parsed p" if "r = Got p" for p using that \<open>case r of Got p \<Rightarrow> parsed p | _ \<Rightarrow> True\<close> by simp
    with read_inv [OF reached_inv [OF assms] that(1), of r hash elapsed] show ?thesis by blast
  qed
  with LRead show ?thesis by (auto simp: step_iff eq_commute [of "Down _"])
next
  case (LWork i E)
  have "sys_step hash (Up s) l (Down cause) \<longleftrightarrow> settle (work E i s) = Down cause"
    by (auto simp: LWork step_iff simp del: settle_Down)
  then show ?thesis unfolding work_down_iff [OF reached_inv [OF assms]] by (auto simp: LWork)
next
  case (LTimer k E)
  then show ?thesis by (auto simp: step_iff)
next
  case (LDial dial_ok channel_ok)
  then show ?thesis by (auto simp: step_iff dial_conv eq_commute [of "Down _"])
next
  case (LProduce publish_ok)
  then show ?thesis by (auto simp: step_iff)
next
  case LStop
  with reached_inv [OF assms] show ?thesis by (auto simp: step_iff main_end_def Broker_Stop_def)
next
  case (LDone i)
  then show ?thesis by (auto simp: step_iff)
qed

text \<open>
  Any peer can end the broker in any state: a connection whose first packet is not a CONNECT,
  or that is closed before its first packet was read, brings the process down.
\<close>

lemma first_packet_kills:
  assumes "k < length (handshakes s)" and "first = ReadFailed \<or> first = Got q" and "\<And>msg. q \<noteq> ConnectPacket msg"
  shows "\<exists>cause. sys_step hash (Up s) (LConnect E k first) (Down cause)"
proof -
  obtain m where "handleConnection E CLIENT (handshakes s ! k) first (sworld s) = Exit m"
    using assms(2,3) unfolding handshake_exit_iff by blast
  with assms(1) show ?thesis
    by (intro exI [of _ m]) (simp add: step_iff connect_step_def)
qed

text \<open>
  C37: the read deadline.  A reader at the top of its loop, on an open connection, waits for a
  packet that comes \<open>elapsed\<close> nanoseconds later.  If the client's keep-alive is zero no
  deadline is set, so that its setting cannot fail (\<open>ok\<close> is free), and the packet is handed to
  the worker however late it is.  Otherwise it is handed over if it comes before one and a half times
  the keep-alive, computed without overflow for every keep-alive that a CONNECT can carry; from
  then on a DISCONNECT is handed over in its place and the loop ends.
\<close>

theorem read_deadline_exact:
  assumes "reached hash s" and "reader s a = AtTop" and "backlog s a = 0"
    and "\<not> ctxDone (client_at (sworld s) a)" and "\<not> conn_closed (client_at (sworld s) a)"
    and "parsed p" and "ok \<or> keepalive (info (client_at (sworld s) a)) = 0"
  shows "\<exists>s'. run (sys_step hash) (Up s) [LTop a ok, LRead a elapsed (Got p)] (Up s') \<and>
    (if keepalive (info (client_at (sworld s) a)) \<noteq> 0 \<and>
        2 * elapsed \<ge> 3 * (1000000000 * uint (keepalive (info (client_at (sworld s) a))))
     then reader s' a = Ended \<and>
       mset (offered s') = add_mset \<lparr> msg_client = a, msg_packet = Some DisconnectPacket \<rparr> (mset (offered s))
     else reader s' a = AtTop \<and>
       mset (offered s') = add_mset \<lparr> msg_client = a, msg_packet = Some p \<rparr> (mset (offered s)))"
proof -
  let ?i = "info (client_at (sworld s) a)"
  let ?late = "keep_alive ?i > 0 \<and> elapsed \<ge> time_out ?i"
  let ?s1 = "set_reader a InRead s"
  let ?w = "upd_client a (\<lambda>c. c\<lparr>info := (info c)\<lparr>willMsg := None\<rparr>, ctxDone := True\<rparr>) (sworld s)"
  let ?s2 = "if \<not> ?late \<and> p = DisconnectPacket then ?s1\<lparr>sworld := ?w\<rparr> else ?s1"
  have late: "?late \<longleftrightarrow> keepalive ?i \<noteq> 0 \<and> 2 * elapsed \<ge> 3 * (1000000000 * uint (keepalive ?i))"
    by (auto simp: keep_alive_pos time_out_conv)
  have top: "read_top a ok s = Ret ?s1" using assms(4,5,7) by (auto simp: read_top_def Let_def keep_alive_pos)
  have "sys_inv (Up s)" using assms(1) by (rule reached_inv)
  from top_inv [OF this assms(2,3), of ok] top have inv1: "sys_inv (Up ?s1)" by simp
  then have a: "a < client_next (sworld ?s1)" by (auto simp: flow_ok_def)
  have "winv ?w" using keeps_winv [OF keeps_disconnecting] inv1 by simp
  moreover have "flow_ok (?s1\<lparr>sworld := ?w\<rparr>)" using inv1 by (intro flow_ok_world) simp_all
  ultimately have inv2: "sys_inv (Up ?s2)" using inv1 by (simp add: roster_ok_def)
  have off: "offered ?s2 = offered s" by (simp add: offered_def cong: option.case_cong)
  let ?pk = "if ?late then DisconnectPacket else p" and ?r = "if ?late then Ended else AtTop"
  have a2: "a < client_next (sworld ?s2)" using a by simp
  obtain p' where
    send: "send_on hash a (Some ?pk) ?r ?s2 = Ret (set_reader a ?r (?s2\<lparr>wpool := Some p'\<rparr>))"
    and ms: "mset (offered (set_reader a ?r (?s2\<lparr>wpool := Some p'\<rparr>))) =
      add_mset \<lparr> msg_client = a, msg_packet = Some ?pk \<rparr> (mset (offered ?s2))"
    by (rule send_conv [OF inv2 a2])
  note ms = ms [unfolded off]
  let ?s' = "set_reader a ?r (?s2\<lparr>wpool := Some p'\<rparr>)"
  have "read_packet hash a elapsed (Got p) ?s1 = send_on hash a (Some ?pk) ?r ?s2"
    using assms(5) by (simp add: read_packet_def Let_def)
  then have "exec_run hash [LTop a ok, LRead a elapsed (Got p)] s = Some (Ret ?s')"
    using assms(2,3,6) top send by simp
  from exec_run_sound [OF this] have run: "run (sys_step hash) (Up s) [LTop a ok, LRead a elapsed (Got p)] (Up ?s')"
    by (simp only: settle.simps)
  have "\<exists>s'. run (sys_step hash) (Up s) [LTop a ok, LRead a elapsed (Got p)] (Up s') \<and> reader s' a = ?r \<and>
      mset (offered s') = add_mset \<lparr> msg_client = a, msg_packet = Some ?pk \<rparr> (mset (offered s))"
    by (rule exI [of _ ?s'], intro conjI) (fact run, simp, fact ms)
  then show ?thesis unfolding late [symmetric] by (cases ?late) auto
qed

text \<open>
  \<open>main\<close> starts the process in every environment: with the registered in-memory providers it
  never fails, the broker is well-formed and has at least one worker, and the bridge's producer is
  started exactly if the handlers forward messages to it.
\<close>

lemma main_starts:
  assumes "topics_init = Ret tps" and "sessions_init = Ret sps"
  shows "\<exists>s. main_start env uid tps sps G = Ret s \<and> broker_start (Up s) \<and> winv (sworld s) \<and>
    (\<exists>p. wpool s = Some p \<and> 1 \<le> length (taskQueue p)) \<and> listener s = Starting \<and>
    (producer s = Starting \<longleftrightarrow> BridgeEnabled (config (sworld s)))"
proof -
  obtain s where s: "main_start env uid tps sps G = Ret s" "listener s = Starting"
    "producer s = (if BridgeEnabled (config (sworld s)) then Starting else NotRunning)"
    using main_start_conv [OF assms] by (simp add: empty_world_def)
  then have b: "broker_start (Up s)" using assms settle.simps(1) unfolding broker_start_def by metis
  from start_inv [OF this] obtain p where "winv (sworld s)" "wpool s = Some p" "pool_ok p" by auto
  moreover from this have "1 \<le> length (taskQueue p)" by (auto simp: pool_ok_def)
  ultimately show ?thesis using s b by auto
qed

text \<open>
  C19: one malformed PUBLISH can end the broker: when the worker has handled it, and so closed the
  connection without ending the client's context, before the reader is back at the top of its
  loop, the reader cannot set its deadline any more and panics.
\<close>

theorem malformed_publish_kills:
  assumes "idle hash s a" and "reader s a = InRead" and "backlog s a = 0"
    and "ctyp (client_at (sworld s) a) = CLIENT" and "conn (client_at (sworld s) a)"
    and "\<not> conn_closed (client_at (sworld s) a)" and "\<not> ctxDone (client_at (sworld s) a)"
    and "keepalive (info (client_at (sworld s) a)) \<noteq> 0"
    and "elapsed < time_out (info (client_at (sworld s) a))" and "\<not> text_ok (p_TopicName p)"
  shows "\<exists>i. run (sys_step hash) (Up s) [LRead a elapsed (Got (PublishPacket p)), LWork i E, LTop a True]
    (Down ''set read timeout error'')"
proof -
  from hand_over [OF assms(1), where packet = "Some (PublishPacket p)" and r = AtTop] assms(4)
  obtain q q' i where q: "wpool s = Some q"
    and send: "send_on hash a (Some (PublishPacket p)) AtTop s = Ret (set_reader a AtTop (s\<lparr>wpool := Some q'\<rparr>))"
    and turn: "worker_turn i q' = (q, Some \<lparr> msg_client = a, msg_packet = Some (PublishPacket p) \<rparr>)" by auto
  let ?s1 = "set_reader a AtTop (s\<lparr>wpool := Some q'\<rparr>)"
  let ?w = "upd_client a (\<lambda>c. c\<lparr>conn_closed := True\<rparr>) (sworld s)"
  let ?s2 = "?s1\<lparr>sworld := ?w, wpool := Some q\<rparr>"
  have "read_packet hash a elapsed (Got (PublishPacket p)) s = Ret ?s1"
    using assms(6,9) send by (simp add: read_packet_def Let_def)
  then have 1: "exec hash (LRead a elapsed (Got (PublishPacket p))) s = Some (Ret ?s1)"
    using assms(2) by (simp add: parsed_def)
  have "\<not> validatePacketFields (PublishPacket p)"
    using assms(10) by (simp add: validatePacketFields_def extractPacketFields_def text_ok_iff)
  then have 2: "exec hash (LWork i E) ?s1 = Some (Ret ?s2)"
    using turn assms(5) by (simp add: work_def ProcessMessage_def)
  have "backlog ?s2 a = 0" using assms(3) q by (simp add: backlog_def offered_def)
  moreover have "keep_alive (info (client_at (sworld s) a)) > 0"
    using keep_alive_pos assms(8) by blast
  ultimately have 3: "exec hash (LTop a True) ?s2 = Some (Panic ''set read timeout error'')"
    using assms(7) by (simp add: read_top_def)
  have "exec_run hash [LRead a elapsed (Got (PublishPacket p)), LWork i E, LTop a True] s =
      Some (Panic ''set read timeout error'')"
    by (simp only: exec_run.simps 1 2 3 option.case outcome.case simp_thms if_True)
  from exec_run_sound [OF this] show ?thesis by (intro exI [of _ i]) (simp only: settle.simps)
qed

text \<open>
  C18: a client that stays silent for one and a half times its keep-alive is disconnected: its
  reader hands a DISCONNECT to the worker and ends, the worker closes the client, and nobody else
  is affected.
\<close>

theorem silent_client_closed:
  assumes "idle hash s a" and "reader s a = InRead"
    and "ctyp (client_at (sworld s) a) = CLIENT" and "keepalive (info (client_at (sworld s) a)) \<noteq> 0"
    and "elapsed \<ge> time_out (info (client_at (sworld s) a))" and "\<And>p. r = Got p \<Longrightarrow> parsed p"
  shows "\<exists>i s'. run (sys_step hash) (Up s) [LRead a elapsed r, LWork i E] (Up s') \<and>
    status (client_at (sworld s') a) = Disconnected \<and> reader s' a = Ended \<and>
    (\<forall>b. b \<noteq> a \<longrightarrow> client_at (sworld s') b = client_at (sworld s) b \<and> reader s' b = reader s b)"
proof -
  from hand_over [OF assms(1), where packet = "Some DisconnectPacket" and r = Ended] assms(3)
  obtain q q' i where "wpool s = Some q"
    and send: "send_on hash a (Some DisconnectPacket) Ended s = Ret (set_reader a Ended (s\<lparr>wpool := Some q'\<rparr>))"
    and turn: "worker_turn i q' = (q, Some \<lparr> msg_client = a, msg_packet = Some DisconnectPacket \<rparr>)" by auto
  let ?s1 = "set_reader a Ended (s\<lparr>wpool := Some q'\<rparr>)"
  let ?s2 = "?s1\<lparr>sworld := Close a (sworld s), wpool := Some q\<rparr>"
  have "keep_alive (info (client_at (sworld s) a)) > 0" using keep_alive_pos assms(4) by blast
  then have "read_packet hash a elapsed r s = Ret ?s1"
    using assms(5) send by (simp add: read_packet_def Let_def)
  then have 1: "exec hash (LRead a elapsed r) s = Some (Ret ?s1)"
    using assms(2,6) by (auto split: read_result.split)
  have 2: "exec hash (LWork i E) ?s1 = Some (Ret ?s2)"
    using turn by (simp add: work_def ProcessMessage_def validatePacketFields_def extractPacketFields_def)
  have "exec_run hash [LRead a elapsed r, LWork i E] s = Some (Ret ?s2)"
    by (simp only: exec_run.simps 1 2 option.case outcome.case)
  from exec_run_sound [OF this] have "run (sys_step hash) (Up s) [LRead a elapsed r, LWork i E] (Up ?s2)" by simp
  moreover have "status (client_at (sworld ?s2) a) = Disconnected" by (simp add: Close_def)
  moreover have "b \<noteq> a \<Longrightarrow> client_at (sworld ?s2) b = client_at (sworld s) b" for b by (simp add: Close_def)
  ultimately show ?thesis by (intro exI [of _ i] exI [of _ ?s2]) simp
qed

section \<open>Instances\<close>

text \<open>
  A run from the start of a broker with one worker: a client connects, subscribes to \<open>a/b\<close> and
  publishes there with QoS 1.
\<close>

definition demo_environment :: environment where
  "demo_environment = [(''WORKER_NUM'', ''1'')]"

definition demo_start :: system where
  "demo_start = \<lparr> sworld = empty_world ''b'' (configured demo_environment) NewMemProvider NewSessProvider,
     wpool = Some (New 1), reader = (\<lambda>_. NoReader), listener = Starting, accepting = accept_loop [],
     handshakes = [], producer = NotRunning, published = [] \<rparr>"

definition demo_labels :: "label list" where
  "demo_labels =
     [LListen (\<lambda>_. True), LAccept (Accepted_conn demo_con), LAccept (Accepted_conn demo_con),
      LConnect demo_env 0 (Got (ConnectPacket demo_connect)), LTop 0 True,
      LRead 0 5 (Got (SubscribePacket \<lparr> s_MessageID = 1, s_Topics = [''a/b''], s_Qoss = [1] \<rparr>)), LWork 0 demo_env,
      LTop 0 True, LRead 0 5 (Got (PublishPacket (demo_publish ''a/b'' 1))), LWork 0 demo_env]"

definition demo_end :: system where
  "demo_end = (case exec_run demo_hash demo_labels demo_start of Some (Ret s) \<Rightarrow> s | _ \<Rightarrow> demo_start)"

lemma demo_run_ok: "case exec_run demo_hash demo_labels demo_start of Some (Ret s) \<Rightarrow> True | _ \<Rightarrow> False"
  by code_simp

lemma demo_start_ok: "broker_start (Up demo_start)"
proof -
  have "Worker (configured demo_environment) = 1" "\<not> BridgeEnabled (configured demo_environment)" by code_simp+
  moreover have i: "topics_init = Ret [(''mem'', NewMemProvider)]" "sessions_init = Ret [(''mem'', NewSessProvider)]"
    by (simp_all add: topics_init_def topics_Register_def sessions_init_def sessions_Register_def)
  ultimately have "settle (main_start demo_environment ''b'' [(''mem'', NewMemProvider)] [(''mem'', NewSessProvider)] G) =
      Up demo_start" for G
    by (simp add: main_start_conv [OF i] demo_start_def)
  then show ?thesis using i unfolding broker_start_def by metis
qed

lemma demo_reached: "reached demo_hash demo_end"
proof -
  have "exec_run demo_hash demo_labels demo_start = Some (Ret demo_end)"
    using demo_run_ok by (auto simp: demo_end_def split: option.splits outcome.splits)
  from exec_run_sound [OF this] demo_start_ok show ?thesis by (auto simp: reached_def)
qed

theorem reachable_well_formed_witness:
  "winv (sworld demo_end) \<and> routes (sworld demo_end) = [] \<and> client_next (sworld demo_end) = 1"
proof -
  have "client_next (sworld demo_end) = 1" by code_simp
  then show ?thesis using reachable_well_formed [OF demo_reached] by simp
qed

theorem retry_always_armed_witness:
  "length (filter (\<lambda>e. snd e = RetryDelivery 0) (timers (sworld demo_end))) = 1"
proof (rule retry_always_armed [OF demo_reached])
  show "0 < client_next (sworld demo_end)" by code_simp
  show "conn (client_at (sworld demo_end) 0)" by code_simp
  show "inflight (client_at (sworld demo_end) 0) \<noteq> []" by code_simp
qed

theorem crash_causes_witness:
  "sys_step demo_hash (Up demo_end) (LConnect demo_env 0 ReadFailed) (Down ''read connect packet error'')"
proof -
  have "0 < length (handshakes demo_end)" by code_simp
  then show ?thesis unfolding crash_causes [OF demo_reached] by simp
qed

theorem read_deadline_exact_witness:
  "\<exists>s'. run (sys_step demo_hash) (Up demo_end) [LTop 0 True, LRead 0 90000000000 (Got PingreqPacket)] (Up s') \<and>
    reader s' 0 = Ended"
proof -
  have "reader demo_end 0 = AtTop" "backlog demo_end 0 = 0" "\<not> ctxDone (client_at (sworld demo_end) 0)"
    "\<not> conn_closed (client_at (sworld demo_end) 0)" by code_simp+
  moreover have "keepalive (info (client_at (sworld demo_end) 0)) = 60" by code_simp
  ultimately show ?thesis
    using read_deadline_exact [OF demo_reached, of 0 PingreqPacket True 90000000000] by (auto simp: parsed_def)
qed

text \<open>A state in which the reader of a client waits for a packet.\<close>

definition demo_waiting :: system where
  "demo_waiting = \<lparr> sworld = demo_world, wpool = Some (New 2), reader = (\<lambda>_. InRead),
     listener = Serving, accepting = accept_loop [], handshakes = [], producer = NotRunning, published = [] \<rparr>"

lemma demo_idle: "idle demo_hash demo_waiting 0"
proof -
  have p: "pool_ok (New 2 :: Message WorkerPool)" by (rule pool_ok_New) simp
  have "worker_index demo_hash (New 2 :: Message WorkerPool) u < 2" for u
    using worker_index_bound [OF p, of demo_hash u] by (simp add: taskQueue_New)
  with p show ?thesis
    by (simp add: idle_def demo_waiting_def Let_def taskQueue_New)
qed

lemma demo_backlog: "backlog demo_waiting 0 = 0"
  by (simp add: backlog_def offered_def demo_waiting_def demo_world_def tasks_def taskQueue_New)

theorem malformed_publish_kills_witness:
  "\<exists>i. run (sys_step demo_hash) (Up demo_waiting)
    [LRead 0 5 (Got (PublishPacket (demo_publish [CHR 0xFF] 0))), LWork i demo_env, LTop 0 True]
    (Down ''set read timeout error'')"
  by (rule malformed_publish_kills [OF demo_idle _ demo_backlog])
    (simp_all add: demo_waiting_def demo_client_def demo_info_def demo_publish_def time_out_conv text_ok_iff ValidString_def)

theorem silent_client_closed_witness:
  "\<exists>i s'. run (sys_step demo_hash) (Up demo_waiting) [LRead 0 90000000000 ReadFailed, LWork i demo_env] (Up s') \<and>
    status (client_at (sworld s') 0) = Disconnected \<and> reader s' 0 = Ended"
proof -
  have "90000000000 \<ge> time_out (info (client_at (sworld demo_waiting) 0))"
    by (simp add: demo_waiting_def demo_client_def demo_info_def time_out_conv)
  from silent_client_closed [OF demo_idle _ _ _ this, of ReadFailed demo_env] show ?thesis
    by (auto simp: demo_waiting_def demo_client_def demo_info_def)
qed

end
