(* ===== verification/Retransmission.thy ===== *)
theory Retransmission
  imports World_Invariant
begin

text \<open>
  What one run of \<open>retryDelivery\<close> does to the packets in flight: the due ones are written
  again and get a new timestamp, the others stay, and the timer is armed again.
\<close>

definition renewed :: "env \<Rightarrow> inflightElement \<Rightarrow> inflightElement" where
  "renewed E e = (if due E e then e\<lparr>if_timestamp := now E\<rparr> else e)"

lemma retry_element_inflight:
  assumes "started w a"
  shows "inflight (client_at (retry_element E a (m, e) w) a) =
    (if due E e then gm_put m (e\<lparr>if_timestamp := now E\<rparr>) (inflight (client_at w a)) else inflight (client_at w a))"
  using assms by (simp add: retry_element_conv store_inflight_def ensureRetryTimer_client WritePacket_started)

lemma retry_fold_inflight:
  assumes "started w a" and "gm_ok ies"
  shows "gm_get (inflight (client_at (fold (retry_element E a) ies w) a)) m =
    (case gm_get ies m of
       Some e \<Rightarrow> if due E e then Some (e\<lparr>if_timestamp := now E\<rparr>) else gm_get (inflight (client_at w a)) m
     | None \<Rightarrow> gm_get (inflight (client_at w a)) m)"
  using assms
proof (induction ies arbitrary: w)
  case (Cons ie ies)
  obtain k e where ie: "ie = (k, e)" by (cases ie)
  let ?w = "retry_element E a (k, e) w"
  have k: "gm_get ies k = None" using Cons.prems(2) ie by (auto simp: map_of_eq_None_iff)
  have "started ?w a" using retry_element_wrote(3) [OF Cons.prems(1)] .
  from Cons.IH [OF this] Cons.prems(2) ie k show ?case
    by (auto simp: retry_element_inflight [OF Cons.prems(1)] split: option.split)
qed simp

lemma retry_fold_state:
  "started w a \<Longrightarrow> write_state (client_at (fold (retry_element E a) ies w) a) = write_state (client_at w a)"
proof (induction ies arbitrary: w)
  case (Cons ie ies)
  obtain k e where "ie = (k, e)" by (cases ie)
  with Cons.IH [OF retry_element_wrote(3) [OF Cons.prems]] show ?case
    by (simp add: retry_element_wrote(2) [OF Cons.prems])
qed simp

text \<open>
  C7: when the retry timer of a client with a connection fires, the client is sent again exactly
  the packets in flight that are due, each once, as PUBLISH or, after a PUBREC, as PUBREL; these get
  the current time and the others keep theirs, no packet is dropped, no other client receives
  anything, and while packets are in flight the timer is armed again exactly once.
\<close>

theorem retry_resends_due:
  assumes "cinv_fired w a" and "conn (client_at w a)"
  shows "wrote (client_at (retryDelivery E a w) a) = wrote (client_at w a) @
      concat (map (\<lambda>(m, e). if due E e \<and> can_write E a (retry_packet e) (client_at w a)
        then [retry_packet e] else []) (inflight (client_at w a))) \<and>
    (\<forall>m. gm_get (inflight (client_at (retryDelivery E a w) a)) m =
       map_option (renewed E) (gm_get (inflight (client_at w a)) m)) \<and>
    (\<forall>b. b \<noteq> a \<longrightarrow> wrote (client_at (retryDelivery E a w) b) = wrote (client_at w b)) \<and>
    (inflight (client_at w a) \<noteq> [] \<longrightarrow> retry_pending (retryDelivery E a w) a = 1)"
proof -
  let ?w0 = "resetRetryTimer a w"
  let ?v = "fold (retry_element E a) (inflight (client_at ?w0 a)) ?w0"
  have st: "started w a" and st0: "started ?w0 a"
    using assms(1) by (simp_all add: cinv_fired_def resetRetryTimer_def started_def)
  have ok: "gm_ok (inflight (client_at w a))" using st by (simp add: started_def client_ok_def)
  have "gm_get (inflight (client_at ?v a)) m = map_option (renewed E) (gm_get (inflight (client_at w a)) m)" for m
    using retry_fold_inflight [OF st0, of "inflight (client_at w a)" E m] ok
    by (simp add: reset_client renewed_def split: option.split)
  then have inf: "gm_get (inflight (client_at (retryDelivery E a w) a)) m =
      map_option (renewed E) (gm_get (inflight (client_at w a)) m)" for m
    using assms(2) by (simp add: retryDelivery_def Let_def ensureRetryTimer_client reset_client)
  have other: "wrote (client_at (retryDelivery E a w) b) = wrote (client_at w b)" if "b \<noteq> a" for b
  proof -
    have "wrote (client_at (retry_element E a ie u) b) = wrote (client_at u b)" for ie u
      using that by (cases ie) (simp add: retry_element_conv store_inflight_def ensureRetryTimer_client)
    then have "wrote (client_at (fold (retry_element E a) ies u) b) = wrote (client_at u b)" for ies u
      by (induction ies arbitrary: u) simp_all
    then show ?thesis by (simp add: retryDelivery_def Let_def ensureRetryTimer_client reset_client)
  qed
  have "retry_pending (retryDelivery E a w) a = 1" if ne: "inflight (client_at w a) \<noteq> []"
  proof -
    let ?u = "retryDelivery E a w"
    obtain x rest where "inflight (client_at w a) = x # rest"
      using ne by (cases "inflight (client_at w a)") simp_all
    then obtain m e where "inflight (client_at w a) = (m, e) # rest" by (cases x) auto
    then have "inflight (client_at ?u a) \<noteq> []" using inf [of m] by auto
    moreover have "write_state (client_at ?v a) = write_state (client_at w a)"
      using retry_fold_state [OF st0] by (simp add: reset_client)
    then have "conn (client_at ?u a)"
      using assms(2) by (simp add: write_state_def retryDelivery_def Let_def ensureRetryTimer_client reset_client)
    ultimately show ?thesis using retryDelivery_cinv [OF assms(1), of E] by (simp add: cinv_def)
  qed
  with retryDelivery_wrote [OF st assms(2)] inf other show ?thesis by blast
qed

text \<open>A client with two packets in flight, one of them due, whose timer has fired.\<close>

definition demo_retry :: world where
  "demo_retry = upd_client 1 (\<lambda>c. c\<lparr>inflight :=
     [(7, \<lparr> if_status = Publish, if_packet = demo_publish ''a/b'' 1, if_timestamp = 50 \<rparr>),
      (8, \<lparr> if_status = Publish, if_packet = (demo_publish ''a/b'' 1)\<lparr>p_MessageID := 8\<rparr>, if_timestamp = 95 \<rparr>)]\<rparr>) demo_world"

theorem retry_resends_due_witness:
  "wrote (client_at (retryDelivery demo_env 1 demo_retry) 1) = [PublishPacket (demo_publish ''a/b'' 1)]"
proof -
  have "cinv_fired demo_retry 1"
    by (simp add: cinv_fired_def demo_retry_def started_def client_ok_def inflight_ok_def retry_pending_def
        demo_client_def demo_publish_def)
  moreover have "conn (client_at demo_retry 1)" by (simp add: demo_retry_def demo_client_def)
  ultimately show ?thesis
    using retry_resends_due [of demo_retry 1 demo_env]
    by (simp add: demo_retry_def demo_client_def due_def demo_env_def retryInterval_def can_write_def retry_packet_def)
qed

end
