(* ===== verification/Message_Flow.thy ===== *)
theory Message_Flow
  imports Publish_Handlers Subscribe_Handlers
begin

text \<open>
  The way of a message from the publisher to the subscribers, across the handlers of
  \<open>broker/subscribe.go\<close>, \<open>broker/publish.go\<close> and \<open>broker/unsubscribe.go\<close>: what a
  client receives is determined by the filters that it holds, and the filters that it holds by its
  SUBSCRIBE and UNSUBSCRIBE packets.
\<close>

section \<open>Filters that a client holds\<close>

definition plain :: "string \<Rightarrow> bool" where
  "plain t \<longleftrightarrow> take 7 t \<noteq> ''$share/''"

definition fits :: "string list \<Rightarrow> string \<Rightarrow> bool" where
  "fits ls t \<longleftrightarrow> (\<exists>p. levels t = Inr p \<and> matches p ls)"

text \<open>The number of filters of a client that match the levels of a topic.\<close>

definition interest :: "world \<Rightarrow> addr \<Rightarrow> string list \<Rightarrow> nat" where
  "interest w b ls = card {t. held w b t \<noteq> None \<and> fits ls t}"

definition holds_plain :: "world \<Rightarrow> addr \<Rightarrow> bool" where
  "holds_plain w b \<longleftrightarrow> (\<forall>t. held w b t \<noteq> None \<longrightarrow> plain t)"

lemma held_Some: "held w b t \<noteq> None \<longleftrightarrow> (\<exists>s. gm_get (subMap (client_at w b)) t = Some s)"
  by (simp add: held_def)

lemma shared_key_not_plain: "share s \<Longrightarrow> \<not> plain (sub_key s)"
  by (simp add: plain_def sub_key_def)

lemma plain_sub:
  assumes "winv w" and "b < client_next w" and "holds_plain w b" and "gm_get (subMap (client_at w b)) t = Some s"
  shows "live w s" and "sub_client (sub_at w s) = b" and "\<not> share (sub_at w s)" and "sub_topic (sub_at w s) = t"
proof -
  from assms(1) have "maps_ok w" by (simp add: winv_def sinv_def)
  with assms(2,4) have o: "live w s" "sub_client (sub_at w s) = b" "sub_key (sub_at w s) = t"
    unfolding maps_ok_def by blast+
  then show "live w s" "sub_client (sub_at w s) = b" by blast+
  have "plain t" using assms(3,4) unfolding holds_plain_def held_Some by blast
  with o(3) shared_key_not_plain show "\<not> share (sub_at w s)" by blast
  with o(3) show "sub_topic (sub_at w s) = t" by (simp add: sub_key_def)
qed

lemma owner_tracks:
  assumes "winv w" and "live w s" and "sub_client (sub_at w s) = b" and "ctyp (client_at w b) = CLIENT"
  shows "gm_get (subMap (client_at w b)) (sub_key (sub_at w s)) = Some s"
  using assms by (auto simp: winv_def sinv_def tracked_ok_def)

lemma direct_interest:
  assumes "winv w" and "b < client_next w" and "ctyp (client_at w b) = CLIENT" and "holds_plain w b"
  shows "card (direct_subs w ty ls b) = interest w b ls"
proof -
  note own = plain_sub [OF assms(1,2,4)] and tr = owner_tracks [OF assms(1) _ _ assms(3)]
  have "bij_betw (\<lambda>s. sub_topic (sub_at w s)) (direct_subs w ty ls b) {t. held w b t \<noteq> None \<and> fits ls t}"
  proof (rule bij_betw_imageI)
    show "inj_on (\<lambda>s. sub_topic (sub_at w s)) (direct_subs w ty ls b)"
    proof (rule inj_onI)
      fix s s' assume "s \<in> direct_subs w ty ls b" "s' \<in> direct_subs w ty ls b"
        and "sub_topic (sub_at w s) = sub_topic (sub_at w s')"
      with tr [of s] tr [of s'] show "s = s'"
        by (simp add: direct_subs_def matching_def sub_key_def)
    qed
    show "(\<lambda>s. sub_topic (sub_at w s)) ` direct_subs w ty ls b = {t. held w b t \<noteq> None \<and> fits ls t}"
    proof (intro set_eqI iffI)
      fix t assume "t \<in> (\<lambda>s. sub_topic (sub_at w s)) ` direct_subs w ty ls b"
      with tr show "t \<in> {t. held w b t \<noteq> None \<and> fits ls t}"
        unfolding held_Some by (fastforce simp: direct_subs_def matching_def sub_key_def fits_def)
    next
      fix t assume "t \<in> {t. held w b t \<noteq> None \<and> fits ls t}"
      then obtain s where "gm_get (subMap (client_at w b)) t = Some s" and "fits ls t"
        unfolding held_Some by blast
      with own [of t s] assms(3) have "s \<in> direct_subs w ty ls b" "sub_topic (sub_at w s) = t"
        by (auto simp: direct_subs_def matching_def fits_def eligible_def)
      then show "t \<in> (\<lambda>s. sub_topic (sub_at w s)) ` direct_subs w ty ls b" by blast
    qed
  qed
  then show ?thesis unfolding interest_def by (rule bij_betw_same_card)
qed

text \<open>A client without shared filters receives one copy for each filter that matches.\<close>

lemma fan_out_interest:
  assumes "winv w" and "b < client_next w" and "ctyp (client_at w b) = CLIENT" and "holds_plain w b"
    and "picked w a ls pick"
  shows "fan_out E w a p ls pick b = copies E w p b (interest w b ls)"
proof -
  have "sub_client (sub_at w s) \<noteq> b" if "pick = Some s" for s
  proof
    assume b: "sub_client (sub_at w s) = b"
    from that assms(5) have s: "live w s" "share (sub_at w s)"
      by (simp_all add: picked_def shared_subs_def matching_def)
    from owner_tracks [OF assms(1) s(1) b assms(3)] plain_sub(3) [OF assms(1,2,4)] s(2) show False by blast
  qed
  then show ?thesis
    by (simp add: fan_out_def direct_interest [OF assms(1-4)] split: option.split)
qed

section \<open>What handlers leave alone\<close>

definition peers_kept :: "world \<Rightarrow> world \<Rightarrow> bool" where
  "peers_kept w w' \<longleftrightarrow> client_next w' = client_next w \<and>
     (\<forall>b. ctyp (client_at w' b) = ctyp (client_at w b) \<and> write_state (client_at w' b) = write_state (client_at w b))"

lemma peers_kept_trans: "peers_kept w w' \<Longrightarrow> peers_kept w' w'' \<Longrightarrow> peers_kept w w''"
  by (simp add: peers_kept_def)

lemma peers_keptD:
  assumes "peers_kept w w'"
  shows "client_next w' = client_next w" "ctyp (client_at w' b) = ctyp (client_at w b)"
    "status (client_at w' b) = status (client_at w b)"
    "can_write E b p (client_at w' b) = can_write E b p (client_at w b)"
  using assms can_write_cong [of "client_at w' b" "client_at w b"]
  by (auto simp: peers_kept_def write_state_def)

lemma wrote_only_peers:
  assumes "wrote_only w w'"
  shows "peers_kept w w'"
  unfolding peers_kept_def
proof (intro conjI allI)
  from assms show "client_next w' = client_next w"
    by (auto simp: wrote_only_def same_but_clients_def)
  fix b
  obtain x where "client_at w' b = (client_at w b)\<lparr>wrote := x\<rparr>" using assms unfolding wrote_only_def by blast
  then show "ctyp (client_at w' b) = ctyp (client_at w b)"
    and "write_state (client_at w' b) = write_state (client_at w b)" by simp_all
qed

lemma peers_kept_sub: "sub_frame w v \<Longrightarrow> wrote_only v w' \<Longrightarrow> peers_kept w w'"
  by (rule peers_kept_trans [OF _ wrote_only_peers]) (simp_all add: peers_kept_def sub_frame_def)

lemma lookup_peers: "peers_kept w (lookup_world a p f w)"
  by (simp add: peers_kept_def lookup_world_def retain_world_def write_state_def split: prod.split)

lemma held_struct: "same_struct (retain_world p w) w' \<Longrightarrow> held w' b = held w b"
  by (rule ext) (simp add: same_struct_def held_def retain_world_def)

lemma publish_message_flow:
  assumes "winv w" and "a < client_next w" and "ValidQos (p_Qos p)" and "levels (p_TopicName p) = Inr ls"
  obtains w' pick where "ProcessPublishMessage E a p w = Ret w'" and "winv w'" and "picked w a ls pick"
    and "peers_kept w w'" and "\<And>b. held w' b = held w b"
    and "\<And>b. wrote (client_at w' b) = wrote (client_at w b) @ fan_out E w a p ls pick b"
proof -
  have br: "broker (client_at w a)"
    using winvD(3) [OF assms(1,2)] by (simp add: started_def client_ok_def)
  obtain fs qs where
    found: "Manager_Subscribers (topicsMgr (retain_world p w)) (p_TopicName p) (p_Qos p)
      (csubs (client_at w a), qoss (client_at w a)) = ((fs, qs), None)"
    by (rule found_matching [OF assms(1,3,4)])
  obtain w' pick where
    w': "ProcessPublishMessage E a p w = Ret w'" "winv w'" "picked w a ls pick" "same_struct (retain_world p w) w'"
      "\<And>b. wrote (client_at w' b) = wrote (client_at w b) @ fan_out E w a p ls pick b"
    by (rule ProcessPublishMessage_fan_out [OF assms, of E]) (rule that)
  from ProcessPublishMessage_effect [OF br found found_subs_started [OF assms(1) found], of E] w'(1)
  have shape: "same_shape (lookup_world a p (fs, qs) w) w'" by (metis outcome.inject(1))
  have "client_next w' = client_next w" using w'(4) by (simp add: same_struct_def retain_world_def)
  with shape lookup_peers [of w a p "(fs, qs)"] have "peers_kept w w'"
    by (simp add: peers_kept_def same_shape_def)
  from that [OF w'(1-3) this held_struct [OF w'(4)] w'(5)] show ?thesis .
qed

definition acks :: "publish_packet \<Rightarrow> control_packet list" where
  "acks p = (if p_Qos p = 1 then [PubackPacket (p_MessageID p)] else [])"

lemma client_publish_flow:
  assumes "winv w" and "a < client_next w" and "ctyp (client_at w a) = CLIENT"
    and "status (client_at w a) = Connected" and "p_Qos p = 0 \<or> p_Qos p = 1" and "levels (p_TopicName p) = Inr ls"
    and "\<forall>k \<in> set (acks p). can_write E a k (client_at w a)"
  obtains w' pick where "ProcessPublish E a p w = Ret w'" and "winv w'" and "picked w a ls pick"
    and "peers_kept w w'" and "\<And>b. held w' b = held w b"
    and "\<And>b. wrote (client_at w' b) = wrote (client_at w b) @ (if b = a then acks p else []) @ fan_out E w a p ls pick b"
proof -
  let ?v = "bridge_world E a p w"
  have br: "broker (client_at w a)"
    using winvD(3) [OF assms(1,2)] by (simp add: started_def client_ok_def)
  note conv = client_publish_conv [OF br assms(3), of E p]
  have q: "ValidQos (p_Qos p)" using assms(5) by (auto simp: ValidQos_def)
  have v: "winv ?v" "a < client_next ?v" "peers_kept w ?v" "held ?v = held w"
    using assms(1,2) by (simp_all add: peers_kept_def held_def fun_eq_iff)
  show ?thesis
  proof (cases "p_Qos p = 0")
    case True
    obtain w' pick where
      w': "ProcessPublishMessage E a p ?v = Ret w'" "winv w'" "picked ?v a ls pick" "peers_kept ?v w'"
      "\<And>b. held w' b = held ?v b" "\<And>b. wrote (client_at w' b) = wrote (client_at ?v b) @ fan_out E ?v a p ls pick b"
      by (rule publish_message_flow [OF v(1,2) q assms(6), of E]) (rule that)
    have "ProcessPublish E a p w = Ret w'" using conv True w'(1) by (simp add: Let_def)
    then show ?thesis
      using w' v(4) peers_kept_trans [OF v(3) w'(4)] True by (intro that [of w' pick]) (simp_all add: acks_def)
  next
    case False
    with assms(5) have one: "p_Qos p = 1" by blast
    let ?k = "PubackPacket (p_MessageID p)"
    have cw: "can_write E a ?k (client_at ?v a)" using assms(7) one by (simp add: acks_def)
    then obtain u where u: "WritePacket E a ?k ?v = (u, None)" using WritePacket_ok [of E a ?k ?v] by blast
    note k = write_keeps_shape [OF v(1,2) u] and m = write_matching [OF v(1,2) u]
    have wo: "wrote_only ?v u" using WritePacket_wrote_only [OF v(1,2), of E ?k] u by simp
    obtain w' pick where
      w': "ProcessPublishMessage E a p u = Ret w'" "winv w'" "picked u a ls pick" "peers_kept u w'"
      "\<And>b. held w' b = held u b" "\<And>b. wrote (client_at w' b) = wrote (client_at u b) @ fan_out E u a p ls pick b"
      by (rule publish_message_flow [OF k(1,2) q assms(6), of E]) (rule that)
    have "ProcessPublish E a p w = Ret w'" using conv one u w'(1) by (simp add: Let_def)
    moreover have "picked w a ls pick" using w'(3) by (simp add: m(3))
    moreover have "peers_kept w w'"
      using peers_kept_trans [OF v(3) peers_kept_trans [OF wrote_only_peers [OF wo] w'(4)]] .
    moreover have "held w' b = held w b" for b using w'(5) wrote_only_views(1) [OF wo] v(4) by simp
    moreover have "wrote (client_at w' b) = wrote (client_at w b) @ (if b = a then acks p else []) @ fan_out E w a p ls pick b" for b
      using w'(6) k(7) cw one by (simp add: m(2) acks_def)
    ultimately show ?thesis using w'(2) by (intro that)
  qed
qed

section \<open>Subscribing and unsubscribing\<close>

lemma client_subscribe_flow:
  assumes "winv w" and "b < client_next w" and "ctyp (client_at w b) = CLIENT"
    and "status (client_at w b) = Connected" and "length (s_Topics p) \<le> length (s_Qoss p)"
  obtains w' where "ProcessSubscribe E b p w = Ret w'" and "winv w'" and "peers_kept w w'"
    and "held w' b = fold hold_step (zip (s_Topics p) (s_Qoss p)) (held w b)"
proof -
  obtain v w' where w': "processClientSubscribe E b p w = Ret w'" "winv w'"
    "sub_result b (zip (s_Topics p) (s_Qoss p)) w v" "wrote_only v w'"
    by (rule client_subscribe_effect [OF assms(1,2,4,5), of E])
  have "sub_frame w v" using w'(3) by (simp add: sub_result_def)
  from that [OF _ w'(2) peers_kept_sub [OF this w'(4)]] w' assms(3) show ?thesis
    by (simp add: ProcessSubscribe_def wrote_only_views [OF w'(4)] sub_result_def)
qed

lemma client_unsubscribe_flow:
  assumes "winv w" and "b < client_next w" and "ctyp (client_at w b) = CLIENT"
    and "status (client_at w b) = Connected"
  obtains w' where "ProcessUnsubscribe E b p w = Ret w'" and "winv w'" and "peers_kept w w'"
    and "held w' b = (\<lambda>t. if t \<in> set (u_Topics p) then None else held w b t)"
proof -
  obtain v w' where w': "processClientUnsubscribe E b p w = Ret w'" "winv w'" "wrote_only v w'" "sub_frame w v"
    "held v b = (\<lambda>t. if t \<in> set (u_Topics p) then None else held w b t)"
    by (rule client_unsubscribe_effect [OF assms(1,2,4), of E])
  from that [OF _ w'(2) peers_kept_sub [OF w'(4,3)]] w' assms(3) show ?thesis
    by (simp add: ProcessUnsubscribe_def wrote_only_views [OF w'(3)])
qed

lemma plain_publish:
  assumes "winv w" and "a < client_next w" and "ctyp (client_at w a) = CLIENT"
    and "status (client_at w a) = Connected" and "p_Qos p = 0 \<or> p_Qos p = 1" and "levels (p_TopicName p) = Inr ls"
    and "\<forall>k \<in> set (acks p). can_write E a k (client_at w a)"
    and "b < client_next w" and "ctyp (client_at w b) = CLIENT" and "holds_plain w b"
  obtains w' where "ProcessPublish E a p w = Ret w'" and "winv w'" and "peers_kept w w'" and "held w' b = held w b"
    and "wrote (client_at w' b) = wrote (client_at w b) @ (if b = a then acks p else []) @
      (if can_write E b (PublishPacket p) (client_at w b) then replicate (interest w b ls) (PublishPacket p) else [])"
proof -
  obtain w' pick where w': "ProcessPublish E a p w = Ret w'" "winv w'" "picked w a ls pick" "peers_kept w w'"
    "\<And>b. held w' b = held w b"
    "\<And>b. wrote (client_at w' b) = wrote (client_at w b) @ (if b = a then acks p else []) @ fan_out E w a p ls pick b"
    by (rule client_publish_flow [OF assms(1-7)]) (rule that)
  from that [OF w'(1,2,4) w'(5)] w'(6) [of b] assms(5) show ?thesis
    by (simp add: fan_out_interest [OF assms(1,8-10) w'(3)] copies_def)
qed

section \<open>Properties\<close>

text \<open>
  C5: a message with QoS 0 or 1 from an end-user client reaches an end-user client that holds no
  shared filter once for each of the filters it holds that match the topic, and in no other
  number: the tree, the subscription objects and the client's own map agree.  The publisher's
  acknowledgement comes first.
\<close>

theorem receives_per_held_filter:
  assumes "winv w" and "a < client_next w" and "ctyp (client_at w a) = CLIENT"
    and "status (client_at w a) = Connected" and "p_Qos p = 0 \<or> p_Qos p = 1" and "levels (p_TopicName p) = Inr ls"
    and "\<forall>k \<in> set (acks p). can_write E a k (client_at w a)"
    and "b < client_next w" and "ctyp (client_at w b) = CLIENT" and "holds_plain w b"
  shows "\<exists>w'. ProcessPublish E a p w = Ret w' \<and> winv w' \<and>
    wrote (client_at w' b) = wrote (client_at w b) @ (if b = a then acks p else []) @
      (if can_write E b (PublishPacket p) (client_at w b)
       then replicate (card {t. held w b t \<noteq> None \<and> fits ls t}) (PublishPacket p) else [])"
  by (rule plain_publish [OF assms]) (simp add: interest_def)

lemma demo_held: "held demo_world 0 = Map.empty" "held demo_world (Suc 0) = [''a/b'' \<mapsto> 1]"
  by (auto simp: held_def demo_client_def fun_eq_iff)

lemma demo_fits: "fits [''a'', ''b''] ''a/+''" "fits [''a'', ''b''] ''a/b''"
proof -
  have "levels ''a/+'' = Inr [''a'', ''+'']" by code_simp
  then show "fits [''a'', ''b''] ''a/+''" "fits [''a'', ''b''] ''a/b''"
    using demo_levels by (simp_all add: fits_def SWC_def MWC_def)
qed

theorem receives_per_held_filter_witness:
  "\<exists>w'. ProcessPublish demo_env 0 (demo_publish ''a/b'' 1) demo_world = Ret w' \<and> winv w' \<and>
    wrote (client_at w' 1) = [PublishPacket (demo_publish ''a/b'' 1)]"
proof -
  have "{t. held demo_world 1 t \<noteq> None \<and> fits [''a'', ''b''] t} = {''a/b''}"
    using demo_fits(2) by (auto simp: demo_held split: if_splits)
  then show ?thesis
    using receives_per_held_filter [OF demo_winv, of 0 "demo_publish ''a/b'' 1" "[''a'', ''b'']" demo_env 1]
    by (simp add: demo_levels demo_client_def demo_publish_def demo_env_def can_write_def acks_def
        holds_plain_def demo_held plain_def split: if_splits)
qed

text \<open>
  C4: the life of a subscription, across the handlers: a client that holds no filter subscribes to
  a well-formed unshared filter; a message that another client then publishes is written to it
  once if the filter matches the topic and not at all otherwise; after an UNSUBSCRIBE for the filter
  the same message is not written to it any more, and it holds no filter again.
\<close>

theorem subscription_lifecycle:
  assumes "winv w" and "a < client_next w" and "ctyp (client_at w a) = CLIENT"
    and "status (client_at w a) = Connected" and "p_Qos p = 0 \<or> p_Qos p = 1" and "levels (p_TopicName p) = Inr ls"
    and "\<forall>k \<in> set (acks p). can_write E a k (client_at w a)"
    and "b < client_next w" and "ctyp (client_at w b) = CLIENT" and "b \<noteq> a"
    and "can_write E b (PublishPacket p) (client_at w b)" and "status (client_at w b) = Connected"
    and "held w b = Map.empty" and "plain t" and "grants t q"
  shows "\<exists>w1 w2 w3 w4.
    ProcessSubscribe E b \<lparr> s_MessageID = m, s_Topics = [t], s_Qoss = [q] \<rparr> w = Ret w1 \<and>
    ProcessPublish E a p w1 = Ret w2 \<and>
    ProcessUnsubscribe E b \<lparr> u_MessageID = m', u_Topics = [t] \<rparr> w2 = Ret w3 \<and>
    ProcessPublish E a p w3 = Ret w4 \<and>
    held w1 b = [t \<mapsto> q] \<and> held w4 b = Map.empty \<and>
    wrote (client_at w2 b) = wrote (client_at w1 b) @ (if fits ls t then [PublishPacket p] else []) \<and>
    wrote (client_at w4 b) = wrote (client_at w3 b)"
proof -
  let ?s = "\<lparr> s_MessageID = m, s_Topics = [t], s_Qoss = [q] \<rparr>" and ?u = "\<lparr> u_MessageID = m', u_Topics = [t] \<rparr>"
  obtain w1 where w1: "ProcessSubscribe E b ?s w = Ret w1" "winv w1" "peers_kept w w1"
    "held w1 b = fold hold_step (zip (s_Topics ?s) (s_Qoss ?s)) (held w b)"
    by (rule client_subscribe_flow [OF assms(1,8,9,12), of ?s E]) (simp, rule that)
  note k1 = peers_keptD [OF w1(3)]
  have h1: "held w1 b = [t \<mapsto> q]" using w1(4) assms(13,15) by (simp add: hold_step_def)
  then have "holds_plain w1 b" and i1: "interest w1 b ls = (if fits ls t then 1 else 0)"
    using assms(14) by (simp_all add: holds_plain_def interest_def if_distrib [of card] cong: conj_cong)
  then obtain w2 where w2: "ProcessPublish E a p w1 = Ret w2" "winv w2" "peers_kept w1 w2" "held w2 b = held w1 b"
    "wrote (client_at w2 b) = wrote (client_at w1 b) @ (if b = a then acks p else []) @
      (if can_write E b (PublishPacket p) (client_at w1 b) then replicate (interest w1 b ls) (PublishPacket p) else [])"
    using assms k1 by (rule_tac plain_publish [OF w1(2), of a p ls E b]) simp_all
  note k2 = peers_keptD [OF peers_kept_trans [OF w1(3) w2(3)]]
  obtain w3 where w3: "ProcessUnsubscribe E b ?u w2 = Ret w3" "winv w3" "peers_kept w2 w3"
    "held w3 b = (\<lambda>t. if t \<in> set (u_Topics ?u) then None else held w2 b t)"
    using assms k2 by (rule_tac client_unsubscribe_flow [OF w2(2), of b E ?u]) simp_all
  note k3 = peers_keptD [OF peers_kept_trans [OF peers_kept_trans [OF w1(3) w2(3)] w3(3)]]
  have h3: "held w3 b = Map.empty" using w3(4) w2(4) h1 by (auto simp: fun_eq_iff)
  then have "holds_plain w3 b" and i3: "interest w3 b ls = 0" by (simp_all add: holds_plain_def interest_def)
  then obtain w4 where w4: "ProcessPublish E a p w3 = Ret w4" "held w4 b = held w3 b"
    "wrote (client_at w4 b) = wrote (client_at w3 b) @ (if b = a then acks p else []) @
      (if can_write E b (PublishPacket p) (client_at w3 b) then replicate (interest w3 b ls) (PublishPacket p) else [])"
    using assms k3 by (rule_tac plain_publish [OF w3(2), of a p ls E b]) simp_all
  show ?thesis
    using w1(1) w2(1,5) w3(1) w4 h1 h3 i1 i3 k1(4) assms(10,11) by auto
qed

theorem subscription_lifecycle_witness:
  "\<exists>w1 w2 w3 w4.
    ProcessSubscribe demo_env 0 \<lparr> s_MessageID = 7, s_Topics = [''a/+''], s_Qoss = [1] \<rparr> demo_world = Ret w1 \<and>
    ProcessPublish demo_env 1 (demo_publish ''a/b'' 1) w1 = Ret w2 \<and>
    ProcessUnsubscribe demo_env 0 \<lparr> u_MessageID = 8, u_Topics = [''a/+''] \<rparr> w2 = Ret w3 \<and>
    ProcessPublish demo_env 1 (demo_publish ''a/b'' 1) w3 = Ret w4 \<and>
    held w1 0 = [''a/+'' \<mapsto> 1] \<and> held w4 0 = Map.empty \<and>
    wrote (client_at w2 0) = wrote (client_at w1 0) @ [PublishPacket (demo_publish ''a/b'' 1)] \<and>
    wrote (client_at w4 0) = wrote (client_at w3 0)"
proof -
  have "levels ''a/+'' = Inr [''a'', ''+'']" by code_simp
  then have "grants ''a/+'' 1" by (simp add: grants_def share_topic_def accepted_def ValidQos_def)
  then show ?thesis
    using subscription_lifecycle [OF demo_winv, of 1 "demo_publish ''a/b'' 1" "[''a'', ''b'']" demo_env 0 "''a/+''" 1 7 8]
      demo_fits(1)
    by (simp add: demo_levels demo_client_def demo_publish_def demo_env_def can_write_def acks_def
        demo_held plain_def)
qed

end
