(* ===== verification/Spec2Isabelle.thy ===== *)
theory Spec2Isabelle
  imports Broker_System Retransmission Message_Flow
begin

text \<open>
  Verification of thoth, an MQTT 3.1.1 broker written in Go.

  \<^bold>\<open>The program.\<close>  \<open>main.go\<close> loads the configuration, builds a broker
  (\<open>NewBroker\<close>) and starts its listener.  For every accepted connection
  \<open>handleConnection\<close> reads the first packet, authenticates the client, sends the CONNACK, finds
  or makes the client's session and runs the client's read loop (\<open>readLoop\<close>).  The read loop hands
  each packet to the worker pool (\<open>SubmitWork\<close>), which picks a worker by a hash of the client's
  identifier; the worker runs \<open>ProcessMessage\<close>, which validates the packet and calls the handler
  for its type.  Handlers use the topics manager (a tree of subscriptions and a tree of retained
  messages) and the session manager, write packets to the connections of other clients, arm timers
  for retransmission and put messages into the channel of the bridge, from which the producer of
  \<open>rabbitmq.go\<close> sends them to RabbitMQ.

  \<^bold>\<open>Theories and sources\<close> (paths under \<open>src/\<close>; definitions have the names of the Go
  functions; a prefix tells apart methods with the same name, such as \<open>mem_Subscribe\<close> and
  \<open>Manager_Subscribe\<close>).

  \<^item> \<open>Thoth_Base\<close>: the prelude.  Widths of integers, the type \<open>outcome\<close> of Go code
    that returns, panics or exits, Go maps as association lists with distinct keys (\<open>gomap\<close>) and
    the generic lemmas and collections.
  \<^item> \<open>Mqtt_Packets\<close>: the packet types of the package \<open>paho.mqtt.golang/packets\<close>, as
    the fields that the broker reads and writes.
  \<^item> \<open>Topic_Levels\<close>, \<open>Sub_Trie\<close>, \<open>Retain_Trie\<close>, \<open>Mem_Topics\<close>,
    \<open>Provider_Registry\<close>: \<open>broker/persistence/topics/\<close>.  \<open>nextTopicLevel\<close>
    character by character, the two trees with insertion, removal and matching, the provider
    \<open>memTopics\<close>, the registry and the manager.
  \<^item> \<open>Session_Store\<close>: \<open>broker/persistence/sessions/\<close>.  Session objects, the in-memory
    provider, registry and manager, and the generated session ids.
  \<^item> \<open>Config_Load\<close>: \<open>config/env.go\<close>.  The tagged struct and the reflective loader.
  \<^item> \<open>Broker_State\<close>, \<open>Delivery\<close>, \<open>World_Invariant\<close>, \<open>Retransmission\<close>:
    the objects of \<open>broker/client.go\<close>, \<open>WritePacket\<close>, \<open>Close\<close>, the identifiers of
    incoming QoS 2 packets; \<open>broker/comm.go\<close>; the invariant \<open>winv\<close> of the whole state.
  \<^item> \<open>Publish_Handlers\<close>, \<open>Subscribe_Handlers\<close>, \<open>Info_Messages\<close>:
    \<open>broker/publish.go\<close>, \<open>broker/subscribe.go\<close>, \<open>broker/unsubscribe.go\<close>,
    \<open>broker/info.go\<close>, \<open>utils/utils.go\<close>.  \<open>Message_Flow\<close> composes them.
  \<^item> \<open>Utf8_Text\<close>, \<open>Message_Dispatch\<close>: the validation of text fields and
    \<open>ProcessMessage\<close> of \<open>broker/client.go\<close>; \<open>utf8.ValidString\<close> is proved to accept
    exactly the encodings of Unicode scalar values.
  \<^item> \<open>Worker_Pool\<close>: \<open>pool/pool.go\<close>.
  \<^item> \<open>Net_Address\<close>, \<open>Auth_Client\<close>, \<open>Broker_Core\<close>, \<open>Handler_Frames\<close>:
    \<open>broker/broker.go\<close>, \<open>broker/session.go\<close>, \<open>broker/auth.go\<close>, \<open>auth/auth.go\<close>.
  \<^item> \<open>Accept_Loop\<close>: the listener of \<open>broker/broker.go\<close>.
  \<^item> \<open>Machine_Runs\<close>, \<open>Broker_Process\<close>, \<open>Broker_System\<close>: \<open>main.go\<close>,
    \<open>NewBroker\<close>, the read loop, and the process as a step relation \<open>sys_step\<close> over the
    listener, the connections, the read loops, the workers, the timers and the producer; its
    invariant and what follows for reachable states.
  \<^item> \<open>Decimal_Text\<close>, \<open>Bridge_Producer\<close>: \<open>rabbitmq/rabbitmq.go\<close> with the JSON
    text of a message.

  \<^bold>\<open>Modelling choices.\<close>

  \<^item> Clients, subscriptions and sessions are objects with addresses in the record \<open>world\<close>,
    because the tree, the maps of a client and the session store share them by pointer.  Every
    handler is a function from a \<open>world\<close> to an \<open>outcome\<close> of a \<open>world\<close>.
  \<^item> The order in which Go ranges over a map is unspecified; the association list of a
    \<open>gomap\<close> stands for the order taken.  No property depends on a particular one: they are
    stated for every \<open>world\<close> that satisfies the invariant, and results of a range as sets or as
    concatenations over the list itself.
  \<^item> What comes from outside is an argument: the record \<open>env\<close> has the clock, the next random
    number, which writes succeed, the answer of the authentication service, the validation of a
    CONNECT packet and the empty packets that the package \<open>packets\<close> makes.  The hash of the
    pool, the JSON parser, the process environment and the AMQP channel are arguments of the functions
    that use them.
  \<^item> A connection is what its reads return (\<open>read_result\<close>), the packets written to it
    (\<open>wrote\<close>) and whether it was closed.  The network library guarantees \<open>parsed\<close>: a
    SUBSCRIBE packet that was read from the wire has one QoS per topic.
  \<^item> An unbuffered channel of a worker is the list of the tasks that blocked senders offer.  A read
    loop whose packet is still offered is not at the head of its loop: this is the guard
    \<open>backlog\<close> of the step \<open>Top\<close>.  The bridge's channel holds ten messages and blocks
    further senders; the model lists the messages in the order in which senders arrive, blocked ones
    included.
  \<^item> Machine integers have their width: message identifiers and QoS are words, the worker's index is
    an unsigned 64-bit remainder, keep-alive deadlines and time stamps are integers within the
    proved bounds.
  \<^item> There is no fuel.  Loops over data are structural or have a termination proof; loops that wait
    for events (read loop, workers, accept loop, producer, ping) take one turn per event, and their
    runs are lists of events or paths of the step relation.
  \<^item> \<open>handleConnection\<close> is the handshake, up to the call of \<open>readLoop\<close>; the read loop goes
    on in the steps \<open>Top\<close> and \<open>Read\<close>, where its panic is the end of the process.
  \<^item> Handlers and handshakes are single steps of \<open>sys_step\<close>: the steps of the listener,
    connections, readers, workers, timers and the producer interleave in every order, but not the
    statements within one handler.  Statements about reachable states hold at this granularity.

  \<^bold>\<open>Interfaces.\<close>  \<open>subscription_store\<close>, \<open>retained_store\<close> and
  \<open>topics_provider\<close> are the contract of a topics provider, interpreted by \<open>memTopics\<close>
  (\<open>mem\<close>); \<open>session_provider\<close> is that of a session provider, interpreted by the in-memory
  store (\<open>ms\<close>); \<open>provider_registry\<close> is the contract of the two tables of providers
  (\<open>tr\<close>, \<open>sr\<close>); \<open>invariant_machine\<close> is that of a step relation with an inductive
  invariant, interpreted by the broker (\<open>br\<close>), and every property of reachable states rests on it.

  \<^bold>\<open>What is shown.\<close>

  \<^item> Topics: splitting a topic into levels agrees with a grammar, loses nothing and ends; the
    subscription tree refines a finite map from filters to subscribers and matching returns
    exactly the subscribers whose filter matches; retained messages are returned exactly; where
    the trees differ from MQTT (empty levels, clearing a child message) the difference is a theorem.
  \<^item> Sessions and configuration: the topic list of a session refines a map; loading the
    configuration gives each field its value, its default or zero; the structs that the loader can
    load without a panic in every environment are characterised.
  \<^item> Handlers: from every well-formed state each handler returns without a panic, keeps the
    invariant, and writes exactly the stated packets to exactly the stated connections
    (acknowledgement, fan-out, forwarding to routers, retained messages, retransmissions).
  \<^item> Across handlers: a client receives a message once per filter it holds that matches; a
    subscription delivers from its SUBSCRIBE to its UNSUBSCRIBE and not after.
  \<^item> Dispatch and connections: no parsed packet of a live client crashes the broker; an accepted
    CONNECT yields the described client and session; a session is resumed or made
    anew, and the online message reaches every matching subscriber.
  \<^item> Pool: tasks of one client run on one worker in the order of submission, all of them
    eventually, and the index of the worker is in range.
  \<^item> System: every reachable state is well-formed; the steps that bring the process down are
    exactly the listed ones; a packet is handed over before its read deadline and not after it;
    each client with unacknowledged packets has exactly one retry timer; a silent client is closed
    after its deadline; a client that sends a malformed PUBLISH brings the process down.
  \<^item> Bridge, authentication, start: the JSON text of a bridged message can be read back, messages
    are sent in order, authentication fails closed, and the delays of the accept loop are a function of
    the errors since the last accepted connection.

  \<^bold>\<open>Not modelled.\<close>  The wire format of MQTT (package \<open>packets\<close>), sockets and
  websockets, the AMQP and gRPC libraries, logging, the file read by \<open>godotenv\<close>, the random
  UUID of \<open>GenUniqueId\<close>, the generated code of \<open>heimdallr.pb.go\<close> that the broker does not
  call, the queue \<open>mqueue\<close>, which nothing reads, the signal handling and \<open>GOMAXPROCS\<close> of
  \<open>main\<close>, limits of memory (such as the number of workers for which \<open>make\<close> panics), and data
  races inside a handler: mutexes guard the trees, the sessions and the map of packets in flight,
  but neither \<open>awaitingRel\<close> nor the test of \<open>retryTimer\<close>, and the model takes handlers as
  atomic.

  \<^bold>\<open>Plan.\<close>  Splitting the publish and subscribe handlers into steps at their calls to
  \<open>WritePacket\<close>, so that handlers of different clients interleave; a contract for the operations
  that only write packets, shared by delivery, publishing and retransmission; the life of a subscription as a
  property of runs of the whole broker.
\<close>

end
